(* ===== verification/Prelude.thy ===== *)
theory Prelude
  imports Main "HOL-Library.Word" "HOL-Library.AList" "HOL-Library.Numeral_Type"
    "HOL-Library.Product_Lexorder"
begin

text \<open>
  The vocabulary the component theories share: bytes and their little-endian integer codec,
  hash maps as association lists with distinct keys (the operations are those of
  HOL-Library.AList), sums over the values of such a map, and the choice of a least element,
  which is how the sources pick an eviction victim.
\<close>

unbundle bit_operations_syntax

type_synonym byte = "8 word"
type_synonym bytes = "byte list"

text \<open>Monotonic instants and durations count nanoseconds from an arbitrary origin.\<close>

type_synonym instant = nat
type_synonym duration = nat

named_theorems kv_simps \<open>equations of the association-list maps\<close>
named_theorems len_simps \<open>lengths of encoded frames\<close>

section \<open>Little-endian integers\<close>

fun le_bytes :: "nat \<Rightarrow> nat \<Rightarrow> bytes" where
  "le_bytes 0 x = []"
| "le_bytes (Suc n) x = of_nat (x mod 256) # le_bytes n (x div 256)"

fun le_val :: "bytes \<Rightarrow> nat" where
  "le_val [] = 0"
| "le_val (b # bs) = unat b + 256 * le_val bs"

lemma length_le_bytes [simp, len_simps]: "length (le_bytes n x) = n"
  by (induction n arbitrary: x) auto

lemma unat_of_nat_less: "x < 2 ^ LENGTH('a) \<Longrightarrow> unat (of_nat x :: 'a::len word) = x"
  by (simp add: unsigned_of_nat take_bit_nat_eq_self)

lemma unat_less_2p: "unat (w :: 'a::len word) < 2 ^ LENGTH('a)"
  by (rule unsigned_less)

lemma unat_byte_of_nat [simp]: "x < 256 \<Longrightarrow> unat (of_nat x :: byte) = x"
  by (simp add: unat_of_nat_less)

lemma byte_less_256 [simp]: "unat (b :: byte) < 256"
  using unat_less_2p [of b] by simp

lemma le_val_le_bytes: "le_val (le_bytes n x) = x mod 256 ^ n"
  by (induction n arbitrary: x) (simp_all add: mod_mult2_eq)

lemma le_val_le_bytes_id [simp]: "x < 256 ^ n \<Longrightarrow> le_val (le_bytes n x) = x"
  by (simp add: le_val_le_bytes)

lemma le_val_bound: "le_val bs < 256 ^ length bs"
proof (induction bs)
  case (Cons b bs)
  have "unat b + 256 * le_val bs < 256 + 256 * le_val bs" by simp
  also have "\<dots> \<le> 256 * 256 ^ length bs" using Cons.IH by simp
  finally show ?case by simp
qed simp

lemma le_bytes_le_val [simp]: "length bs = n \<Longrightarrow> le_bytes n (le_val bs) = bs"
  by (induction bs arbitrary: n) (auto simp: unat_byte_of_nat)

lemma le_bytes_inject:
  assumes "x < 256 ^ n" "y < 256 ^ n" "le_bytes n x = le_bytes n y"
  shows "x = y"
  using assms by (metis le_val_le_bytes_id)

definition u64_to_le :: "64 word \<Rightarrow> bytes" where
  "u64_to_le w = le_bytes 8 (unat w)"

definition u64_of_le :: "bytes \<Rightarrow> 64 word" where
  "u64_of_le bs = of_nat (le_val bs)"

lemma length_u64_to_le [simp, len_simps]: "length (u64_to_le w) = 8"
  by (simp add: u64_to_le_def)

lemma u64_of_to_le [simp]: "u64_of_le (u64_to_le w) = w"
proof -
  have "unat w < 256 ^ 8" using unat_less_2p [of w] by simp
  then show ?thesis by (simp add: u64_of_le_def u64_to_le_def)
qed

lemma u64_to_of_le [simp]:
  assumes "length bs = 8"
  shows "u64_to_le (u64_of_le bs) = bs"
proof -
  have "le_val bs < 2 ^ LENGTH(64)" using le_val_bound [of bs] assms by simp
  then show ?thesis using assms by (simp add: u64_of_le_def u64_to_le_def unat_of_nat_less)
qed

section \<open>Byte arrays of fixed length\<close>

text \<open>\<open>'n arr\<close> is the type \<open>[u8; N]\<close>: keys, tags, digests and nonces cannot have another length.\<close>

typedef (overloaded) 'n arr = "{bs :: bytes. length bs = LENGTH('n::len)}"
  morphisms arr_bytes Abs_arr
  by (rule exI [of _ "replicate LENGTH('n) 0"]) simp

definition arr_zero :: "'n::len arr" where
  "arr_zero = Abs_arr (replicate LENGTH('n) 0)"

definition arr_of :: "bytes \<Rightarrow> 'n::len arr option" where
  "arr_of bs = (if length bs = LENGTH('n) then Some (Abs_arr bs) else None)"

lemma length_arr_bytes [simp, len_simps]: "length (arr_bytes (a :: 'n::len arr)) = LENGTH('n)"
  using arr_bytes [of a] by simp

lemma arr_bytes_zero [simp]: "arr_bytes (arr_zero :: 'n::len arr) = replicate LENGTH('n) 0"
  by (simp add: arr_zero_def Abs_arr_inverse)

lemma arr_of_bytes [simp]: "arr_of (arr_bytes a) = Some a"
  by (simp add: arr_of_def arr_bytes_inverse)

lemma arr_of_eq_Some: "arr_of bs = Some a \<longleftrightarrow> bs = arr_bytes a"
  by (auto simp: arr_of_def Abs_arr_inverse arr_bytes_inverse)

lemma arr_of_eq_None: "(arr_of bs :: 'n::len arr option) = None \<longleftrightarrow> length bs \<noteq> LENGTH('n)"
  by (simp add: arr_of_def)

lemma arr_bytes_eq_iff [simp]: "arr_bytes a = arr_bytes b \<longleftrightarrow> a = b"
  by (rule arr_bytes_inject)

instantiation arr :: (len) equal
begin

definition equal_arr :: "'a arr \<Rightarrow> 'a arr \<Rightarrow> bool" where
  "equal_arr a b \<longleftrightarrow> arr_bytes a = arr_bytes b"

instance
  by standard (simp add: equal_arr_def)

end

text \<open>Byte arrays are ordered lexicographically, as Rust orders them.\<close>

instantiation arr :: (len) linorder
begin

definition less_eq_arr :: "'a arr \<Rightarrow> 'a arr \<Rightarrow> bool" where
  "less_eq_arr a b \<longleftrightarrow> lexordp_eq (arr_bytes a) (arr_bytes b)"

definition less_arr :: "'a arr \<Rightarrow> 'a arr \<Rightarrow> bool" where
  "less_arr a b \<longleftrightarrow> ord_class.lexordp (arr_bytes a) (arr_bytes b)"

instance
proof
  fix a b c :: "'a arr"
  show "a < b \<longleftrightarrow> a \<le> b \<and> \<not> b \<le> a"
    by (auto simp: less_eq_arr_def less_arr_def lexordp_conv_lexordp_eq)
  show "a \<le> a" by (simp add: less_eq_arr_def lexordp_eq_refl)
  show "a \<le> b \<Longrightarrow> b \<le> c \<Longrightarrow> a \<le> c"
    by (auto simp: less_eq_arr_def intro: lexordp_eq_trans)
  show "a \<le> b \<Longrightarrow> b \<le> a \<Longrightarrow> a = b"
    by (auto simp: less_eq_arr_def dest: lexordp_eq_antisym)
  show "a \<le> b \<or> b \<le> a" unfolding less_eq_arr_def by (rule lexordp_eq_linear)
qed

end

section \<open>Association-list maps\<close>

text \<open>
  A \<open>HashMap\<close> or \<open>BTreeMap\<close> is an association list whose keys are distinct; \<open>map_of\<close> reads
  it, \<open>AList.update\<close> inserts, \<open>AList.delete\<close> removes and \<open>filter\<close> is \<open>retain\<close>.
\<close>

type_synonym ('k, 'v) kv = "('k \<times> 'v) list"

abbreviation keys_distinct :: "('k, 'v) kv \<Rightarrow> bool" where
  "keys_distinct m \<equiv> distinct (map fst m)"

abbreviation kv_sum :: "('v \<Rightarrow> nat) \<Rightarrow> ('k, 'v) kv \<Rightarrow> nat" where
  "kv_sum f m \<equiv> sum_list (map (\<lambda>p. f (snd p)) m)"

declare update_conv' [kv_simps] delete_conv' [kv_simps]
declare map_of_eq_Some_iff [simp del]
declare distinct_update [simp] distinct_delete [simp]

lemma map_of_update_same [simp]: "map_of (AList.update k v m) k = Some v"
  by (simp add: update_conv)

lemma map_of_update_other [simp]: "k' \<noteq> k \<Longrightarrow> map_of (AList.update k v m) k' = map_of m k'"
  by (simp add: update_conv)

lemma map_of_delete_same [simp]: "map_of (AList.delete k m) k = None"
  by (simp add: delete_conv)

lemma map_of_delete_other [simp]: "k' \<noteq> k \<Longrightarrow> map_of (AList.delete k m) k' = map_of m k'"
  by (simp add: delete_conv)

lemma keys_distinct_filter [intro, simp]: "keys_distinct m \<Longrightarrow> keys_distinct (filter P m)"
  by (simp add: distinct_map_filter)

lemma map_of_filter_distinct:
  assumes "keys_distinct m"
  shows "map_of (filter P m) k =
    (case map_of m k of None \<Rightarrow> None | Some v \<Rightarrow> if P (k, v) then Some v else None)"
  using assms by (induction m) (auto split: option.splits simp: map_of_eq_None_iff image_iff)

lemma length_update_le:
  "length (AList.update k v m) = (if map_of m k = None then Suc (length m) else length m)"
  by (induction m) auto

lemma length_delete_le: "length (AList.delete k m) \<le> length m"
  by (simp add: AList.delete_eq)

text \<open>Iteration visits the entries a lookup can see; with distinct keys these are all of them.\<close>

definition kv_iter :: "('k, 'v) kv \<Rightarrow> ('k, 'v) kv" where
  "kv_iter m = filter (\<lambda>(k, v). map_of m k = Some v) m"

lemma kv_iter_distinct [simp]: "keys_distinct m \<Longrightarrow> kv_iter m = m"
  by (auto simp: kv_iter_def filter_id_conv)

lemma kv_iter_map_of: "(k, v) \<in> set (kv_iter m) \<longleftrightarrow> map_of m k = Some v"
  by (auto simp: kv_iter_def dest: map_of_SomeD)

lemma delete_absent: "k \<notin> fst ` set m \<Longrightarrow> AList.delete k m = m"
  by (induction m) auto

lemma kv_sum_delete:
  assumes "keys_distinct m" "map_of m k = Some v"
  shows "kv_sum f m = kv_sum f (AList.delete k m) + f v"
  using assms
proof (induction m)
  case (Cons p m)
  then show ?case by (cases "fst p = k") (auto simp: delete_absent)
qed simp

lemma kv_sum_update:
  assumes "keys_distinct m" "map_of m k = Some v"
  shows "kv_sum f (AList.update k v' m) + f v = kv_sum f m + f v'"
  using assms
proof (induction m)
  case (Cons p m)
  then show ?case by (cases p; cases "fst p = k") auto
qed simp

lemma kv_sum_update_new: "map_of m k = None \<Longrightarrow> kv_sum f (AList.update k v m) = kv_sum f m + f v"
  by (induction m) auto

lemma kv_sum_ge: "map_of m k = Some v \<Longrightarrow> f v \<le> kv_sum f m"
  by (induction m) (auto split: if_splits)

lemma kv_sum_delete_le: "kv_sum f (AList.delete k m) \<le> kv_sum f m"
  by (induction m) auto

lemma kv_sum_delete_present: "map_of m k = Some v \<Longrightarrow> kv_sum f (AList.delete k m) + f v \<le> kv_sum f m"
proof (induction m)
  case (Cons p m)
  then show ?case using kv_sum_delete_le [of f k m] by (cases p; cases "fst p = k") auto
qed simp

lemma kv_sum_update_less:
  "map_of m k = Some v \<Longrightarrow> f v' < f v \<Longrightarrow> kv_sum f (AList.update k v' m) < kv_sum f m"
  by (induction m) (auto split: if_splits)

lemma length_delete_less: "map_of m k = Some v \<Longrightarrow> length (AList.delete k m) < length m"
  using kv_sum_delete_present [of m k v "\<lambda>_. 1"] by (simp add: sum_list_triv)

lemma map_of_delete_Some: "map_of (AList.delete k m) k' = Some v \<Longrightarrow> k' \<noteq> k \<and> map_of m k' = Some v"
  by (auto simp: delete_conv' restrict_map_def split: if_splits)

lemma length_delete_Some:
  assumes "keys_distinct m" "map_of m k = Some v"
  shows "Suc (length (AList.delete k m)) = length m"
  using assms
proof (induction m)
  case (Cons p m)
  then show ?case by (cases "fst p = k") (auto simp: delete_absent)
qed simp

lemma sum_list_concat: "sum_list (concat xss) = sum_list (map sum_list (xss :: nat list list))"
  by (induction xss) auto

section \<open>Ordered maps\<close>

text \<open>A \<open>BTreeMap\<close> is an association list sorted by key; \<open>bt_insert\<close> replaces or inserts in order.\<close>

fun bt_insert :: "'k::linorder \<Rightarrow> 'v \<Rightarrow> ('k, 'v) kv \<Rightarrow> ('k, 'v) kv" where
  "bt_insert k v [] = [(k, v)]"
| "bt_insert k v ((k', v') # m) =
    (if k < k' then (k, v) # (k', v') # m
     else if k = k' then (k, v) # m else (k', v') # bt_insert k v m)"

abbreviation keys_sorted :: "('k::linorder, 'v) kv \<Rightarrow> bool" where
  "keys_sorted m \<equiv> sorted_wrt (<) (map fst m)"

lemma set_bt_insert: "fst ` set (bt_insert k v m) = insert k (fst ` set m)"
  by (induction k v m rule: bt_insert.induct) auto

lemma keys_sorted_bt_insert [simp]: "keys_sorted m \<Longrightarrow> keys_sorted (bt_insert k v m)"
proof (induction k v m rule: bt_insert.induct)
  case (2 k v k' v' m)
  then show ?case using set_bt_insert [of k v m] by (fastforce simp: image_iff)
qed simp

lemma map_of_bt_insert [simp]: "keys_sorted m \<Longrightarrow> map_of (bt_insert k v m) = (map_of m)(k \<mapsto> v)"
  by (induction k v m rule: bt_insert.induct) (auto simp: fun_eq_iff)

lemma keys_sorted_distinct: "keys_sorted m \<Longrightarrow> keys_distinct m"
  by (induction m) auto

lemma keys_sorted_delete [simp]: "keys_sorted m \<Longrightarrow> keys_sorted (AList.delete k m)"
  by (induction m) (auto simp: AList.delete_eq)

text \<open>Two ordered maps with the same contents are the same list.\<close>

lemma keys_sorted_unique:
  assumes "keys_sorted m" "keys_sorted m'" "map_of m = map_of m'"
  shows "m = m'"
proof -
  have d: "keys_distinct m" "keys_distinct m'" using assms keys_sorted_distinct by auto
  have same: "set m = set m'" using assms(3) d map_of_inject_set by blast
  have "inj_on fst (set m \<union> set m')" using d same by (simp add: distinct_map)
  moreover have "map fst m = map fst m'"
    using assms(1,2) same by (intro sorted_distinct_set_unique) (auto simp: strict_sorted_iff)
  ultimately show ?thesis by (rule map_inj_on [rotated])
qed

section \<open>Least elements\<close>

text \<open>\<open>Iterator::min\<close> on a total order.\<close>

fun least :: "'a::linorder list \<Rightarrow> 'a option" where
  "least [] = None"
| "least (x # xs) = Some (fold min xs x)"

lemma least_None [simp]: "least xs = None \<longleftrightarrow> xs = []"
  by (cases xs) auto

lemma least_Some: "least xs = Some x \<Longrightarrow> x \<in> set xs \<and> (\<forall>y\<in>set xs. x \<le> y)"
proof (cases xs)
  case (Cons a as)
  assume "least xs = Some x"
  then have "x = Min (set xs)" using Cons Min.set_eq_fold [of a as] by simp
  then show ?thesis using Cons by (metis List.finite_set Min_in Min_le list.distinct(1) set_empty)
qed simp

section \<open>Saturating and checked arithmetic on usize\<close>

text \<open>\<open>usize\<close> is a natural number below \<open>2 ^ 64\<close>; the operations whose result could leave that
  range are written out.\<close>

definition usize_max :: nat where
  "usize_max = 2 ^ 64 - 1"

definition sat_add :: "nat \<Rightarrow> nat \<Rightarrow> nat" where
  "sat_add a b = min (a + b) usize_max"

definition checked_add :: "nat \<Rightarrow> nat \<Rightarrow> nat option" where
  "checked_add a b = (if a + b \<le> usize_max then Some (a + b) else None)"

definition checked_sub :: "nat \<Rightarrow> nat \<Rightarrow> nat option" where
  "checked_sub a b = (if b \<le> a then Some (a - b) else None)"

end
