(* ===== verification/Wheel.thy ===== *)
theory Wheel
  imports Prelude
begin

text \<open>
  When a tombstone may be looked at for collection (\<open>src/timeout_wheel.rs\<close> and the bounded expiry
  instant of \<open>src/clock.rs\<close>): an ordered wheel of expiry instants with a reverse index. The lemmas
  show that the two stay inverse to each other and that the expired keys are exactly those whose
  instant is old enough.
\<close>

section \<open>Wall-clock instants\<close>

text \<open>A \<open>DateTime\<close> counts nanoseconds since the epoch.\<close>

type_synonym datetime = int

definition datetime_of_millis :: "nat \<Rightarrow> datetime" where
  "datetime_of_millis ms = int ms * 1000000"

datatype StampBound = Verbatim | Capped | Unrepresentable

record BoundedInstant =
  bi_instant :: datetime
  bi_bound :: StampBound

text \<open>The clamp of a stored stamp is a function of the timestamp package: it returns the admitted physical
  milliseconds and whether they were clamped. The last instant \<open>chrono\<close> can represent is a parameter.\<close>

record WallEnv =
  clamped_to_drift :: "nat \<Rightarrow> nat \<Rightarrow> nat \<Rightarrow> nat \<times> bool"
  max_datetime_millis :: nat

definition from_stored_stamp :: "WallEnv \<Rightarrow> nat \<Rightarrow> nat \<Rightarrow> datetime \<Rightarrow> nat \<Rightarrow> BoundedInstant" where
  "from_stored_stamp env phys_now stamp_physical utc_now budget =
    (let (admitted, was_clamped) = clamped_to_drift env stamp_physical phys_now budget
     in if admitted < 2 ^ 63 \<and> admitted \<le> max_datetime_millis env
        then \<lparr>bi_instant = datetime_of_millis admitted, bi_bound = (if was_clamped then Capped else Verbatim)\<rparr>
        else \<lparr>bi_instant = utc_now, bi_bound = Unrepresentable\<rparr>)"

text \<open>The documented behaviour of the clamp.\<close>

definition clamp_ok :: "WallEnv \<Rightarrow> bool" where
  "clamp_ok env \<longleftrightarrow>
    (\<forall>s now b. clamped_to_drift env s now b = (if s \<le> now + b then (s, False) else (now + b, True)))"

lemma from_stored_stamp_bounded:
  assumes "clamp_ok env" "utc_now \<le> datetime_of_millis (phys_now + budget)"
  shows "bi_instant (from_stored_stamp env phys_now s utc_now budget) \<le> datetime_of_millis (phys_now + budget)"
  using assms by (auto simp: from_stored_stamp_def clamp_ok_def datetime_of_millis_def)

section \<open>The wheel\<close>

record 'a TimeoutWheel =
  tw_wheel :: "(datetime, 'a list) kv"
  tw_map :: "('a, datetime) kv"
  tw_timeout :: duration

definition DEFAULT_TIMEOUT :: duration where "DEFAULT_TIMEOUT = 60000000000"

definition wheel_new :: "'a TimeoutWheel" where
  "wheel_new = \<lparr>tw_wheel = [], tw_map = [], tw_timeout = DEFAULT_TIMEOUT\<rparr>"

definition set_timeout :: "duration \<Rightarrow> 'a TimeoutWheel \<Rightarrow> 'a TimeoutWheel" where
  "set_timeout t w = w\<lparr>tw_timeout := t\<rparr>"

text \<open>Leaving a bucket removes it when it becomes empty.\<close>

definition leave_bucket :: "'a \<Rightarrow> datetime \<Rightarrow> (datetime, 'a list) kv \<Rightarrow> (datetime, 'a list) kv" where
  "leave_bucket e i w =
    (case map_of w i of
       None \<Rightarrow> w
     | Some bucket \<Rightarrow>
        (let b = removeAll e bucket in if b = [] then AList.delete i w else bt_insert i b w))"

definition join_bucket :: "'a \<Rightarrow> datetime \<Rightarrow> (datetime, 'a list) kv \<Rightarrow> (datetime, 'a list) kv" where
  "join_bucket e i w = bt_insert i (List.insert e (case map_of w i of None \<Rightarrow> [] | Some b \<Rightarrow> b)) w"

definition wheel_insert :: "'a \<Rightarrow> datetime \<Rightarrow> 'a TimeoutWheel \<Rightarrow> 'a TimeoutWheel" where
  "wheel_insert e i w =
    (let w1 = (case map_of (tw_map w) e of None \<Rightarrow> tw_wheel w | Some old \<Rightarrow> leave_bucket e old (tw_wheel w))
     in w\<lparr>tw_wheel := join_bucket e i w1, tw_map := AList.update e i (tw_map w)\<rparr>)"

definition expired :: "datetime \<Rightarrow> 'a TimeoutWheel \<Rightarrow> 'a list" where
  "expired now w = concat (map snd (takeWhile (\<lambda>(i, _). i + int (tw_timeout w) < now) (tw_wheel w)))"

definition wheel_remove :: "'a \<Rightarrow> 'a TimeoutWheel \<Rightarrow> 'a option \<times> 'a TimeoutWheel" where
  "wheel_remove e w =
    (case map_of (tw_map w) e of
       None \<Rightarrow> (None, w)
     | Some i \<Rightarrow> (Some e, w\<lparr>tw_wheel := leave_bucket e i (tw_wheel w), tw_map := AList.delete e (tw_map w)\<rparr>))"

section \<open>The index stays exact\<close>

definition in_bucket :: "(datetime, 'a list) kv \<Rightarrow> datetime \<Rightarrow> 'a \<Rightarrow> bool" where
  "in_bucket w i e \<longleftrightarrow> (case map_of w i of None \<Rightarrow> False | Some b \<Rightarrow> e \<in> set b)"

definition buckets_ok :: "(datetime, 'a list) kv \<Rightarrow> bool" where
  "buckets_ok w \<longleftrightarrow> keys_sorted w \<and> (\<forall>i b. map_of w i = Some b \<longrightarrow> b \<noteq> [] \<and> distinct b)"

definition wheel_ok :: "'a TimeoutWheel \<Rightarrow> bool" where
  "wheel_ok w \<longleftrightarrow> buckets_ok (tw_wheel w) \<and> (\<forall>i e. in_bucket (tw_wheel w) i e \<longleftrightarrow> map_of (tw_map w) e = Some i)"

lemma in_bucket_iff: "in_bucket w i e \<longleftrightarrow> (\<exists>b. map_of w i = Some b \<and> e \<in> set b)"
  by (simp add: in_bucket_def split: option.split)

lemma removeAll_empty: "removeAll e b = [] \<longleftrightarrow> set b \<subseteq> {e}"
  by (induction b) auto

lemma leave_bucket_ok:
  assumes "buckets_ok w"
  shows "buckets_ok (leave_bucket e i w)" "in_bucket (leave_bucket e i w) j x \<longleftrightarrow> in_bucket w j x \<and> \<not> (j = i \<and> x = e)"
proof -
  have sorted: "keys_sorted w" using assms by (simp add: buckets_ok_def)
  show "buckets_ok (leave_bucket e i w)" using assms
    by (auto simp: leave_bucket_def buckets_ok_def Let_def delete_conv distinct_removeAll split: option.split if_splits)
  show "in_bucket (leave_bucket e i w) j x \<longleftrightarrow> in_bucket w j x \<and> \<not> (j = i \<and> x = e)" using sorted
    by (cases "map_of w i"; cases "removeAll e (the (map_of w i)) = []"; cases "j = i")
      (auto simp: leave_bucket_def in_bucket_def Let_def delete_conv removeAll_empty)
qed

lemma join_bucket_ok:
  assumes "buckets_ok w"
  shows "buckets_ok (join_bucket e i w)" "in_bucket (join_bucket e i w) j x \<longleftrightarrow> in_bucket w j x \<or> (j = i \<and> x = e)"
  using assms by (auto simp: join_bucket_def buckets_ok_def in_bucket_def List.insert_def split: option.splits)

lemma wheel_new_ok: "wheel_ok wheel_new"
  by (simp add: wheel_ok_def wheel_new_def in_bucket_def buckets_ok_def)

lemma wheel_insert_ok:
  assumes "wheel_ok w"
  shows "wheel_ok (wheel_insert e i w)" "map_of (tw_map (wheel_insert e i w)) = (map_of (tw_map w))(e \<mapsto> i)"
proof -
  have b: "buckets_ok (tw_wheel w)" "\<And>i e. in_bucket (tw_wheel w) i e \<longleftrightarrow> map_of (tw_map w) e = Some i"
    using assms by (auto simp: wheel_ok_def)
  show "wheel_ok (wheel_insert e i w)"
    using b by (cases "map_of (tw_map w) e") (auto simp: wheel_ok_def wheel_insert_def update_conv join_bucket_ok leave_bucket_ok)
  show "map_of (tw_map (wheel_insert e i w)) = (map_of (tw_map w))(e \<mapsto> i)"
    by (simp add: wheel_insert_def update_conv fun_eq_iff)
qed

lemma wheel_remove_ok:
  assumes "wheel_ok w"
  shows "wheel_ok (snd (wheel_remove e w))" "map_of (tw_map (snd (wheel_remove e w))) = (map_of (tw_map w))(e := None)"
    "fst (wheel_remove e w) = (if map_of (tw_map w) e = None then None else Some e)"
proof -
  have b: "buckets_ok (tw_wheel w)" "\<And>i e. in_bucket (tw_wheel w) i e \<longleftrightarrow> map_of (tw_map w) e = Some i"
    using assms by (auto simp: wheel_ok_def)
  show "wheel_ok (snd (wheel_remove e w))"
    using b assms by (cases "map_of (tw_map w) e") (auto simp: wheel_ok_def wheel_remove_def delete_conv leave_bucket_ok)
  show "map_of (tw_map (snd (wheel_remove e w))) = (map_of (tw_map w))(e := None)"
    by (auto simp: wheel_remove_def delete_conv fun_eq_iff split: option.split)
  show "fst (wheel_remove e w) = (if map_of (tw_map w) e = None then None else Some e)"
    by (simp add: wheel_remove_def split: option.split)
qed

lemma takeWhile_sorted_filter:
  "keys_sorted m \<Longrightarrow> (\<And>i j. i < j \<Longrightarrow> P j \<Longrightarrow> P i) \<Longrightarrow> takeWhile (\<lambda>(i, _). P i) m = filter (\<lambda>(i, _). P i) m"
proof (induction m)
  case (Cons x m)
  moreover have "\<not> P (fst x) \<Longrightarrow> filter (\<lambda>(i, _). P i) m = []" using Cons.prems by (force simp: filter_empty_conv)
  ultimately show ?case by (cases x) auto
qed simp

lemma expired_exact:
  assumes "wheel_ok w"
  shows "distinct (expired now w)"
    "e \<in> set (expired now w) \<longleftrightarrow> (\<exists>i. map_of (tw_map w) e = Some i \<and> i + int (tw_timeout w) < now)"
proof -
  let ?P = "\<lambda>i. i + int (tw_timeout w) < now"
  have sorted: "keys_sorted (tw_wheel w)" using assms by (simp add: wheel_ok_def buckets_ok_def)
  have f: "expired now w = concat (map snd (filter (\<lambda>(i, _). ?P i) (tw_wheel w)))"
    unfolding expired_def using takeWhile_sorted_filter [OF sorted, of ?P] by simp
  have b: "in_bucket (tw_wheel w) i e \<longleftrightarrow> map_of (tw_map w) e = Some i" for i e using assms by (simp add: wheel_ok_def)
  have m: "(i, x) \<in> set (tw_wheel w) \<longleftrightarrow> map_of (tw_wheel w) i = Some x" for i x
    using keys_sorted_distinct [OF sorted] by (simp add: map_of_eq_Some_iff)
  show "e \<in> set (expired now w) \<longleftrightarrow> (\<exists>i. map_of (tw_map w) e = Some i \<and> ?P i)"
  proof -
    have "e \<in> set (expired now w) \<longleftrightarrow> (\<exists>i x. map_of (tw_wheel w) i = Some x \<and> e \<in> set x \<and> ?P i)"
      unfolding f by (simp add: m [symmetric]) force
    then show ?thesis by (auto simp: b [symmetric] in_bucket_iff)
  qed
  have all: "\<forall>(i, x)\<in>set (tw_wheel w). distinct x \<and> (\<forall>e\<in>set x. map_of (tw_map w) e = Some i)"
    using assms by (auto simp: wheel_ok_def buckets_ok_def m b [symmetric] in_bucket_iff)
  have "distinct (concat (map snd (filter (\<lambda>(i, _). ?P i) ws)))"
    if "keys_distinct ws" "\<forall>(i, x)\<in>set ws. distinct x \<and> (\<forall>e\<in>set x. map_of (tw_map w) e = Some i)" for ws
    using that
  proof (induction ws)
    case (Cons p ws)
    then show ?case by (cases p) (auto simp: image_iff split: if_splits, fastforce)
  qed simp
  then show "distinct (expired now w)" unfolding f using keys_sorted_distinct [OF sorted] all by blast
qed

end
