(* ===== verification/Journal.thy ===== *)
theory Journal
  imports Prelude
begin

text \<open>
  The durable mutation journal (\<open>src/replica/generation.rs\<close>), the state a backend saves
  (\<open>src/persistence.rs\<close>) and the replay of a delta on it (\<open>src/snapshot/incremental.rs\<close>). The journal
  coalesces mutations per key into an open generation; at most one frozen generation waits to be
  saved. The lemmas give each generation a meaning, an overwrite of the durable view, and show that
  recording a mutation composes it with that meaning.
\<close>

section \<open>Saved state\<close>

type_synonym ('k, 'p) acks = "('k, ('p, 64 word) kv) kv"

record ('k, 'e, 'p) PersistedState =
  ps_entries :: "('k \<times> 'e) list"
  ps_members :: "'p list"
  ps_tombstone_acks :: "('k, 'p) acks"

definition persisted_default :: "('k, 'e, 'p) PersistedState" where
  "persisted_default = \<lparr>ps_entries = [], ps_members = [], ps_tombstone_acks = []\<rparr>"

definition persisted_new :: "('k \<times> 'e) list \<Rightarrow> 'p list \<Rightarrow> ('k, 'p) acks \<Rightarrow> ('k, 'e, 'p) PersistedState" where
  "persisted_new es ms as = \<lparr>ps_entries = es, ps_members = ms, ps_tombstone_acks = as\<rparr>"

definition persisted_from :: "('k \<times> 'e) list \<Rightarrow> ('k, 'e, 'p) PersistedState" where
  "persisted_from es = persisted_default\<lparr>ps_entries := es\<rparr>"

record ('k, 'e, 'p) PersistenceDelta =
  pd_entries :: "('k, 'e option) kv"
  pd_members :: "('p, bool) kv"
  pd_ack_key_clears :: "'k list"
  pd_ack_peers :: "('k, ('p, 64 word option) kv) kv"

definition delta_new ::
  "('k, 'e option) kv \<Rightarrow> ('p, bool) kv \<Rightarrow> 'k list \<Rightarrow> ('k, ('p, 64 word option) kv) kv \<Rightarrow> ('k, 'e, 'p) PersistenceDelta" where
  "delta_new es ms cs as = \<lparr>pd_entries = es, pd_members = ms, pd_ack_key_clears = cs, pd_ack_peers = as\<rparr>"

section \<open>Generations\<close>

datatype 'e EntryDelta = Upsert 'e | PhysicalDelete

record ('k, 'e, 'p) SnapshotGeneration =
  sg_id :: nat
  sg_entries :: "('k, 'e EntryDelta) kv"
  sg_members :: "('p, bool) kv"
  sg_ack_key_clears :: "'k list"
  sg_ack_peers :: "('k, ('p, 64 word option) kv) kv"
  raw_changes :: nat

definition generation_default :: "('k, 'e, 'p) SnapshotGeneration" where
  "generation_default = \<lparr>sg_id = 0, sg_entries = [], sg_members = [], sg_ack_key_clears = [], sg_ack_peers = [], raw_changes = 0\<rparr>"

definition generation_is_empty :: "('k, 'e, 'p) SnapshotGeneration \<Rightarrow> bool" where
  "generation_is_empty g \<longleftrightarrow> raw_changes g = 0"

definition persistence_delta :: "('k, 'e, 'p) SnapshotGeneration \<Rightarrow> ('k, 'e, 'p) PersistenceDelta" where
  "persistence_delta g =
    delta_new (map (\<lambda>(k, d). (k, case d of Upsert e \<Rightarrow> Some e | PhysicalDelete \<Rightarrow> None)) (kv_iter (sg_entries g)))
      (sg_members g) (sg_ack_key_clears g) (sg_ack_peers g)"

record ('k, 'e, 'p) GenerationState =
  next_id :: nat
  open_gen :: "('k, 'e, 'p) SnapshotGeneration"
  frozen :: "('k, 'e, 'p) SnapshotGeneration option"
  tracking_enabled :: bool

definition generations_default :: "('k, 'e, 'p) GenerationState" where
  "generations_default = \<lparr>next_id = 1, open_gen = generation_default, frozen = None, tracking_enabled = True\<rparr>"

definition freeze :: "('k, 'e, 'p) GenerationState \<Rightarrow> ('k, 'e, 'p) SnapshotGeneration option \<times> ('k, 'e, 'p) GenerationState" where
  "freeze s =
    (case frozen s of
       Some g \<Rightarrow> (Some g, s)
     | None \<Rightarrow>
        if generation_is_empty (open_gen s) then (None, s)
        else let g = (open_gen s)\<lparr>sg_id := next_id s\<rparr>
             in (Some g, s\<lparr>open_gen := generation_default, next_id := sat_add (next_id s) 1, frozen := Some g\<rparr>))"

definition commit :: "nat \<Rightarrow> ('k, 'e, 'p) GenerationState \<Rightarrow> bool \<times> ('k, 'e, 'p) GenerationState" where
  "commit generation_id s =
    (if map_option sg_id (frozen s) \<noteq> Some generation_id then (False, s) else (True, s\<lparr>frozen := None\<rparr>))"

definition set_tracking_enabled :: "bool \<Rightarrow> ('k, 'e, 'p) GenerationState \<Rightarrow> ('k, 'e, 'p) GenerationState" where
  "set_tracking_enabled enabled s = s\<lparr>tracking_enabled := enabled\<rparr>"

definition reset_clean :: "('k, 'e, 'p) GenerationState \<Rightarrow> ('k, 'e, 'p) GenerationState" where
  "reset_clean s = s\<lparr>open_gen := generation_default, frozen := None, tracking_enabled := True\<rparr>"

section \<open>Recording\<close>

definition bump :: "('k, 'e, 'p) SnapshotGeneration \<Rightarrow> ('k, 'e, 'p) SnapshotGeneration" where
  "bump g = g\<lparr>raw_changes := sat_add (raw_changes g) 1\<rparr>"

definition record_entry :: "'k \<Rightarrow> 'e \<Rightarrow> ('k, 'e, 'p) GenerationState \<Rightarrow> ('k, 'e, 'p) GenerationState" where
  "record_entry k e s =
    (if \<not> tracking_enabled s then s
     else s\<lparr>open_gen := bump ((open_gen s)\<lparr>sg_entries := AList.update k (Upsert e) (sg_entries (open_gen s))\<rparr>)\<rparr>)"

definition record_physical_delete :: "'k \<Rightarrow> ('k, 'e, 'p) GenerationState \<Rightarrow> ('k, 'e, 'p) GenerationState" where
  "record_physical_delete k s =
    (if \<not> tracking_enabled s then s
     else s\<lparr>open_gen := bump ((open_gen s)\<lparr>sg_entries := AList.update k PhysicalDelete (sg_entries (open_gen s))\<rparr>)\<rparr>)"

definition record_member :: "'p \<Rightarrow> bool \<Rightarrow> ('k, 'e, 'p) GenerationState \<Rightarrow> ('k, 'e, 'p) GenerationState" where
  "record_member peer present s =
    (if \<not> tracking_enabled s then s
     else s\<lparr>open_gen := bump ((open_gen s)\<lparr>sg_members := AList.update peer present (sg_members (open_gen s))\<rparr>)\<rparr>)"

definition key_acks_of :: "('k, ('p, 'v) kv) kv \<Rightarrow> 'k \<Rightarrow> ('p, 'v) kv" where
  "key_acks_of m k = (case map_of m k of None \<Rightarrow> [] | Some v \<Rightarrow> v)"

definition record_ack :: "'k \<Rightarrow> 'p \<Rightarrow> 64 word option \<Rightarrow> ('k, 'e, 'p) GenerationState \<Rightarrow> ('k, 'e, 'p) GenerationState" where
  "record_ack k peer version s =
    (if \<not> tracking_enabled s then s
     else let a = sg_ack_peers (open_gen s)
          in s\<lparr>open_gen := bump ((open_gen s)\<lparr>sg_ack_peers := AList.update k (AList.update peer version (key_acks_of a k)) a\<rparr>)\<rparr>)"

definition record_ack_key_clear :: "'k \<Rightarrow> ('k, 'e, 'p) GenerationState \<Rightarrow> ('k, 'e, 'p) GenerationState" where
  "record_ack_key_clear k s =
    (if \<not> tracking_enabled s then s
     else s\<lparr>open_gen := bump ((open_gen s)\<lparr>sg_ack_key_clears := List.insert k (sg_ack_key_clears (open_gen s)),
            sg_ack_peers := AList.delete k (sg_ack_peers (open_gen s))\<rparr>)\<rparr>)"

section \<open>Replay\<close>

definition apply_entry :: "('k, 'e) kv \<Rightarrow> 'k \<times> 'e option \<Rightarrow> ('k, 'e) kv" where
  "apply_entry m op = (case snd op of Some e \<Rightarrow> AList.update (fst op) e m | None \<Rightarrow> AList.delete (fst op) m)"

definition apply_member :: "'p list \<Rightarrow> 'p \<times> bool \<Rightarrow> 'p list" where
  "apply_member m op = (if snd op then List.insert (fst op) m else removeAll (fst op) m)"

text \<open>The occupied and the vacant branch of the acknowledgement replay.\<close>

definition apply_acks :: "('k, 'p) acks \<Rightarrow> 'k \<times> ('p, 64 word option) kv \<Rightarrow> ('k, 'p) acks" where
  "apply_acks m op =
    (case map_of m (fst op) of
       Some occupied \<Rightarrow>
        let after = foldl apply_entry occupied (kv_iter (snd op))
        in if after = [] then AList.delete (fst op) m else AList.update (fst op) after m
     | None \<Rightarrow>
        let acks = List.map_filter (\<lambda>(peer, version). map_option (Pair peer) version) (kv_iter (snd op))
        in if acks \<noteq> [] then AList.update (fst op) acks m else m)"

definition apply_delta ::
  "('k, 'e) kv \<times> 'p list \<times> ('k, 'p) acks \<Rightarrow> ('k, 'e, 'p) PersistenceDelta \<Rightarrow> ('k, 'e) kv \<times> 'p list \<times> ('k, 'p) acks" where
  "apply_delta s delta =
    (let (entries, members, acks) = s
     in (foldl apply_entry entries (kv_iter (pd_entries delta)),
         foldl apply_member members (kv_iter (pd_members delta)),
         foldl apply_acks (foldl (\<lambda>m k. AList.delete k m) acks (pd_ack_key_clears delta)) (kv_iter (pd_ack_peers delta))))"

section \<open>The durable view\<close>

text \<open>What a restart can observe: the entry of a key, the members, and the version a member acknowledged.
  An acknowledgement map with no entry is the same as an absent one.\<close>

type_synonym ('k, 'e, 'p) view = "('k \<Rightarrow> 'e option) \<times> ('p \<Rightarrow> bool) \<times> ('k \<Rightarrow> 'p \<Rightarrow> 64 word option)"

definition ack_of :: "('k, ('p, 'v) kv) kv \<Rightarrow> 'k \<Rightarrow> 'p \<Rightarrow> 'v option" where
  "ack_of a k p = map_of (key_acks_of a k) p"

definition view_of :: "('k, 'e) kv \<times> 'p list \<times> ('k, 'p) acks \<Rightarrow> ('k, 'e, 'p) view" where
  "view_of s = (map_of (fst s), (\<lambda>p. p \<in> set (fst (snd s))), ack_of (snd (snd s)))"

definition eff :: "('k, 'e, 'p) SnapshotGeneration \<Rightarrow> ('k, 'e, 'p) view \<Rightarrow> ('k, 'e, 'p) view" where
  "eff g v =
    ((\<lambda>k. case map_of (sg_entries g) k of None \<Rightarrow> fst v k | Some (Upsert e) \<Rightarrow> Some e | Some PhysicalDelete \<Rightarrow> None),
     (\<lambda>p. case map_of (sg_members g) p of None \<Rightarrow> fst (snd v) p | Some b \<Rightarrow> b),
     (\<lambda>k p. case ack_of (sg_ack_peers g) k p of
              Some v \<Rightarrow> v
            | None \<Rightarrow> if k \<in> set (sg_ack_key_clears g) then None else snd (snd v) k p))"

definition generation_ok :: "('k, 'e, 'p) SnapshotGeneration \<Rightarrow> bool" where
  "generation_ok g \<longleftrightarrow> keys_distinct (sg_entries g) \<and> keys_distinct (sg_members g) \<and> keys_distinct (sg_ack_peers g) \<and>
    list_all (\<lambda>(_, ops). keys_distinct ops) (sg_ack_peers g)"

lemma generation_default_simps [simp]:
  "sg_entries generation_default = []" "sg_members generation_default = []" "sg_ack_key_clears generation_default = []"
  "sg_ack_peers generation_default = []" "raw_changes generation_default = 0" "generation_is_empty generation_default"
  by (simp_all add: generation_default_def generation_is_empty_def)

lemma eff_default [simp]: "eff generation_default v = v"
  by (simp add: eff_def generation_default_def ack_of_def key_acks_of_def prod_eq_iff fun_eq_iff)

text \<open>An overwrite absorbs itself, also around a second one.\<close>

lemma eff_idem [simp]: "eff g (eff g v) = eff g v"
  by (auto simp: eff_def fun_eq_iff split: option.split EntryDelta.split)

lemma eff_pair_idem [simp]: "eff o' (eff f (eff o' (eff f v))) = eff o' (eff f v)"
  by (auto simp: eff_def fun_eq_iff split: option.split EntryDelta.split)

lemma eff_bump [simp]: "eff (bump g) = eff g"
  by (simp add: eff_def bump_def fun_eq_iff)

lemma eff_id [simp]: "eff (g\<lparr>sg_id := i\<rparr>) = eff g"
  by (simp add: eff_def fun_eq_iff)

lemma generation_ok_default [simp]: "generation_ok generation_default"
  by (simp add: generation_ok_def generation_default_def)

lemma generation_ok_bump [simp]: "generation_ok (bump g) = generation_ok g" "generation_ok (g\<lparr>sg_id := i\<rparr>) = generation_ok g"
  by (simp_all add: generation_ok_def bump_def)

lemma map_of_apply_entries:
  "keys_distinct ops \<Longrightarrow> map_of (foldl apply_entry m ops) k = (case map_of ops k of None \<Rightarrow> map_of m k | Some x \<Rightarrow> x)"
proof (induction ops arbitrary: m)
  case (Cons op ops)
  have "map_of ops (fst op) = None" using Cons.prems by (simp add: map_of_eq_None_iff)
  then show ?case using Cons by (cases op) (auto simp: apply_entry_def update_conv delete_conv split: option.splits)
qed simp

lemma apply_members_set:
  "keys_distinct ops \<Longrightarrow> p \<in> set (foldl apply_member m ops) \<longleftrightarrow> (case map_of ops p of None \<Rightarrow> p \<in> set m | Some b \<Rightarrow> b)"
proof (induction ops arbitrary: m)
  case (Cons op ops)
  have "map_of ops (fst op) = None" using Cons.prems by (simp add: map_of_eq_None_iff)
  then show ?case using Cons by (cases op) (auto simp: apply_member_def split: option.splits)
qed simp

lemma map_of_version_filter:
  "keys_distinct ops \<Longrightarrow> map_of (List.map_filter (\<lambda>(p, v). map_option (Pair p) v) ops) p = (case map_of ops p of None \<Rightarrow> None | Some x \<Rightarrow> x)"
proof (induction ops)
  case (Cons op ops)
  have "map_of ops (fst op) = None" using Cons.prems by (simp add: map_of_eq_None_iff)
  then show ?case using Cons by (cases op; cases "snd op") (auto simp: List.map_filter_def split: option.splits)
qed (simp add: List.map_filter_def)

lemma ack_of_update: "ack_of (AList.update k v m) k' = (if k' = k then map_of v else ack_of m k')"
  by (simp add: ack_of_def key_acks_of_def fun_eq_iff update_conv)

lemma ack_of_delete: "ack_of (AList.delete k m) k' = (if k' = k then Map.empty else ack_of m k')"
  by (simp add: ack_of_def key_acks_of_def fun_eq_iff delete_conv)

lemma ack_of_apply_acks:
  assumes "keys_distinct ops"
  shows "ack_of (apply_acks m (k, ops)) k' p = (if k' = k then (case map_of ops p of None \<Rightarrow> ack_of m k p | Some x \<Rightarrow> x) else ack_of m k' p)"
proof (cases "map_of m k")
  case None
  let ?acks = "List.map_filter (\<lambda>(p, v). map_option (Pair p) v) ops"
  have "?acks = [] \<Longrightarrow> map_of ?acks p = None" by simp
  with None show ?thesis using assms map_of_version_filter [OF assms, of p]
    by (auto simp: apply_acks_def ack_of_update ack_of_def key_acks_of_def Let_def split: option.splits)
next
  case (Some occ)
  let ?after = "foldl apply_entry occ ops"
  have "?after = [] \<Longrightarrow> map_of ?after p = None" "ack_of m k p = map_of occ p" using Some by (simp_all add: ack_of_def key_acks_of_def)
  with Some show ?thesis using assms map_of_apply_entries [OF assms, of occ p]
    by (auto simp: apply_acks_def ack_of_update ack_of_delete Let_def split: option.splits)
qed

lemma ack_of_apply_all:
  "keys_distinct ops \<Longrightarrow> list_all (\<lambda>(_, o'). keys_distinct o') ops \<Longrightarrow>
    ack_of (foldl apply_acks m ops) k p = (case ack_of ops k p of None \<Rightarrow> ack_of m k p | Some x \<Rightarrow> x)"
proof (induction ops arbitrary: m)
  case (Cons op ops)
  obtain k1 o1 where op: "op = (k1, o1)" by (cases op)
  have "map_of ops k1 = None" "keys_distinct o1" using Cons.prems by (simp_all add: op map_of_eq_None_iff)
  then have tail: "k = k1 \<Longrightarrow> ack_of ops k p = None" "ack_of (op # ops) k p = (if k = k1 then map_of o1 p else ack_of ops k p)"
    by (simp_all add: ack_of_def key_acks_of_def op)
  show ?case using Cons.IH [of "apply_acks m op"] Cons.prems tail ack_of_apply_acks [OF \<open>keys_distinct o1\<close>, of m k1 k p]
    by (auto simp: op split: option.splits)
qed (simp add: ack_of_def key_acks_of_def)

lemma ack_of_clears: "ack_of (foldl (\<lambda>m k. AList.delete k m) a cs) k p = (if k \<in> set cs then None else ack_of a k p)"
  by (induction cs arbitrary: a) (auto simp: ack_of_delete)

lemma map_of_delta_entries:
  "map_of (map (\<lambda>(k, d). (k, f d)) m) k = map_option f (map_of m k)"
  by (induction m) auto

text \<open>Replaying the delta of a generation is its effect on the view.\<close>

lemma view_apply_delta:
  assumes "generation_ok g"
  shows "view_of (apply_delta s (persistence_delta g)) = eff g (view_of s)"
proof -
  obtain es ms as where s: "s = (es, ms, as)" by (cases s)
  let ?f = "\<lambda>d. case d of Upsert e \<Rightarrow> Some e | PhysicalDelete \<Rightarrow> None"
  have dist: "keys_distinct (map (\<lambda>(k, d). (k, ?f d)) (sg_entries g))"
    using assms by (simp add: generation_ok_def comp_def split_beta)
  have "map_of (foldl apply_entry es (map (\<lambda>(k, d). (k, ?f d)) (sg_entries g))) =
      fst (eff g (view_of s))"
    by (auto simp: fun_eq_iff map_of_apply_entries [OF dist] map_of_delta_entries eff_def view_of_def s split: option.split EntryDelta.split)
  then show ?thesis using assms dist
    by (auto simp: s apply_delta_def persistence_delta_def delta_new_def generation_ok_def view_of_def eff_def fun_eq_iff
        apply_members_set ack_of_apply_all ack_of_clears map_of_apply_entries map_of_delta_entries split: option.split EntryDelta.split)
qed

section \<open>What recording adds\<close>

text \<open>A journal state is well formed if its generations are; its effect is the open generation on top of
  the frozen one.\<close>

definition journal_ok :: "('k, 'e, 'p) GenerationState \<Rightarrow> bool" where
  "journal_ok s \<longleftrightarrow> generation_ok (open_gen s) \<and> (\<forall>g. frozen s = Some g \<longrightarrow> generation_ok g) \<and>
    tracking_enabled s \<and> (generation_is_empty (open_gen s) \<longrightarrow> open_gen s = generation_default)"

lemma bump_not_empty [simp]: "\<not> generation_is_empty (bump g)"
  by (auto simp: generation_is_empty_def bump_def sat_add_def usize_max_def)

definition eff_frozen :: "('k, 'e, 'p) GenerationState \<Rightarrow> ('k, 'e, 'p) view \<Rightarrow> ('k, 'e, 'p) view" where
  "eff_frozen s v = (case frozen s of None \<Rightarrow> v | Some g \<Rightarrow> eff g v)"

definition pending :: "('k, 'e, 'p) GenerationState \<Rightarrow> ('k, 'e, 'p) view \<Rightarrow> ('k, 'e, 'p) view" where
  "pending s v = eff (open_gen s) (eff_frozen s v)"

lemma record_entry_pending:
  assumes "journal_ok s"
  shows "journal_ok (record_entry k e s)" "frozen (record_entry k e s) = frozen s"
    "eff (open_gen (record_entry k e s)) v = ((fst (eff (open_gen s) v))(k \<mapsto> e), snd (eff (open_gen s) v))"
proof -
  have on: "tracking_enabled s" using assms by (simp add: journal_ok_def)
  show "journal_ok (record_entry k e s)" using assms by (auto simp: journal_ok_def record_entry_def) (auto simp: generation_ok_def)
  show "frozen (record_entry k e s) = frozen s" by (simp add: record_entry_def)
  show "eff (open_gen (record_entry k e s)) v = ((fst (eff (open_gen s) v))(k \<mapsto> e), snd (eff (open_gen s) v))"
    using on by (auto simp: record_entry_def eff_def fun_eq_iff update_conv)
qed

lemma record_physical_delete_pending:
  assumes "journal_ok s"
  shows "journal_ok (record_physical_delete k s)" "frozen (record_physical_delete k s) = frozen s"
    "eff (open_gen (record_physical_delete k s)) v = ((fst (eff (open_gen s) v))(k := None), snd (eff (open_gen s) v))"
proof -
  have on: "tracking_enabled s" using assms by (simp add: journal_ok_def)
  show "journal_ok (record_physical_delete k s)" using assms by (auto simp: journal_ok_def record_physical_delete_def) (auto simp: generation_ok_def)
  show "frozen (record_physical_delete k s) = frozen s" by (simp add: record_physical_delete_def)
  show "eff (open_gen (record_physical_delete k s)) v = ((fst (eff (open_gen s) v))(k := None), snd (eff (open_gen s) v))"
    using on by (auto simp: record_physical_delete_def eff_def fun_eq_iff update_conv)
qed

lemma record_member_pending:
  assumes "journal_ok s"
  shows "journal_ok (record_member p b s)" "frozen (record_member p b s) = frozen s"
    "eff (open_gen (record_member p b s)) v = (let (m, ms, a) = eff (open_gen s) v in (m, ms(p := b), a))"
proof -
  have on: "tracking_enabled s" using assms by (simp add: journal_ok_def)
  show "journal_ok (record_member p b s)" using assms by (auto simp: journal_ok_def record_member_def) (auto simp: generation_ok_def)
  show "frozen (record_member p b s) = frozen s" by (simp add: record_member_def)
  show "eff (open_gen (record_member p b s)) v = (let (m, ms, a) = eff (open_gen s) v in (m, ms(p := b), a))"
    using on by (auto simp: record_member_def eff_def fun_eq_iff update_conv)
qed

lemma list_all_update: "list_all P m \<Longrightarrow> P (k, v) \<Longrightarrow> list_all P (AList.update k v m)"
  by (induction m) auto

lemma list_all_key_acks_of: "list_all (\<lambda>(_, o'). keys_distinct o') m \<Longrightarrow> keys_distinct (key_acks_of m k)"
  by (auto simp: key_acks_of_def list_all_iff dest!: map_of_SomeD split: option.split)

lemma record_ack_pending:
  assumes "journal_ok s"
  shows "journal_ok (record_ack k p w s)" "frozen (record_ack k p w s) = frozen s"
    "eff (open_gen (record_ack k p w s)) v = (let (m, ms, a) = eff (open_gen s) v in (m, ms, a(k := (a k)(p := w))))"
proof -
  let ?a = "sg_ack_peers (open_gen s)"
  have ok: "generation_ok (open_gen s)" "tracking_enabled s" using assms by (simp_all add: journal_ok_def)
  then have "keys_distinct (AList.update p w (key_acks_of ?a k))"
    using list_all_key_acks_of [of ?a k] by (simp add: generation_ok_def)
  then show "journal_ok (record_ack k p w s)"
    using assms list_all_update [of _ ?a k] by (auto simp: journal_ok_def record_ack_def Let_def) (auto simp: generation_ok_def)
  show "frozen (record_ack k p w s) = frozen s" by (simp add: record_ack_def Let_def)
  show "eff (open_gen (record_ack k p w s)) v = (let (m, ms, a) = eff (open_gen s) v in (m, ms, a(k := (a k)(p := w))))"
    using ok(2) by (auto simp: record_ack_def eff_def fun_eq_iff Let_def bump_def ack_of_update update_conv ack_of_def [of ?a] split: option.split)
qed

lemma record_ack_key_clear_pending:
  assumes "journal_ok s"
  shows "journal_ok (record_ack_key_clear k s)" "frozen (record_ack_key_clear k s) = frozen s"
    "eff (open_gen (record_ack_key_clear k s)) v = (let (m, ms, a) = eff (open_gen s) v in (m, ms, a(k := Map.empty)))"
proof -
  have "list_all P m \<Longrightarrow> list_all P (AList.delete k m)" for P :: "'a \<times> ('c, 64 word option) kv \<Rightarrow> bool" and m
    by (auto simp: AList.delete_eq list_all_iff)
  then show "journal_ok (record_ack_key_clear k s)"
    using assms by (auto simp: journal_ok_def record_ack_key_clear_def) (auto simp: generation_ok_def)
  show "frozen (record_ack_key_clear k s) = frozen s" by (simp add: record_ack_key_clear_def)
  show "eff (open_gen (record_ack_key_clear k s)) v = (let (m, ms, a) = eff (open_gen s) v in (m, ms, a(k := Map.empty)))"
    using assms by (auto simp: journal_ok_def record_ack_key_clear_def bump_def eff_def fun_eq_iff ack_of_delete split: option.split)
qed

lemma freeze_pending:
  assumes "journal_ok s" "freeze s = (g, s')"
  shows "journal_ok s'" "pending s' = pending s" "frozen s' = g" "g = None \<Longrightarrow> s' = s \<and> open_gen s = generation_default"
    "g \<noteq> None \<Longrightarrow> frozen s = None \<Longrightarrow> open_gen s' = generation_default" "frozen s \<noteq> None \<Longrightarrow> s' = s"
  using assms
  by (auto simp: freeze_def journal_ok_def pending_def eff_frozen_def fun_eq_iff Let_def split: option.splits if_splits)

lemma commit_pending:
  assumes "journal_ok s" "frozen s = Some g" "commit (sg_id g) s = (ok, s')"
  shows "ok" "journal_ok s'" "frozen s' = None" "open_gen s' = open_gen s"
  using assms by (auto simp: commit_def journal_ok_def)

lemma reset_clean_ok: "journal_ok (reset_clean s)" "pending (reset_clean s) v = v"
  by (simp_all add: journal_ok_def reset_clean_def pending_def eff_frozen_def)

end
