(* ===== verification/Replay.thy ===== *)
theory Replay
  imports Prelude
begin

text \<open>
  Replay protection of authenticated datagrams (\<open>gossip/src/replay.rs\<close> and the modules under
  \<open>gossip/src/replay/\<close>): the sliding acceptance bitmap, the per-sender accept/restart decision,
  the bounded sender table with its lazy expiry, and the sender's sequence and stamp counters.
  The bitmap refines a set of offsets, and the table, fed by one sender session, accepts no
  datagram twice.
\<close>

section \<open>Sequence numbers and stamps\<close>

type_synonym Seq = "64 word"
type_synonym Stamp = "64 word"

definition REPLAY_HEADER_LEN :: nat where
  "REPLAY_HEADER_LEN = 16"

definition WINDOW_SIZE :: "64 word" where
  "WINDOW_SIZE = 1024"

definition saturating_sub :: "64 word \<Rightarrow> 64 word \<Rightarrow> 64 word" where
  "saturating_sub x y = (if y \<le> x then x - y else 0)"

definition age_relative_to :: "Stamp \<Rightarrow> Stamp \<Rightarrow> 64 word" where
  "age_relative_to self now = saturating_sub now self"

text \<open>The window is given in milliseconds, the unit \<open>as_millis() as u64\<close> brings it to.\<close>

definition is_fresh :: "Stamp \<Rightarrow> Stamp \<Rightarrow> 64 word \<Rightarrow> bool" where
  "is_fresh self now window_ms \<longleftrightarrow>
     age_relative_to self now \<le> window_ms \<and> age_relative_to now self \<le> window_ms"

section \<open>The sliding bitmap\<close>

type_synonym SlidingBitmap = "64 word list"

definition bitmap_words :: nat where
  "bitmap_words = unat (WINDOW_SIZE div 64)"

definition mark :: "SlidingBitmap \<Rightarrow> 64 word \<Rightarrow> SlidingBitmap" where
  "mark bm offset =
    (let w = unat (offset div 64); b = unat (offset mod 64)
     in bm[w := (bm ! w) OR push_bit b 1])"

definition bitmap_new :: SlidingBitmap where
  "bitmap_new = mark (replicate bitmap_words 0) 0"

definition is_marked :: "SlidingBitmap \<Rightarrow> 64 word \<Rightarrow> bool" where
  "is_marked bm offset =
    (let w = unat (offset div 64); b = unat (offset mod 64)
     in (bm ! w) AND push_bit b 1 \<noteq> 0)"

text \<open>The two loops of \<open>advance\<close>, which run from the last word down and update in place.\<close>

definition shift_words :: "nat \<Rightarrow> nat \<Rightarrow> SlidingBitmap \<Rightarrow> 64 word" where
  "shift_words word_shift i bm = (if word_shift \<le> i then bm ! (i - word_shift) else 0)"

definition shift_bits :: "nat \<Rightarrow> nat \<Rightarrow> nat \<Rightarrow> SlidingBitmap \<Rightarrow> 64 word" where
  "shift_bits word_shift bit_shift i bm =
    (let lo = (if word_shift \<le> i then push_bit bit_shift (bm ! (i - word_shift)) else 0);
         hi = (if word_shift < i then drop_bit (64 - bit_shift) (bm ! (i - word_shift - 1)) else 0)
     in lo OR hi)"

definition rev_loop :: "(nat \<Rightarrow> SlidingBitmap \<Rightarrow> 64 word) \<Rightarrow> nat \<Rightarrow> SlidingBitmap \<Rightarrow> SlidingBitmap" where
  "rev_loop f n bm = fold (\<lambda>i b. b[i := f i b]) (rev [0..<n]) bm"

definition advance :: "SlidingBitmap \<Rightarrow> 64 word \<Rightarrow> SlidingBitmap" where
  "advance bm delta =
    (if WINDOW_SIZE \<le> delta then bitmap_new
     else let word_shift = unat (delta div 64); bit_shift = unat (delta mod 64)
          in mark (if bit_shift = 0 then rev_loop (shift_words word_shift) bitmap_words bm
                   else rev_loop (shift_bits word_shift bit_shift) bitmap_words bm) 0)"

section \<open>Per-sender state\<close>

record PeerState =
  max_seq :: Seq
  stamp_at_max :: Stamp
  max_stamp_seen :: Stamp
  bitmap :: SlidingBitmap

definition peer_state_new :: "Seq \<Rightarrow> Stamp \<Rightarrow> PeerState" where
  "peer_state_new first_seq first_stamp =
    \<lparr>max_seq = first_seq, stamp_at_max = first_stamp, max_stamp_seen = first_stamp,
     bitmap = bitmap_new\<rparr>"

definition reset :: "PeerState \<Rightarrow> Seq \<Rightarrow> Stamp \<Rightarrow> PeerState" where
  "reset st new_seq new_stamp =
    st\<lparr>max_seq := new_seq, stamp_at_max := new_stamp,
       max_stamp_seen := max (max_stamp_seen st) new_stamp, bitmap := bitmap_new\<rparr>"

definition accept :: "PeerState \<Rightarrow> Seq \<Rightarrow> Stamp \<Rightarrow> bool \<times> PeerState" where
  "accept st seq stamp =
    (if max_seq st < seq then
       if stamp < max_stamp_seen st then (False, st)
       else (True, st\<lparr>bitmap := advance (bitmap st) (seq - max_seq st), max_seq := seq,
                      stamp_at_max := stamp, max_stamp_seen := max (max_stamp_seen st) stamp\<rparr>)
     else if stamp_at_max st < stamp then (True, reset st seq stamp)
     else let behind = max_seq st - seq
          in if WINDOW_SIZE \<le> behind then (False, st)
             else if is_marked (bitmap st) behind then (False, st)
             else (True, st\<lparr>bitmap := mark (bitmap st) behind\<rparr>))"

section \<open>The sender table\<close>

definition entry_live :: "Stamp \<Rightarrow> 64 word \<Rightarrow> PeerState \<Rightarrow> bool" where
  "entry_live now window_ms st \<longleftrightarrow> age_relative_to (stamp_at_max st) now \<le> window_ms"

definition admit_new_sender ::
  "('k, PeerState) kv \<Rightarrow> 'k \<Rightarrow> Seq \<Rightarrow> Stamp \<Rightarrow> Stamp \<Rightarrow> 64 word \<Rightarrow> nat \<Rightarrow> bool \<times> ('k, PeerState) kv" where
  "admit_new_sender m sender seq stamp now window_ms max_senders =
    (let m' = (if max_senders \<le> length m
               then filter (\<lambda>p. entry_live now window_ms (snd p)) m else m)
     in if max_senders \<le> length m' then (False, m')
        else (True, AList.update sender (peer_state_new seq stamp) m'))"

definition check_and_record_sender ::
  "('k, PeerState) kv \<Rightarrow> 'k \<Rightarrow> Seq \<Rightarrow> Stamp \<Rightarrow> Stamp \<Rightarrow> 64 word \<Rightarrow> nat \<Rightarrow> bool \<times> ('k, PeerState) kv" where
  "check_and_record_sender m sender seq stamp now window_ms max_senders =
    (if \<not> is_fresh stamp now window_ms then (False, m)
     else case map_of m sender of
       Some st \<Rightarrow>
         if entry_live now window_ms st
         then (let (ok, st') = accept st seq stamp in (ok, AList.update sender st' m))
         else admit_new_sender (AList.delete sender m) sender seq stamp now window_ms max_senders
     | None \<Rightarrow> admit_new_sender m sender seq stamp now window_ms max_senders)"

record 'k ReplayFilter =
  peers :: "('k, PeerState) kv"
  freshness_window :: "64 word"
  enabled :: bool
  max_senders :: nat

definition replay_filter_new :: "64 word \<Rightarrow> bool \<Rightarrow> 'k ReplayFilter" where
  "replay_filter_new window_ms en =
    \<lparr>peers = [], freshness_window = window_ms, enabled = en, max_senders = usize_max\<rparr>"

definition with_max_senders :: "'k ReplayFilter \<Rightarrow> nat \<Rightarrow> 'k ReplayFilter" where
  "with_max_senders f n = f\<lparr>max_senders := n\<rparr>"

definition check_and_record_at ::
  "'k ReplayFilter \<Rightarrow> 'k \<Rightarrow> Seq \<Rightarrow> Stamp \<Rightarrow> Stamp \<Rightarrow> bool \<times> 'k ReplayFilter" where
  "check_and_record_at f sender seq stamp now =
    (let (ok, m) = check_and_record_sender (peers f) sender seq stamp now
                     (freshness_window f) (max_senders f)
     in (ok, f\<lparr>peers := m\<rparr>))"

definition check_and_record ::
  "'k ReplayFilter \<Rightarrow> 'k \<Rightarrow> Seq \<Rightarrow> Stamp \<Rightarrow> Stamp \<Rightarrow> bool \<times> 'k ReplayFilter" where
  "check_and_record f sender seq stamp now =
    (if \<not> enabled f then (True, f) else check_and_record_at f sender seq stamp now)"

text \<open>The filter of cryptographically verified signers has no switch.\<close>

record 'k VerifiedPeerReplayFilter =
  vpeers :: "('k, PeerState) kv"
  vfreshness_window :: "64 word"
  vmax_senders :: nat

definition verified_filter_new :: "64 word \<Rightarrow> 'k VerifiedPeerReplayFilter" where
  "verified_filter_new window_ms =
    \<lparr>vpeers = [], vfreshness_window = window_ms, vmax_senders = usize_max\<rparr>"

definition verified_with_max_senders ::
  "'k VerifiedPeerReplayFilter \<Rightarrow> nat \<Rightarrow> 'k VerifiedPeerReplayFilter" where
  "verified_with_max_senders f n = f\<lparr>vmax_senders := n\<rparr>"

definition verified_check_and_record ::
  "'k VerifiedPeerReplayFilter \<Rightarrow> 'k \<Rightarrow> Seq \<Rightarrow> Stamp \<Rightarrow> Stamp \<Rightarrow> bool \<times> 'k VerifiedPeerReplayFilter" where
  "verified_check_and_record f peer seq stamp now =
    (let (ok, m) = check_and_record_sender (vpeers f) peer seq stamp now
                     (vfreshness_window f) (vmax_senders f)
     in (ok, f\<lparr>vpeers := m\<rparr>))"

section \<open>The sender's counters\<close>

record SenderCounter =
  seq_ctr :: "64 word"
  stamp_floor :: "64 word"

definition sender_counter_new :: SenderCounter where
  "sender_counter_new = \<lparr>seq_ctr = 1, stamp_floor = 0\<rparr>"

definition next_seq :: "SenderCounter \<Rightarrow> Seq \<times> SenderCounter" where
  "next_seq c = (seq_ctr c, c\<lparr>seq_ctr := seq_ctr c + 1\<rparr>)"

definition next_stamp_at :: "SenderCounter \<Rightarrow> 64 word \<Rightarrow> Stamp \<times> SenderCounter" where
  "next_stamp_at c now_ms =
    (max (stamp_floor c) now_ms, c\<lparr>stamp_floor := max (stamp_floor c) now_ms\<rparr>)"

section \<open>The bitmap as a set of offsets\<close>

text \<open>What the bitmap stands for: the offsets behind the high-water mark that were accepted.\<close>

definition marked :: "SlidingBitmap \<Rightarrow> nat set" where
  "marked bm = {i. i < 1024 \<and> bit (bm ! (i div 64)) (i mod 64)}"

definition bitmap_ok :: "SlidingBitmap \<Rightarrow> bool" where
  "bitmap_ok bm \<longleftrightarrow> length bm = bitmap_words \<and> 0 \<in> marked bm"

lemma bitmap_words_val [simp]: "bitmap_words = 16"
  by (simp add: bitmap_words_def WINDOW_SIZE_def)

lemma unat_div_64 [simp]: "unat (w div 64 :: 64 word) = unat w div 64"
  by (simp add: unat_div_distrib)

lemma unat_mod_64 [simp]: "unat (w mod 64 :: 64 word) = unat w mod 64"
  by (simp add: unat_mod_distrib)

lemma window_le_iff: "WINDOW_SIZE \<le> w \<longleftrightarrow> 1024 \<le> unat w"
  by (simp add: WINDOW_SIZE_def word_le_nat_alt)

lemma is_marked_iff: "is_marked bm off \<longleftrightarrow> bit (bm ! (unat off div 64)) (unat off mod 64)"
  by (simp only: is_marked_def Let_def bit_iff_and_push_bit_not_eq_0 unat_div_64 unat_mod_64)

lemma marked_iff_is_marked: "unat off < 1024 \<Longrightarrow> unat off \<in> marked bm \<longleftrightarrow> is_marked bm off"
  by (simp add: marked_def is_marked_iff)

lemma length_mark [simp]: "length (mark bm off) = length bm"
  by (simp add: mark_def Let_def)

lemma marked_mark:
  assumes "length bm = 16" "unat off < 1024"
  shows "marked (mark bm off) = insert (unat off) (marked bm)"
proof (rule set_eqI)
  fix i
  have "i div 64 = unat off div 64 \<Longrightarrow> i mod 64 = unat off mod 64 \<longleftrightarrow> i = unat off"
    by (metis div_mult_mod_eq)
  then show "i \<in> marked (mark bm off) \<longleftrightarrow> i \<in> insert (unat off) (marked bm)"
    using assms
    by (auto simp: marked_def mark_def Let_def nth_list_update bit_or_iff bit_exp_iff)
qed

lemma marked_new: "marked bitmap_new = {0}"
proof -
  have "marked (replicate 16 0) = {}" by (auto simp: marked_def)
  then show ?thesis by (simp add: bitmap_new_def marked_mark)
qed

lemma bitmap_ok_new [simp]: "bitmap_ok bitmap_new"
  by (simp add: bitmap_ok_def marked_new) (simp add: bitmap_new_def)

text \<open>
  A loop that runs from the top index down and reads only cells at or below the one it writes
  computes the cells from the original array.
\<close>

lemma rev_loop_nth:
  assumes "\<And>i b c. (\<And>j. j \<le> i \<Longrightarrow> b ! j = c ! j) \<Longrightarrow> f i b = f i c" "n \<le> length bm"
  shows "length (rev_loop f n bm) = length bm \<and>
    (\<forall>i < length bm. rev_loop f n bm ! i = (if i < n then f i bm else bm ! i))"
  using assms(2)
proof (induction n arbitrary: bm)
  case (Suc n)
  let ?bm = "bm[n := f n bm]"
  have loop: "rev_loop f (Suc n) bm = rev_loop f n ?bm"
    by (simp add: rev_loop_def)
  have "f i ?bm = f i bm" if "i < n" for i
    using that by (intro assms(1)) auto
  then show ?case
    using Suc.IH [of ?bm] Suc.prems by (auto simp: loop nth_list_update less_Suc_eq)
qed (simp add: rev_loop_def)

lemma bit_shift_words:
  assumes "r < 64"
  shows "bit (shift_words ws q bm) r \<longleftrightarrow>
    64 * ws \<le> 64 * q + r \<and>
    bit (bm ! ((64 * q + r - 64 * ws) div 64)) ((64 * q + r - 64 * ws) mod 64)"
proof (cases "ws \<le> q")
  case True
  then have "64 * q + r - 64 * ws = 64 * (q - ws) + r" by (simp add: right_diff_distrib')
  then show ?thesis using True assms by (simp add: shift_words_def)
next
  case False
  then have "\<not> 64 * ws \<le> 64 * q + r" using assms by linarith
  then show ?thesis using False by (simp add: shift_words_def)
qed

lemma div_mod_64:
  fixes n a b :: nat
  assumes "n = 64 * a + b" "b < 64"
  shows "n div 64 = a" "n mod 64 = b"
  using assms by simp_all

lemma bit_shift_bits:
  assumes "r < 64" "0 < bs" "bs < 64"
  shows "bit (shift_bits ws bs q bm) r \<longleftrightarrow>
    64 * ws + bs \<le> 64 * q + r \<and>
    bit (bm ! ((64 * q + r - (64 * ws + bs)) div 64)) ((64 * q + r - (64 * ws + bs)) mod 64)"
proof (cases "bs \<le> r")
  case True
  then have high: "\<not> bit (w :: 64 word) (64 - bs + r)" for w
    using assms by (intro impossible_bit) simp
  show ?thesis
  proof (cases "ws \<le> q")
    case le: True
    define n where "n = 64 * q + r - (64 * ws + bs)"
    have n: "n = 64 * (q - ws) + (r - bs)" "r - bs < 64" using le True assms by (auto simp: n_def)
    have "64 * ws + bs \<le> 64 * q + r" using le True by linarith
    then show ?thesis
      using le True assms high
      unfolding n_def [symmetric] div_mod_64 [OF n]
      by (auto simp: shift_bits_def Let_def bit_or_iff bit_push_bit_iff bit_drop_bit_eq)
  next
    case False
    then have "\<not> 64 * ws + bs \<le> 64 * q + r" using assms by linarith
    then show ?thesis using False by (simp add: shift_bits_def Let_def)
  qed
next
  case False
  show ?thesis
  proof (cases "ws < q")
    case less: True
    define n where "n = 64 * q + r - (64 * ws + bs)"
    have n: "n = 64 * (q - ws - 1) + (64 - bs + r)" "64 - bs + r < 64"
      using less False assms unfolding n_def by linarith+
    have "64 * ws + bs \<le> 64 * q + r" using less assms by linarith
    then show ?thesis
      using less False assms
      unfolding n_def [symmetric] div_mod_64 [OF n]
      by (auto simp: shift_bits_def Let_def bit_or_iff bit_push_bit_iff bit_drop_bit_eq)
  next
    case le: False
    then have "\<not> 64 * ws + bs \<le> 64 * q + r" using False assms by linarith
    then show ?thesis using le False
      by (auto simp: shift_bits_def Let_def bit_or_iff bit_push_bit_iff bit_drop_bit_eq)
  qed
qed

lemma shift_words_local: "(\<And>j. j \<le> i \<Longrightarrow> b ! j = c ! j) \<Longrightarrow> shift_words ws i b = shift_words ws i c"
  by (simp add: shift_words_def)

lemma shift_bits_local: "(\<And>j. j \<le> i \<Longrightarrow> b ! j = c ! j) \<Longrightarrow> shift_bits ws bs i b = shift_bits ws bs i c"
  by (simp add: shift_bits_def)

lemmas rev_loop_words = rev_loop_nth [where f = "shift_words ws" for ws, OF shift_words_local]
lemmas rev_loop_bits = rev_loop_nth [where f = "shift_bits ws bs" for ws bs, OF shift_bits_local]

definition shifted :: "nat \<Rightarrow> nat set \<Rightarrow> nat set" where
  "shifted d S = {i. i < 1024 \<and> d \<le> i \<and> i - d \<in> S}"

lemma marked_rev_loop:
  fixes delta :: "64 word"
  assumes len: "length bm = 16"
  defines "ws \<equiv> unat delta div 64" and "bs \<equiv> unat delta mod 64"
  shows "marked (if bs = 0 then rev_loop (shift_words ws) 16 bm else rev_loop (shift_bits ws bs) 16 bm)
    = shifted (unat delta) (marked bm)" (is "marked ?L = _")
proof (rule set_eqI)
  fix i :: nat
  define q r where "q = i div 64" and "r = i mod 64"
  have i: "i = 64 * q + r" "r < 64" by (auto simp: q_def r_def)
  have d: "unat delta = 64 * ws + bs" "bs < 64" by (auto simp: ws_def bs_def)
  have "bit (?L ! q) r \<longleftrightarrow>
      unat delta \<le> i \<and> bit (bm ! ((i - unat delta) div 64)) ((i - unat delta) mod 64)"
    if "i < 1024"
  proof -
    have "q < 16" using that by (simp add: q_def)
    then have "?L ! q = (if bs = 0 then shift_words ws q bm else shift_bits ws bs q bm)"
      using rev_loop_words [of 16 bm ws] rev_loop_bits [of 16 bm ws bs] len by (simp)
    then show ?thesis
      unfolding i(1) d(1) using bit_shift_words [OF i(2)] bit_shift_bits [OF i(2) _ d(2)] by auto
  qed
  then show "i \<in> marked ?L \<longleftrightarrow> i \<in> shifted (unat delta) (marked bm)"
    by (auto simp: marked_def shifted_def q_def r_def)
qed

lemma marked_advance:
  assumes "length bm = 16"
  shows "marked (advance bm delta) = insert 0 (shifted (unat delta) (marked bm))"
proof (cases "WINDOW_SIZE \<le> delta")
  case True
  then have "shifted (unat delta) (marked bm) = {}"
    by (auto simp: shifted_def window_le_iff)
  then show ?thesis using True by (simp add: advance_def marked_new)
next
  case False
  let ?L = "if unat delta mod 64 = 0 then rev_loop (shift_words (unat delta div 64)) 16 bm
      else rev_loop (shift_bits (unat delta div 64) (unat delta mod 64)) 16 bm"
  have "length ?L = 16"
    using rev_loop_words [of 16 bm] rev_loop_bits [of 16 bm] assms by simp
  then have "marked (mark ?L 0) = insert 0 (marked ?L)"
    using marked_mark [of ?L 0] by simp
  moreover have "advance bm delta = mark ?L 0"
    using False by (simp add: advance_def Let_def)
  ultimately show ?thesis
    using marked_rev_loop [OF assms, of delta] by simp
qed

lemma length_advance: "length bm = 16 \<Longrightarrow> length (advance bm delta) = 16"
  using rev_loop_words [of 16 bm] rev_loop_bits [of 16 bm] bitmap_ok_new
  by (auto simp: advance_def Let_def bitmap_ok_def)

section \<open>The interface of an acceptance window\<close>

text \<open>
  \<open>PeerState\<close> relies on its bitmap only through these laws: which offsets are marked after each
  operation. \<open>tracks M h S\<close> says that the offsets \<open>M\<close> behind the high-water mark \<open>h\<close> record
  exactly the sequence numbers of \<open>S\<close> that are less than a window old.
\<close>

definition tracks :: "nat set \<Rightarrow> Seq \<Rightarrow> Seq set \<Rightarrow> bool" where
  "tracks M h S \<longleftrightarrow> h \<in> S \<and> (\<forall>s\<in>S. s \<le> h) \<and>
     (\<forall>s\<le>h. unat (h - s) < 1024 \<longrightarrow> (s \<in> S \<longleftrightarrow> unat (h - s) \<in> M))"

lemma unat_diff_le: "s \<le> h \<Longrightarrow> unat (h - s :: 64 word) = unat h - unat s"
  by (simp add: unat_sub word_le_nat_alt)

lemma unat_diff_eq_iff: "unat (h - s :: 64 word) = unat (h - s') \<longleftrightarrow> s = s'"
  by (simp add: word_unat_eq_iff [symmetric])

lemma unat_diff_zero: "unat (h - s :: 64 word) = 0 \<longleftrightarrow> s = h"
  using unat_diff_eq_iff [of h s h] by simp

locale acceptance_window =
  fixes wnew :: 'b
    and wmark wadvance :: "'b \<Rightarrow> 64 word \<Rightarrow> 'b"
    and wmarked :: "'b \<Rightarrow> 64 word \<Rightarrow> bool"
    and offsets :: "'b \<Rightarrow> nat set"
    and ok :: "'b \<Rightarrow> bool"
  assumes new: "ok wnew" "offsets wnew = {0}"
    and mark: "ok b \<Longrightarrow> unat off < 1024 \<Longrightarrow> ok (wmark b off)"
      "ok b \<Longrightarrow> unat off < 1024 \<Longrightarrow> offsets (wmark b off) = insert (unat off) (offsets b)"
    and advance: "ok b \<Longrightarrow> ok (wadvance b d)"
      "ok b \<Longrightarrow> offsets (wadvance b d) = insert 0 (shifted (unat d) (offsets b))"
    and query: "ok b \<Longrightarrow> unat off < 1024 \<Longrightarrow> wmarked b off \<longleftrightarrow> unat off \<in> offsets b"
begin

lemma tracks_new: "tracks (offsets wnew) h {h}"
  by (auto simp: tracks_def new unat_diff_zero)

lemma tracks_query:
  assumes "ok b" "tracks (offsets b) h S" "s \<le> h" "unat (h - s) < 1024"
  shows "wmarked b (h - s) \<longleftrightarrow> s \<in> S"
  using assms by (simp add: query tracks_def)

lemma tracks_mark:
  assumes "ok b" "tracks (offsets b) h S" "s \<le> h" "unat (h - s) < 1024"
  shows "tracks (offsets (wmark b (h - s))) h (insert s S)"
proof -
  show ?thesis using assms by (auto simp: tracks_def mark unat_diff_eq_iff)
qed

lemma tracks_advance:
  assumes "ok b" "tracks (offsets b) h S" "h < h'"
  shows "tracks (offsets (wadvance b (h' - h))) h' (insert h' S)"
proof -
  have shift: "unat (h' - s) \<in> shifted (unat (h' - h)) (offsets b) \<longleftrightarrow> s \<in> S"
    if "s \<le> h'" "unat (h' - s) < 1024" "s \<noteq> h'" for s
  proof (cases "s \<le> h")
    case True
    then have "unat (h' - s) - unat (h' - h) = unat (h - s)" "unat (h' - h) \<le> unat (h' - s)"
      using that assms(3) by (auto simp: unat_diff_le word_le_nat_alt word_less_nat_alt)
    moreover from this have "unat (h - s) < 1024" using that by linarith
    ultimately show ?thesis using True that assms(2) by (simp add: shifted_def tracks_def)
  next
    case False
    then have "unat (h' - s) < unat (h' - h)"
      using that assms(3) by (auto simp: unat_diff_le word_le_nat_alt word_less_nat_alt)
    then show ?thesis using False assms(2) by (auto simp: shifted_def tracks_def)
  qed
  show ?thesis
    using assms shift by (auto simp: tracks_def advance unat_diff_zero intro: order.trans less_imp_le)
qed

end

interpretation bw: acceptance_window bitmap_new mark advance is_marked marked bitmap_ok
proof unfold_locales
  show "bitmap_ok (mark b off)" if "bitmap_ok b" "unat off < 1024" for b off
    using that by (simp add: bitmap_ok_def marked_mark)
  show "marked (mark b off) = insert (unat off) (marked b)"
    if "bitmap_ok b" "unat off < 1024" for b off
    using that by (simp add: bitmap_ok_def marked_mark)
  show "bitmap_ok (advance b d)" if "bitmap_ok b" for b d
    using that by (simp add: bitmap_ok_def marked_advance length_advance)
  show "marked (advance b d) = insert 0 (shifted (unat d) (marked b))" if "bitmap_ok b" for b d
    using that by (simp add: bitmap_ok_def marked_advance)
qed (simp_all add: marked_new marked_iff_is_marked)

section \<open>Sender sessions\<close>

text \<open>
  The datagrams one process sends: a sequence number is used once, and stamps do not decrease
  along sequence numbers.
\<close>

definition session :: "(Seq \<times> Stamp) set \<Rightarrow> bool" where
  "session D \<longleftrightarrow> (\<forall>(s, t)\<in>D. \<forall>(s', t')\<in>D. (s = s' \<longrightarrow> t = t') \<and> (s < s' \<longrightarrow> t \<le> t'))"

lemma session_le: "session D \<Longrightarrow> (s, t) \<in> D \<Longrightarrow> (s', t') \<in> D \<Longrightarrow> s \<le> s' \<Longrightarrow> t \<le> t'"
  by (fastforce simp: session_def order.order_iff_strict)

text \<open>The datagrams a counter mints when its clock reads \<open>nows\<close>.\<close>

fun mint :: "SenderCounter \<Rightarrow> 64 word list \<Rightarrow> (Seq \<times> Stamp) list" where
  "mint c [] = []"
| "mint c (now_ms # nows) =
    (let (s, c1) = next_seq c; (t, c2) = next_stamp_at c1 now_ms in (s, t) # mint c2 nows)"

lemma mint_Cons:
  "mint c (now # nows) = (seq_ctr c, max (stamp_floor c) now) #
     mint \<lparr>seq_ctr = seq_ctr c + 1, stamp_floor = max (stamp_floor c) now\<rparr> nows"
  by (cases c) (simp add: next_seq_def next_stamp_at_def Let_def)

declare mint.simps(2) [simp del] mint_Cons [simp]

lemma mint_bounds:
  assumes "(s, t) \<in> set (mint c nows)" "unat (seq_ctr c) + length nows \<le> 2 ^ 64"
  shows "seq_ctr c \<le> s" "stamp_floor c \<le> t"
proof -
  have "seq_ctr c \<le> s \<and> stamp_floor c \<le> t"
    using assms
  proof (induction nows arbitrary: c)
    case (Cons now nows)
    show ?case
    proof (cases "(s, t) \<in> set (mint \<lparr>seq_ctr = seq_ctr c + 1, stamp_floor = max (stamp_floor c) now\<rparr> nows)")
      case True
      then have "nows \<noteq> []" by auto
      then have "unat (seq_ctr c) + 1 < 2 ^ 64"
        using Cons.prems(2) by (cases nows) auto
      then have "unat (seq_ctr c + 1) = unat (seq_ctr c) + 1"
        by (simp add: unat_word_ariths)
      then have "seq_ctr c \<le> seq_ctr c + 1" "seq_ctr c + 1 \<le> s" "max (stamp_floor c) now \<le> t"
        using Cons.IH [OF True] Cons.prems(2) by (simp_all add: word_le_nat_alt)
      then show ?thesis by auto
    qed (use Cons.prems in auto)
  qed simp
  then show "seq_ctr c \<le> s" "stamp_floor c \<le> t" by auto
qed

lemma session_insert:
  assumes "session D" "\<And>s' t'. (s', t') \<in> D \<Longrightarrow> s < s' \<and> t \<le> t'"
  shows "session (insert (s, t) D)"
  using assms unfolding session_def by (auto dest: order.asym) (metis order.asym)+

lemma mint_session:
  assumes "unat (seq_ctr c) + length nows \<le> 2 ^ 64"
  shows "session (set (mint c nows))"
  using assms
proof (induction nows arbitrary: c)
  case (Cons now nows)
  let ?c = "\<lparr>seq_ctr = seq_ctr c + 1, stamp_floor = max (stamp_floor c) now\<rparr>"
  show ?case
  proof (cases "nows = []")
    case False
    then have "unat (seq_ctr c) + 1 < 2 ^ 64" using Cons.prems by (cases nows) auto
    then have nxt: "unat (seq_ctr c + 1) = unat (seq_ctr c) + 1"
      by (simp add: unat_word_ariths)
    then have room: "unat (seq_ctr ?c) + length nows \<le> 2 ^ 64" using Cons.prems by simp
    have "seq_ctr c < seq_ctr c + 1" by (simp only: word_less_nat_alt nxt)
    then have "seq_ctr c < s' \<and> max (stamp_floor c) now \<le> t'"
      if "(s', t') \<in> set (mint ?c nows)" for s' t'
      using mint_bounds [OF that room] by (simp only: SenderCounter.simps) (blast intro: less_le_trans)
    then show ?thesis
      unfolding mint_Cons list.set by (rule session_insert [OF Cons.IH [OF room]])
  qed (simp add: session_def)
qed (simp add: session_def)

section \<open>What one sender's state accepts\<close>

definition peer_tracks :: "PeerState \<Rightarrow> Seq set \<Rightarrow> bool" where
  "peer_tracks st S \<longleftrightarrow> bitmap_ok (bitmap st) \<and> tracks (marked (bitmap st)) (max_seq st) S"

lemma peer_tracks_new: "peer_tracks (peer_state_new s t) {s}"
  using bw.tracks_new by (simp add: peer_tracks_def peer_state_new_def)

lemma accept_in_session:
  assumes "peer_tracks st S"
    and "max_seq st < s \<Longrightarrow> max_stamp_seen st \<le> t"
    and "s \<le> max_seq st \<Longrightarrow> t \<le> stamp_at_max st"
  shows "fst (accept st s t) \<longleftrightarrow> s \<notin> S \<and> (s \<le> max_seq st \<longrightarrow> unat (max_seq st - s) < 1024)"
    and "peer_tracks (snd (accept st s t)) (if fst (accept st s t) then insert s S else S)"
proof -
  have ok: "bitmap_ok (bitmap st)" and tr: "tracks (marked (bitmap st)) (max_seq st) S"
    using assms(1) by (simp_all add: peer_tracks_def)
  have "(fst (accept st s t) \<longleftrightarrow> s \<notin> S \<and> (s \<le> max_seq st \<longrightarrow> unat (max_seq st - s) < 1024)) \<and>
    peer_tracks (snd (accept st s t)) (if fst (accept st s t) then insert s S else S)"
  proof (cases "max_seq st < s")
    case True
    then have "s \<notin> S" using tr by (auto simp: tracks_def)
    then show ?thesis
      using True assms(2) bw.tracks_advance [OF ok tr True] bw.advance(1) [OF ok]
      by (auto simp: accept_def peer_tracks_def)
  next
    case False
    then show ?thesis
      using assms(1,3) bw.tracks_query [OF ok tr, of s] bw.tracks_mark [OF ok tr, of s]
        bw.mark(1) [OF ok, of "max_seq st - s"]
      by (auto simp: accept_def peer_tracks_def Let_def window_le_iff not_le not_less)
  qed
  then show "fst (accept st s t) \<longleftrightarrow> s \<notin> S \<and> (s \<le> max_seq st \<longrightarrow> unat (max_seq st - s) < 1024)"
    and "peer_tracks (snd (accept st s t)) (if fst (accept st s t) then insert s S else S)"
    by auto
qed

section \<open>The sender table\<close>

lemma check_stale [simp]:
  "\<not> is_fresh t now w \<Longrightarrow> check_and_record_sender m k s t now w cap = (False, m)"
  by (simp add: check_and_record_sender_def)

lemma check_known:
  "is_fresh t now w \<Longrightarrow> map_of m k = Some st \<Longrightarrow> entry_live now w st \<Longrightarrow>
   check_and_record_sender m k s t now w cap =
     (fst (accept st s t), AList.update k (snd (accept st s t)) m)"
  by (simp add: check_and_record_sender_def Let_def split_beta)

lemma check_not_live:
  "is_fresh t now w \<Longrightarrow> \<not> (\<exists>st. map_of m k = Some st \<and> entry_live now w st) \<Longrightarrow>
   check_and_record_sender m k s t now w cap =
     admit_new_sender (if map_of m k = None then m else AList.delete k m) k s t now w cap"
  by (simp add: check_and_record_sender_def split: option.split)

lemma check_cases [case_names stale known not_live]:
  obtains "\<not> is_fresh t now w"
  | st where "is_fresh t now w" "map_of m k = Some st" "entry_live now w st"
  | "is_fresh t now w" "\<not> (\<exists>st. map_of m k = Some st \<and> entry_live now w st)"
  by (cases "map_of m k") auto

lemma keys_distinct_admit:
  "keys_distinct m \<Longrightarrow> keys_distinct (snd (admit_new_sender m k s t now w cap))"
  by (simp add: admit_new_sender_def Let_def)

lemma keys_distinct_check [intro]:
  assumes "keys_distinct m"
  shows "keys_distinct (snd (check_and_record_sender m k s t now w cap))"
  by (cases rule: check_cases [where t = t and now = now and w = w and m = m and k = k])
    (simp_all add: assms check_known check_not_live keys_distinct_admit)

lemma length_admit:
  assumes "length m \<le> cap"
  shows "length (snd (admit_new_sender m k s t now w cap)) \<le> cap"
proof -
  have "length (filter (\<lambda>p. entry_live now w (snd p)) m) \<le> cap"
    using assms by (rule order.trans [OF length_filter_le])
  then show ?thesis using assms by (simp add: admit_new_sender_def Let_def length_update_le)
qed

lemma length_check:
  assumes "length m \<le> cap"
  shows "length (snd (check_and_record_sender m k s t now w cap)) \<le> cap"
proof (cases rule: check_cases [where t = t and now = now and w = w and m = m and k = k])
  case not_live
  have "length (AList.delete k m) \<le> cap" using assms length_delete_le [of k m] by simp
  then show ?thesis using not_live assms by (simp add: check_not_live length_admit)
qed (simp_all add: assms check_known length_update_le)

text \<open>How one datagram changes the entry of its sender and of every other sender.\<close>

lemma admit_new_sender_self:
  assumes "keys_distinct m" "map_of m k = None"
  shows "map_of (snd (admit_new_sender m k s t now w cap)) k =
    (if fst (admit_new_sender m k s t now w cap) then Some (peer_state_new s t) else None)"
  using assms by (auto simp: admit_new_sender_def Let_def kv_simps map_of_filter_distinct)

lemma admit_new_sender_other:
  assumes "keys_distinct m" "k' \<noteq> k"
  shows "map_of (snd (admit_new_sender m k s t now w cap)) k' = map_of m k' \<or>
    (map_of (snd (admit_new_sender m k s t now w cap)) k' = None \<and>
     (\<exists>st. map_of m k' = Some st \<and> \<not> entry_live now w st))"
  using assms
  by (auto simp: admit_new_sender_def Let_def kv_simps map_of_filter_distinct split: option.splits)

lemma check_other:
  assumes "keys_distinct m" "k' \<noteq> k"
  shows "map_of (snd (check_and_record_sender m k s t now w cap)) k' = map_of m k' \<or>
    (map_of (snd (check_and_record_sender m k s t now w cap)) k' = None \<and>
     (\<exists>st. map_of m k' = Some st \<and> \<not> entry_live now w st))"
proof (cases rule: check_cases [where t = t and now = now and w = w and m = m and k = k])
  case not_live
  have "keys_distinct (AList.delete k m)" "map_of (AList.delete k m) k' = map_of m k'"
    using assms by (simp_all add: kv_simps)
  then show ?thesis
    using not_live admit_new_sender_other [OF assms]
      admit_new_sender_other [of "AList.delete k m" k' k] assms(2)
    by (simp add: check_not_live)
qed (simp_all add: assms check_known kv_simps)

lemma check_self_not_live:
  assumes "keys_distinct m" "is_fresh t now w" "\<not> (\<exists>st. map_of m k = Some st \<and> entry_live now w st)"
  shows "map_of (snd (check_and_record_sender m k s t now w cap)) k =
    (if fst (check_and_record_sender m k s t now w cap) then Some (peer_state_new s t) else None)"
proof -
  let ?m = "if map_of m k = None then m else AList.delete k m"
  have "keys_distinct ?m" "map_of ?m k = None" using assms by (auto simp: kv_simps)
  then show ?thesis
    unfolding check_not_live [OF assms(2,3)] by (rule admit_new_sender_self)
qed

lemma check_other_live:
  assumes "keys_distinct m" "k' \<noteq> k" "map_of m k' = Some st" "entry_live now w st"
  shows "map_of (snd (check_and_record_sender m k s t now w cap)) k' = Some st"
  using check_other [OF assms(1,2)] assms(3,4) by fastforce

section \<open>No datagram of a session is accepted twice\<close>

lemma unat_age: "unat (age_relative_to t now) = unat now - unat t"
  by (simp add: age_relative_to_def saturating_sub_def unat_diff_le word_le_nat_alt)

lemma age_mono: "t' \<le> t \<Longrightarrow> now \<le> now' \<Longrightarrow> age_relative_to t now \<le> age_relative_to t' now'"
  unfolding word_le_nat_alt unat_age by linarith

definition recorded :: "PeerState \<Rightarrow> Seq set" where
  "recorded st = {s. s \<le> max_seq st \<and>
     (unat (max_seq st - s) < 1024 \<longrightarrow> is_marked (bitmap st) (max_seq st - s))}"

definition remembered :: "Seq \<times> Stamp \<Rightarrow> PeerState \<Rightarrow> bool" where
  "remembered d st \<longleftrightarrow> fst d \<in> recorded st \<and> snd d \<le> stamp_at_max st"

definition entry_in_session :: "(Seq \<times> Stamp) set \<Rightarrow> PeerState \<Rightarrow> bool" where
  "entry_in_session D st \<longleftrightarrow>
     bitmap_ok (bitmap st) \<and> (max_seq st, stamp_at_max st) \<in> D \<and> max_stamp_seen st = stamp_at_max st"

definition replay_inv ::
  "('k \<Rightarrow> (Seq \<times> Stamp) set) \<Rightarrow> 64 word \<Rightarrow> ('k, PeerState) kv \<Rightarrow> Stamp \<Rightarrow> ('k \<times> Seq \<times> Stamp) set \<Rightarrow> bool" where
  "replay_inv D w m now A \<longleftrightarrow> keys_distinct m \<and>
     (\<forall>k st. map_of m k = Some st \<longrightarrow> entry_in_session (D k) st) \<and>
     (\<forall>(k, d)\<in>A. w < age_relative_to (snd d) now \<or> (\<exists>st. map_of m k = Some st \<and> remembered d st))"

lemma peer_tracks_recorded: "bitmap_ok (bitmap st) \<Longrightarrow> peer_tracks st (recorded st)"
  by (auto simp: peer_tracks_def tracks_def recorded_def bitmap_ok_def
      marked_iff_is_marked [symmetric] unat_diff_zero)

lemma recorded_superset: "peer_tracks st S \<Longrightarrow> S \<subseteq> recorded st"
  by (auto simp: peer_tracks_def tracks_def recorded_def marked_iff_is_marked [symmetric])

lemma accept_stamps:
  assumes "entry_in_session D st" "session D" "(s, t) \<in> D"
  shows "max_seq st < s \<Longrightarrow> max_stamp_seen st \<le> t" "s \<le> max_seq st \<Longrightarrow> t \<le> stamp_at_max st"
  using assms session_le [of D] by (auto simp: entry_in_session_def)

lemma accept_entry_in_session:
  assumes "entry_in_session D st" "session D" "(s, t) \<in> D"
  shows "entry_in_session D (snd (accept st s t))"
proof -
  have "bitmap_ok (bitmap (snd (accept st s t)))"
    using accept_in_session(2) [OF peer_tracks_recorded, of st s t] accept_stamps [OF assms] assms(1)
    by (auto simp: entry_in_session_def peer_tracks_def)
  then show ?thesis
    using assms accept_stamps [OF assms]
    by (auto simp: entry_in_session_def accept_def reset_def Let_def max_absorb2)
qed

lemma accept_remembered:
  assumes "entry_in_session D st" "session D" "(s, t) \<in> D"
  shows "remembered d st \<Longrightarrow> remembered d (snd (accept st s t))"
    and "fst (accept st s t) \<Longrightarrow> remembered (s, t) (snd (accept st s t))"
    and "fst (accept st s t) \<Longrightarrow> \<not> remembered (s, t) st"
proof -
  note acc = accept_in_session [OF peer_tracks_recorded, of st s t] accept_stamps [OF assms]
  have ok: "bitmap_ok (bitmap st)" using assms(1) by (simp add: entry_in_session_def)
  have sub: "(if fst (accept st s t) then insert s (recorded st) else recorded st)
      \<subseteq> recorded (snd (accept st s t))"
    by (rule recorded_superset [OF acc(2)]) (use ok acc in auto)
  have stamp: "stamp_at_max st \<le> stamp_at_max (snd (accept st s t))"
    "fst (accept st s t) \<Longrightarrow> t \<le> stamp_at_max (snd (accept st s t))"
    using acc(3,4) assms(1) by (auto simp: accept_def reset_def Let_def entry_in_session_def)
  show "remembered d st \<Longrightarrow> remembered d (snd (accept st s t))"
    using sub stamp(1) by (auto simp: remembered_def split: if_splits)
  show "fst (accept st s t) \<Longrightarrow> remembered (s, t) (snd (accept st s t))"
    using sub stamp(2) by (auto simp: remembered_def)
  show "fst (accept st s t) \<Longrightarrow> \<not> remembered (s, t) st"
    using acc ok by (auto simp: remembered_def)
qed

lemma remembered_new: "remembered (s, t) (peer_state_new s t)"
  using recorded_superset [OF peer_tracks_new] by (auto simp: remembered_def peer_state_new_def)

lemma entry_in_session_new: "(s, t) \<in> D \<Longrightarrow> entry_in_session D (peer_state_new s t)"
  by (simp add: entry_in_session_def peer_state_new_def)

text \<open>An accepted datagram whose sender entry is no longer live is itself out of date.\<close>

lemma not_live_stale:
  assumes "remembered d st" "\<not> entry_live now w st"
  shows "w < age_relative_to (snd d) now"
  using assms age_mono [of "snd d" "stamp_at_max st" now now]
  by (auto simp: remembered_def entry_live_def)

lemma fresh_not_stale: "is_fresh t now w \<Longrightarrow> \<not> w < age_relative_to t now"
  by (auto simp: is_fresh_def)

lemma replay_inv_later:
  assumes "replay_inv D w m now A" "now \<le> now'"
  shows "replay_inv D w m now' A"
proof -
  have "w < age_relative_to t now'" if "w < age_relative_to t now" for t
    using that age_mono [OF order.refl assms(2), of t] by (rule less_le_trans)
  then show ?thesis using assms(1) by (fastforce simp: replay_inv_def)
qed

lemma replay_inv_entries:
  assumes "replay_inv D w m now A" "session (D k)" "(s, t) \<in> D k"
    and "map_of (snd (check_and_record_sender m k s t now w cap)) k' = Some st'"
  shows "entry_in_session (D k') st'"
proof (cases "k' = k \<and> is_fresh t now w")
  case True
  then show ?thesis
    using assms check_self_not_live [of m t now w k s cap]
    by (cases rule: check_cases [where t = t and now = now and w = w and m = m and k = k])
      (auto simp: replay_inv_def check_known accept_entry_in_session entry_in_session_new split: if_splits)
next
  case False
  then show ?thesis
    using assms check_other [of m k' k s t now w cap]
    by (cases "is_fresh t now w") (auto simp: replay_inv_def)
qed

lemma replay_inv_accepted:
  assumes inv: "replay_inv D w m now A" and D: "session (D k)" "(s, t) \<in> D k"
    and A: "(k', d) \<in> A"
  shows "w < age_relative_to (snd d) now \<or>
    (\<exists>st. map_of (snd (check_and_record_sender m k s t now w cap)) k' = Some st \<and> remembered d st)"
proof (cases "w < age_relative_to (snd d) now")
  case False
  have dist: "keys_distinct m" using inv by (simp add: replay_inv_def)
  obtain st where st: "map_of m k' = Some st" "remembered d st"
    using inv A False by (auto simp: replay_inv_def)
  then have live: "entry_live now w st" using not_live_stale False by blast
  show ?thesis
  proof (cases "k' = k")
    case True
    have "entry_in_session (D k) st" using inv st True by (auto simp: replay_inv_def)
    then show ?thesis
      using True st live accept_remembered(1) [OF _ D, of st d]
      by (cases "is_fresh t now w") (auto simp: check_known)
  next
    case other: False
    then show ?thesis using check_other_live [OF dist other st(1) live] st(2) by simp
  qed
qed simp

lemma replay_inv_new:
  assumes inv: "replay_inv D w m now A" and D: "session (D k)" "(s, t) \<in> D k"
    and ok: "fst (check_and_record_sender m k s t now w cap)"
  shows "(k, s, t) \<notin> A"
    and "\<exists>st. map_of (snd (check_and_record_sender m k s t now w cap)) k = Some st \<and> remembered (s, t) st"
proof -
  have dist: "keys_distinct m" using inv by (simp add: replay_inv_def)
  have fresh: "is_fresh t now w" using ok by (rule contrapos_pp) simp
  have old: "(k, s, t) \<in> A \<Longrightarrow> \<exists>st. map_of m k = Some st \<and> remembered (s, t) st \<and> entry_live now w st"
    using inv fresh_not_stale [OF fresh] not_live_stale by (fastforce simp: replay_inv_def)
  show "(k, s, t) \<notin> A"
  proof
    assume "(k, s, t) \<in> A"
    then obtain st where st: "map_of m k = Some st" "remembered (s, t) st" "entry_live now w st"
      using old by blast
    then have "entry_in_session (D k) st" using inv by (auto simp: replay_inv_def)
    from accept_remembered(3) [OF this D] st ok fresh show False by (simp add: check_known)
  qed
  show "\<exists>st. map_of (snd (check_and_record_sender m k s t now w cap)) k = Some st \<and> remembered (s, t) st"
  proof (cases rule: check_cases [where t = t and now = now and w = w and m = m and k = k])
    case (known st)
    then have "entry_in_session (D k) st" using inv by (auto simp: replay_inv_def)
    from accept_remembered(2) [OF this D] known ok show ?thesis by (simp add: check_known)
  next
    case not_live
    then show ?thesis using check_self_not_live [OF dist not_live] ok remembered_new by simp
  qed (use fresh in simp)
qed

lemma replay_inv_step:
  assumes "replay_inv D w m now0 A" "now0 \<le> now" "session (D k)" "(s, t) \<in> D k"
    and "check_and_record_sender m k s t now w cap = (ok, m')"
  shows "replay_inv D w m' now (if ok then insert (k, s, t) A else A)" "ok \<Longrightarrow> (k, s, t) \<notin> A"
proof -
  have inv: "replay_inv D w m now A" using assms(1,2) by (rule replay_inv_later)
  have r: "fst (check_and_record_sender m k s t now w cap) = ok"
    "snd (check_and_record_sender m k s t now w cap) = m'" using assms(5) by simp_all
  have "keys_distinct m'"
    using inv keys_distinct_check [of m k s t now w cap] r by (simp add: replay_inv_def)
  then show "replay_inv D w m' now (if ok then insert (k, s, t) A else A)"
    using replay_inv_entries [OF inv assms(3,4), of cap] replay_inv_accepted [OF inv assms(3,4), of _ _ cap]
      replay_inv_new(2) [OF inv assms(3,4), of cap] r
    unfolding replay_inv_def by fastforce
  show "ok \<Longrightarrow> (k, s, t) \<notin> A"
    using replay_inv_new(1) [OF inv assms(3,4), of cap] r by simp
qed

text \<open>The datagrams a filter accepts, in order, out of a sequence of arrivals.\<close>

type_synonym 'k arrival = "'k \<times> Seq \<times> Stamp \<times> Stamp"

fun filter_run :: "'k ReplayFilter \<Rightarrow> 'k arrival list \<Rightarrow> ('k \<times> Seq \<times> Stamp) list" where
  "filter_run f [] = []"
| "filter_run f ((k, s, t, now) # es) =
    (let (ok, f') = check_and_record f k s t now
     in (if ok then [(k, s, t)] else []) @ filter_run f' es)"

abbreviation arrival_now :: "'k arrival \<Rightarrow> Stamp" where
  "arrival_now e \<equiv> snd (snd (snd e))"

lemma filter_run_distinct:
  assumes "replay_inv D (freshness_window f) (peers f) now0 A" "enabled f"
    and "sorted (now0 # map arrival_now es)"
    and "\<And>k s t now. (k, s, t, now) \<in> set es \<Longrightarrow> session (D k) \<and> (s, t) \<in> D k"
  shows "distinct (filter_run f es) \<and> set (filter_run f es) \<inter> A = {}"
  using assms
proof (induction es arbitrary: f now0 A)
  case (Cons e es)
  obtain k s t now where e: "e = (k, s, t, now)" by (cases e)
  obtain ok m' where chk:
    "check_and_record_sender (peers f) k s t now (freshness_window f) (max_senders f) = (ok, m')"
    by fastforce
  let ?f = "f\<lparr>peers := m'\<rparr>" and ?A = "if ok then insert (k, s, t) A else A"
  have D: "session (D k)" "(s, t) \<in> D k" and le: "now0 \<le> now"
    using Cons.prems(3,4) by (auto simp: e)
  note step = replay_inv_step [OF Cons.prems(1) le D chk]
  have "distinct (filter_run ?f es) \<and> set (filter_run ?f es) \<inter> ?A = {}"
    using step(1) Cons.prems(2,3,4) by (intro Cons.IH [of ?f now ?A]) (auto simp: e)
  moreover have "filter_run f (e # es) = (if ok then [(k, s, t)] else []) @ filter_run ?f es"
    using Cons.prems(2) by (simp add: e check_and_record_def check_and_record_at_def chk)
  ultimately show ?case using step(2) by auto
qed simp

section \<open>Properties\<close>



text \<open>The per-sender decision is exact. Inside one session, a state that tracks the set of
  accepted sequence numbers accepts a datagram exactly when its number is new and less than the
  window behind the highest one, and then tracks the enlarged set: neither a duplicate passes nor
  a reordered first arrival is lost.\<close>

theorem accept_exact:
  assumes "peer_tracks st S"
    and "max_seq st < s \<longrightarrow> max_stamp_seen st \<le> t"
    and "s \<le> max_seq st \<longrightarrow> t \<le> stamp_at_max st"
  shows "(fst (accept st s t) \<longleftrightarrow> s \<notin> S \<and> (s \<le> max_seq st \<longrightarrow> unat (max_seq st - s) < 1024)) \<and>
    peer_tracks (snd (accept st s t)) (if fst (accept st s t) then insert s S else S)"
  using accept_in_session [of st S s t] assms by simp

theorem accept_exact_witness:
  "fst (accept (peer_state_new 5 100) 4 100) \<and>
   peer_tracks (snd (accept (peer_state_new 5 100) 4 100)) {4, 5}"
  using accept_exact [of "peer_state_new 5 100" "{5}" 4 100] peer_tracks_new [of 5 100]
  by (simp add: peer_state_new_def split: if_splits)

text \<open>C15: the sixteen-word bitmap refines a set of offsets. On every well-formed bitmap the
  operations keep it well formed, \<open>is_marked\<close> is membership, \<open>mark\<close> is insertion, and the
  in-place loops of \<open>advance\<close> shift the whole set by the distance, drop what leaves the window
  and mark the new high-water number.\<close>

theorem bitmap_refines_set:
  assumes "bitmap_ok bm"
  shows "marked (advance bm delta) = insert 0 (shifted (unat delta) (marked bm)) \<and>
    bitmap_ok (advance bm delta) \<and>
    (unat off < 1024 \<longrightarrow>
      (is_marked bm off \<longleftrightarrow> unat off \<in> marked bm) \<and>
      marked (mark bm off) = insert (unat off) (marked bm) \<and> bitmap_ok (mark bm off))"
  using assms bw.advance [of bm delta] bw.mark [of bm off] bw.query [of bm off] by simp

theorem bitmap_refines_set_witness:
  "marked (advance bitmap_new 70) = {0, 70} \<and> bitmap_ok (mark bitmap_new 1023)"
  using bitmap_refines_set [OF bitmap_ok_new, of 70 1023]
  by (auto simp: marked_new shifted_def)

text \<open>The sender table never outgrows its bound and keeps one entry per sender, whatever
  datagram it is shown; a stale datagram changes nothing.\<close>

theorem sender_table_bounded:
  assumes "keys_distinct (peers f)" "length (peers f) \<le> max_senders f"
    and "check_and_record f k s t now = (ok, f')"
  shows "keys_distinct (peers f') \<and> length (peers f') \<le> max_senders f' \<and>
    (enabled f \<and> \<not> is_fresh t now (freshness_window f) \<longrightarrow> \<not> ok \<and> f' = f)"
  using assms keys_distinct_check [OF assms(1)] length_check [OF assms(2)]
  by (auto simp: check_and_record_def check_and_record_at_def split_beta split: if_splits)

theorem sender_table_bounded_witness:
  "length (peers (snd (check_and_record (with_max_senders (replay_filter_new 300 True) 1)
     (7 :: nat) 1 10 10))) \<le> 1"
  using sender_table_bounded [of "with_max_senders (replay_filter_new 300 True) 1" "7 :: nat" 1 10 10]
  by (simp add: with_max_senders_def replay_filter_new_def check_and_record_def
      check_and_record_at_def split_beta)

text \<open>C24: a sender that is still within the freshness window is never evicted or altered by
  another sender's datagrams, even when the table is full.\<close>

theorem live_sender_untouched:
  assumes "keys_distinct (vpeers f)" "k' \<noteq> k" "map_of (vpeers f) k' = Some st"
    and "entry_live now (vfreshness_window f) st"
  shows "map_of (vpeers (snd (verified_check_and_record f k s t now))) k' = Some st"
  using check_other_live [OF assms]
  by (simp add: verified_check_and_record_def split_beta)

theorem live_sender_untouched_witness:
  "map_of (vpeers (snd (verified_check_and_record
     \<lparr>vpeers = [(1 :: nat, peer_state_new 5 100)], vfreshness_window = 300, vmax_senders = 1\<rparr>
     2 9 150 160))) 1 = Some (peer_state_new 5 100)"
  by (rule live_sender_untouched)
    (simp_all add: peer_state_new_def entry_live_def age_relative_to_def saturating_sub_def)

text \<open>The guarantee does not extend over a sender restart. After a restart is recognised
  below the old high-water number, a datagram of the earlier session that lies under the new
  number is accepted a second time while its stamp is still fresh.\<close>

theorem restart_reopens_old_numbers:
  "filter_run (replay_filter_new 300000 True)
     [(7 :: nat, 3, 100, 1000), (7, 10, 100, 1000), (7, 5, 200, 1000), (7, 3, 100, 1000)]
   = [(7, 3, 100), (7, 10, 100), (7, 5, 200), (7, 3, 100)]"
proof -
  have "\<not> is_marked bitmap_new 2"
    using marked_iff_is_marked [of 2 bitmap_new] by (simp add: marked_new)
  then show ?thesis
    by (simp add: check_and_record_def check_and_record_at_def check_and_record_sender_def
        admit_new_sender_def replay_filter_new_def usize_max_def is_fresh_def age_relative_to_def
        saturating_sub_def entry_live_def peer_state_new_def accept_def reset_def WINDOW_SIZE_def)
qed

end
