(* ===== verification/Auth.thy ===== *)
theory Auth
  imports Replay
begin

text \<open>
  Datagram authentication (\<open>gossip/src/auth.rs\<close> and \<open>gossip/src/auth/\<close>): cluster keys and their
  hexadecimal form, rotation sets, the three framings of \<open>seal\<close> and the checks of \<open>open\<close>,
  \<open>check_version\<close> and \<open>verify_replay\<close>. The keyed hash and the AEAD cipher are third-party code and
  are parameters; what is used of them is stated as a named hypothesis.
\<close>

section \<open>Constants and data\<close>

definition TAG_LEN :: nat where "TAG_LEN = 32"
definition KEY_LEN :: nat where "KEY_LEN = 32"
definition VERSION_LEN :: nat where "VERSION_LEN = 1"
definition WIRE_VERSION :: byte where "WIRE_VERSION = 4"
definition AEAD_NONCE_LEN :: nat where "AEAD_NONCE_LEN = 24"
definition AEAD_TAG_LEN :: nat where "AEAD_TAG_LEN = 16"

lemmas auth_consts = TAG_LEN_def KEY_LEN_def VERSION_LEN_def AEAD_NONCE_LEN_def AEAD_TAG_LEN_def
  REPLAY_HEADER_LEN_def

type_synonym ClusterKey = "32 arr"

datatype ClusterKeyError = WrongHexLength nat | InvalidHexDigit | WrongByteLength nat

record Keys =
  primary :: ClusterKey
  also_accept :: "ClusterKey list"

datatype Authenticator = Disabled | Enabled Keys | Encrypted Keys

text \<open>
  The third-party primitives: BLAKE3's keyed hash and XChaCha20-Poly1305, whose \<open>encrypt\<close> returns
  the ciphertext with its tag. The nonce of an encryption is an input of the model.
\<close>

record Crypto =
  keyed_hash :: "ClusterKey \<Rightarrow> bytes \<Rightarrow> 32 arr"
  aead_encrypt :: "ClusterKey \<Rightarrow> 24 arr \<Rightarrow> bytes \<Rightarrow> bytes"
  aead_decrypt :: "ClusterKey \<Rightarrow> 24 arr \<Rightarrow> bytes \<Rightarrow> bytes option"

text \<open>The typestate of a payload is the type of the function that receives it.\<close>

record Payload =
  pl_bytes :: bytes
  pl_seq :: Seq
  pl_stamp :: Stamp

section \<open>Cluster keys\<close>

text \<open>
  A string is the list of its UTF-8 bytes. Slicing it inside a character panics, which is the
  second outcome of a parse.
\<close>

datatype 'a outcome = Returns 'a | Panics

definition is_char_boundary :: "bytes \<Rightarrow> nat \<Rightarrow> bool" where
  "is_char_boundary str i \<longleftrightarrow> i = 0 \<or> i = length str \<or> (i < length str \<and> (str ! i < 128 \<or> 192 \<le> str ! i))"

definition hex_digit :: "byte \<Rightarrow> nat option" where
  "hex_digit c =
    (if 48 \<le> c \<and> c \<le> 57 then Some (unat c - 48)
     else if 97 \<le> c \<and> c \<le> 102 then Some (unat c - 87)
     else if 65 \<le> c \<and> c \<le> 70 then Some (unat c - 55) else None)"

text \<open>\<open>u8::from_str_radix(s, 16)\<close> of the standard library: one leading plus sign is skipped, an
  empty or sign-only string, a foreign character and a value above 255 are errors.\<close>

fun radix16_digits :: "nat \<Rightarrow> bytes \<Rightarrow> byte option" where
  "radix16_digits acc [] = Some (of_nat acc)"
| "radix16_digits acc (c # cs) =
    (case hex_digit c of
       None \<Rightarrow> None
     | Some d \<Rightarrow> if 255 < acc * 16 + d then None else radix16_digits (acc * 16 + d) cs)"

definition u8_from_str_radix16 :: "bytes \<Rightarrow> byte option" where
  "u8_from_str_radix16 str =
    (case str of
       [] \<Rightarrow> None
     | c # cs \<Rightarrow>
        if cs = [] \<and> (c = 43 \<or> c = 45) then None
        else if c = 43 then radix16_digits 0 cs else radix16_digits 0 str)"

fun from_hex_loop :: "nat \<Rightarrow> nat \<Rightarrow> bytes \<Rightarrow> (ClusterKeyError + bytes) outcome" where
  "from_hex_loop 0 i hex = Returns (Inr [])"
| "from_hex_loop (Suc n) i hex =
    (if \<not> (is_char_boundary hex (i * 2) \<and> is_char_boundary hex (i * 2 + 2)) then Panics
     else case u8_from_str_radix16 (take 2 (drop (i * 2) hex)) of
       None \<Rightarrow> Returns (Inl InvalidHexDigit)
     | Some b \<Rightarrow>
        (case from_hex_loop n (i + 1) hex of
           Returns (Inr bs) \<Rightarrow> Returns (Inr (b # bs))
         | r \<Rightarrow> r))"

definition from_hex :: "bytes \<Rightarrow> (ClusterKeyError + bytes) outcome" where
  "from_hex hex =
    (if length hex \<noteq> KEY_LEN * 2 then Returns (Inl (WrongHexLength (length hex)))
     else from_hex_loop KEY_LEN 0 hex)"

definition cluster_key_try_from :: "bytes \<Rightarrow> ClusterKeyError + ClusterKey" where
  "cluster_key_try_from bs =
    (case arr_of bs of Some k \<Rightarrow> Inr k | None \<Rightarrow> Inl (WrongByteLength (length bs)))"

definition keys_single :: "ClusterKey \<Rightarrow> Keys" where
  "keys_single key = \<lparr>primary = key, also_accept = []\<rparr>"

definition keys_iter :: "Keys \<Rightarrow> ClusterKey list" where
  "keys_iter ks = primary ks # also_accept ks"

text \<open>The \<open>encryption\<close> Cargo feature is the argument \<open>feature\<close>; \<open>None\<close> is its error.\<close>

definition with_rotation :: "bool \<Rightarrow> Keys option \<Rightarrow> bool \<Rightarrow> Authenticator option" where
  "with_rotation feature keys encrypt =
    (case keys of
       None \<Rightarrow> Some Disabled
     | Some ks \<Rightarrow> if \<not> encrypt then Some (Enabled ks) else if feature then Some (Encrypted ks) else None)"

definition authenticator_new :: "bool \<Rightarrow> ClusterKey option \<Rightarrow> bool \<Rightarrow> Authenticator option" where
  "authenticator_new feature key encrypt = with_rotation feature (map_option keys_single key) encrypt"

fun overhead :: "Authenticator \<Rightarrow> nat" where
  "overhead Disabled = VERSION_LEN"
| "overhead (Enabled _) = TAG_LEN + VERSION_LEN + REPLAY_HEADER_LEN"
| "overhead (Encrypted _) = AEAD_NONCE_LEN + VERSION_LEN + REPLAY_HEADER_LEN + AEAD_TAG_LEN"

section \<open>Sealing\<close>

definition mac_tag :: "Crypto \<Rightarrow> ClusterKey \<Rightarrow> bytes \<Rightarrow> 32 arr" where
  "mac_tag c key msg = keyed_hash c key msg"

definition mac_verify :: "Crypto \<Rightarrow> ClusterKey \<Rightarrow> bytes \<Rightarrow> bytes \<Rightarrow> bool" where
  "mac_verify c key msg tag =
    (case arr_of tag of None \<Rightarrow> False | Some t \<Rightarrow> keyed_hash c key msg = t)"

definition aead_seal :: "Crypto \<Rightarrow> 24 arr \<Rightarrow> ClusterKey \<Rightarrow> bytes \<Rightarrow> bytes" where
  "aead_seal c nonce key payload = arr_bytes nonce @ aead_encrypt c key nonce payload"

definition aead_open :: "Crypto \<Rightarrow> ClusterKey \<Rightarrow> bytes \<Rightarrow> bytes option" where
  "aead_open c key datagram =
    (if length datagram < AEAD_NONCE_LEN + AEAD_TAG_LEN then None
     else case arr_of (take AEAD_NONCE_LEN datagram) of
       None \<Rightarrow> None
     | Some nonce \<Rightarrow> aead_decrypt c key nonce (drop AEAD_NONCE_LEN datagram))"

definition encode_replay_header :: "Seq \<Rightarrow> Stamp \<Rightarrow> bytes" where
  "encode_replay_header seq stamp = u64_to_le seq @ u64_to_le stamp"

definition decode_replay_header :: "bytes \<Rightarrow> (Seq \<times> Stamp \<times> bytes) option" where
  "decode_replay_header data =
    (if length data < REPLAY_HEADER_LEN then None
     else Some (u64_of_le (take 8 data), u64_of_le (take 8 (drop 8 data)), drop REPLAY_HEADER_LEN data))"

fun seal :: "Crypto \<Rightarrow> 24 arr \<Rightarrow> Authenticator \<Rightarrow> Seq \<Rightarrow> Stamp \<Rightarrow> bytes \<Rightarrow> bytes" where
  "seal c nonce Disabled seq stamp payload = WIRE_VERSION # payload"
| "seal c nonce (Enabled keys) seq stamp payload =
    (let protected = encode_replay_header seq stamp @ [WIRE_VERSION] @ payload
     in arr_bytes (mac_tag c (primary keys) protected) @ protected)"
| "seal c nonce (Encrypted keys) seq stamp payload =
    (let plaintext = encode_replay_header seq stamp @ [WIRE_VERSION] @ payload
     in aead_seal c nonce (primary keys) plaintext)"

section \<open>Opening\<close>

fun find_map :: "('a \<Rightarrow> 'b option) \<Rightarrow> 'a list \<Rightarrow> 'b option" where
  "find_map f [] = None"
| "find_map f (x # xs) = (case f x of Some y \<Rightarrow> Some y | None \<Rightarrow> find_map f xs)"

definition payload_of_header :: "bytes \<Rightarrow> Payload option" where
  "payload_of_header data =
    (case decode_replay_header data of
       None \<Rightarrow> None
     | Some (seq, stamp, messages) \<Rightarrow> Some \<lparr>pl_bytes = messages, pl_seq = seq, pl_stamp = stamp\<rparr>)"

fun open_datagram :: "Crypto \<Rightarrow> Authenticator \<Rightarrow> bytes \<Rightarrow> Payload option" where
  "open_datagram c Disabled datagram = Some \<lparr>pl_bytes = datagram, pl_seq = 0, pl_stamp = 0\<rparr>"
| "open_datagram c (Enabled keys) datagram =
    (if length datagram < TAG_LEN + REPLAY_HEADER_LEN then None
     else let tag = take TAG_LEN datagram; protected = drop TAG_LEN datagram
          in if \<not> list_ex (\<lambda>key. mac_verify c key protected tag) (keys_iter keys) then None
             else payload_of_header protected)"
| "open_datagram c (Encrypted keys) datagram =
    (case find_map (\<lambda>key. aead_open c key datagram) (keys_iter keys) of
       None \<Rightarrow> None
     | Some plaintext \<Rightarrow> payload_of_header plaintext)"

definition check_version :: "Payload \<Rightarrow> byte + Payload" where
  "check_version p =
    (let version = (case pl_bytes p of [] \<Rightarrow> 0 | b # _ \<Rightarrow> b)
     in if version \<noteq> WIRE_VERSION then Inl version
        else Inr (p\<lparr>pl_bytes := drop VERSION_LEN (pl_bytes p)\<rparr>))"

definition verify_replay ::
  "'k ReplayFilter \<Rightarrow> Payload \<Rightarrow> 'k \<Rightarrow> Stamp \<Rightarrow> Payload option \<times> 'k ReplayFilter" where
  "verify_replay f p sender now =
    (let (ok, f') = check_and_record f sender (pl_seq p) (pl_stamp p) now
     in (if ok then Some p else None, f'))"

definition verify_replay_from_signed_envelope ::
  "'k VerifiedPeerReplayFilter \<Rightarrow> Payload \<Rightarrow> 'k \<Rightarrow> Stamp \<Rightarrow> Payload option \<times> 'k VerifiedPeerReplayFilter" where
  "verify_replay_from_signed_envelope f p sender now =
    (let (ok, f') = verified_check_and_record f sender (pl_seq p) (pl_stamp p) now
     in (if ok then Some p else None, f'))"

section \<open>Replay headers\<close>

lemma length_replay_header [simp, len_simps]: "length (encode_replay_header s t) = REPLAY_HEADER_LEN"
  by (simp add: encode_replay_header_def REPLAY_HEADER_LEN_def)

lemma decode_encode_header [simp]:
  "decode_replay_header (encode_replay_header s t @ rest) = Some (s, t, rest)"
  by (simp add: decode_replay_header_def encode_replay_header_def REPLAY_HEADER_LEN_def)

lemma decode_header_Some:
  assumes "decode_replay_header data = Some (s, t, rest)"
  shows "data = encode_replay_header s t @ rest"
proof -
  have len: "16 \<le> length data" and eqs: "s = u64_of_le (take 8 data)"
    "t = u64_of_le (take 8 (drop 8 data))" "rest = drop 16 data"
    using assms by (auto simp: decode_replay_header_def REPLAY_HEADER_LEN_def split: if_splits)
  have "take 8 (drop 8 data) @ drop 16 data = drop 8 data"
    using append_take_drop_id [of 8 "drop 8 data"] by simp
  then have "take 8 data @ take 8 (drop 8 data) @ drop 16 data = data" by simp
  then show ?thesis using len by (simp add: eqs encode_replay_header_def)
qed

lemma payload_of_header_encode [simp]:
  "payload_of_header (encode_replay_header s t @ rest) =
    Some \<lparr>pl_bytes = rest, pl_seq = s, pl_stamp = t\<rparr>"
  by (simp add: payload_of_header_def)

lemma payload_of_header_Some:
  "payload_of_header data = Some p \<longleftrightarrow> data = encode_replay_header (pl_seq p) (pl_stamp p) @ pl_bytes p"
  by (cases p) (auto simp: payload_of_header_def split: option.splits dest: decode_header_Some)

section \<open>Sealing and opening\<close>

text \<open>What the sources rely on of the cipher: decryption inverts encryption under the same key and
  nonce, the ciphertext carries a 16-byte tag, and a ciphertext does not decrypt under another key of the cluster's rotation set.\<close>

definition aead_inverse :: "Crypto \<Rightarrow> bool" where
  "aead_inverse c \<longleftrightarrow> (\<forall>k n p. aead_decrypt c k n (aead_encrypt c k n p) = Some p)"

definition aead_tag_length :: "Crypto \<Rightarrow> bool" where
  "aead_tag_length c \<longleftrightarrow> (\<forall>k n p. length (aead_encrypt c k n p) = length p + AEAD_TAG_LEN)"

definition aead_key_bound :: "Crypto \<Rightarrow> ClusterKey set \<Rightarrow> bool" where
  "aead_key_bound c K \<longleftrightarrow>
    (\<forall>k\<in>K. \<forall>k'\<in>K. k' \<noteq> k \<longrightarrow> (\<forall>n p. aead_decrypt c k' n (aead_encrypt c k n p) = None))"

lemma mac_verify_iff: "mac_verify c k msg tag \<longleftrightarrow> tag = arr_bytes (keyed_hash c k msg)"
  by (auto simp: mac_verify_def arr_of_eq_Some split: option.splits)

lemma aead_open_seal:
  assumes "aead_inverse c" "aead_tag_length c"
  shows "aead_open c k (aead_seal c n k p) = Some p"
  using assms
  by (simp add: aead_open_def aead_seal_def auth_consts aead_inverse_def aead_tag_length_def)

lemma aead_open_other:
  assumes "aead_key_bound c K" "k \<in> K" "k' \<in> K" "k' \<noteq> k"
  shows "aead_open c k' (aead_seal c n k p) = None"
  using assms by (simp add: aead_open_def aead_seal_def auth_consts aead_key_bound_def)

lemma find_map_first:
  assumes "x \<in> set xs" "f x = Some y" "\<And>u. u \<in> set xs \<Longrightarrow> u \<noteq> x \<Longrightarrow> f u = None"
  shows "find_map f xs = Some y"
  using assms by (induction xs) (fastforce split: option.split)+

lemma find_map_aead:
  assumes "aead_inverse c" "aead_tag_length c" "aead_key_bound c (set ks)" "k \<in> set ks"
  shows "find_map (\<lambda>key. aead_open c key (aead_seal c n k p)) ks = Some p"
  using assms by (intro find_map_first [of k]) (simp_all add: aead_open_seal aead_open_other)

lemma check_version_ok [simp]:
  "check_version \<lparr>pl_bytes = WIRE_VERSION # m, pl_seq = s, pl_stamp = t\<rparr> =
    Inr \<lparr>pl_bytes = m, pl_seq = s, pl_stamp = t\<rparr>"
  by (simp add: check_version_def VERSION_LEN_def)

definition same_mode :: "Authenticator \<Rightarrow> Authenticator \<Rightarrow> bool" where
  "same_mode a b \<longleftrightarrow>
    (case (a, b) of
       (Disabled, Disabled) \<Rightarrow> True
     | (Enabled ks, Enabled ks') \<Rightarrow> primary ks \<in> set (keys_iter ks')
     | (Encrypted ks, Encrypted ks') \<Rightarrow> primary ks \<in> set (keys_iter ks')
     | _ \<Rightarrow> False)"

definition stamped :: "Authenticator \<Rightarrow> Seq \<Rightarrow> Stamp \<Rightarrow> bytes \<Rightarrow> Payload" where
  "stamped a s t m =
    (if a = Disabled then \<lparr>pl_bytes = m, pl_seq = 0, pl_stamp = 0\<rparr>
     else \<lparr>pl_bytes = m, pl_seq = s, pl_stamp = t\<rparr>)"

lemma open_seal_mac:
  assumes "primary ks \<in> set (keys_iter ks')"
  shows "open_datagram c (Enabled ks') (seal c n (Enabled ks) s t m) =
    Some \<lparr>pl_bytes = WIRE_VERSION # m, pl_seq = s, pl_stamp = t\<rparr>"
  using assms by (auto simp: auth_consts Let_def mac_verify_iff mac_tag_def list_ex_iff)

lemma open_seal_aead:
  assumes "aead_inverse c" "aead_tag_length c" "aead_key_bound c (set (keys_iter ks'))"
    "primary ks \<in> set (keys_iter ks')"
  shows "open_datagram c (Encrypted ks') (seal c n (Encrypted ks) s t m) =
    Some \<lparr>pl_bytes = WIRE_VERSION # m, pl_seq = s, pl_stamp = t\<rparr>"
  using find_map_aead [OF assms] by (simp add: Let_def)

lemma open_seal:
  assumes "same_mode a b"
    and "\<And>ks. b = Encrypted ks \<Longrightarrow>
      aead_inverse c \<and> aead_tag_length c \<and> aead_key_bound c (set (keys_iter ks))"
  shows "map_option check_version (open_datagram c b (seal c n a s t m)) = Some (Inr (stamped a s t m))"
proof (cases a)
  case Disabled
  then show ?thesis using assms(1) by (cases b) (auto simp: same_mode_def stamped_def)
next
  case (Enabled ks)
  then show ?thesis
    using assms(1) open_seal_mac by (cases b) (auto simp: same_mode_def stamped_def)
next
  case (Encrypted ks)
  then show ?thesis
    using assms open_seal_aead by (cases b) (auto simp: same_mode_def stamped_def)
qed

lemma length_seal [len_simps]:
  assumes "\<And>ks. a = Encrypted ks \<Longrightarrow> aead_tag_length c"
  shows "length (seal c n a s t m) = length m + overhead a"
  using assms
  by (cases a) (auto simp: auth_consts Let_def aead_seal_def aead_tag_length_def)

section \<open>Hexadecimal keys\<close>

definition hex_char :: "nat \<Rightarrow> byte" where
  "hex_char d = (if d < 10 then of_nat (48 + d) else of_nat (87 + d))"

definition hex_pair :: "byte \<Rightarrow> bytes" where
  "hex_pair b = [hex_char (unat b div 16), hex_char (unat b mod 16)]"

definition to_hex :: "bytes \<Rightarrow> bytes" where
  "to_hex bs = concat (map hex_pair bs)"

lemma less_16_cases:
  fixes d :: nat
  assumes "d < 16"
  shows "d \<in> {0, 1, 2, 3, 4, 5, 6, 7, 8, 9, 10, 11, 12, 13, 14, 15}"
  using assms unfolding insert_iff empty_iff by presburger

lemma hex_char_facts:
  assumes "d < 16"
  shows "hex_digit (hex_char d) = Some d" "hex_char d < 128" "hex_char d \<noteq> 43" "hex_char d \<noteq> 45"
  using less_16_cases [OF assms] unfolding insert_iff empty_iff
  by (elim disjE FalseE; simp add: hex_digit_def hex_char_def)+

lemma byte_div_16 [simp]: "unat (b :: byte) div 16 < 16"
  using byte_less_256 [of b] by linarith

lemma hex_pair_parses: "u8_from_str_radix16 (hex_pair b) = Some b"
proof -
  have hi: "unat b div 16 < 16" and lo: "unat b mod 16 < 16" by simp_all
  have "unat b div 16 * 16 + unat b mod 16 = unat b" by simp
  moreover have "\<not> 255 < unat b" "\<not> 255 < unat b div 16"
    using byte_less_256 [of b] by linarith+
  ultimately show ?thesis
    using hex_char_facts [OF hi] hex_char_facts [OF lo]
    by (simp add: u8_from_str_radix16_def hex_pair_def)
qed

definition parsed_pair :: "bytes \<Rightarrow> byte \<Rightarrow> bool" where
  "parsed_pair p b \<longleftrightarrow> length p = 2 \<and> (\<forall>c\<in>set p. c < 128) \<and> u8_from_str_radix16 p = Some b"

lemma parsed_hex_pair: "parsed_pair (hex_pair b) b"
  by (auto simp: parsed_pair_def hex_pair_parses) (auto simp: hex_pair_def intro!: hex_char_facts(2))

lemma length_pairs: "list_all2 parsed_pair ps bs \<Longrightarrow> length (concat ps) = 2 * length bs"
  by (induction rule: list_all2_induct) (simp_all add: parsed_pair_def)

lemma pairs_boundary:
  assumes "list_all2 parsed_pair ps bs" "i \<le> length (concat ps)"
  shows "is_char_boundary (concat ps) i"
proof -
  have "c < 128" if "c \<in> set (concat ps)" for c
    using assms(1) that by (induction rule: list_all2_induct) (auto simp: parsed_pair_def)
  then show ?thesis using assms(2) nth_mem [of i "concat ps"]
    by (auto simp: is_char_boundary_def order.order_iff_strict)
qed

lemma take_pairs:
  assumes "list_all2 parsed_pair ps bs" "i < length bs"
  shows "u8_from_str_radix16 (take 2 (drop (i * 2) (concat ps))) = Some (bs ! i)"
  using assms
proof (induction ps bs arbitrary: i rule: list_all2_induct)
  case (Cons p ps b bs)
  then show ?case by (cases i) (simp_all add: parsed_pair_def)
qed simp

lemma from_hex_loop_pairs:
  assumes "list_all2 parsed_pair ps bs"
  shows "i + n = length bs \<Longrightarrow> from_hex_loop n i (concat ps) = Returns (Inr (drop i bs))"
proof (induction n arbitrary: i)
  case (Suc n)
  then have "is_char_boundary (concat ps) (i * 2)" "is_char_boundary (concat ps) (i * 2 + 2)"
    using length_pairs [OF assms] by (auto intro!: pairs_boundary [OF assms])
  moreover have "drop i bs = bs ! i # drop (Suc i) bs" "i < length bs"
    using Suc.prems by (auto simp: Cons_nth_drop_Suc)
  ultimately show ?case using Suc by (simp add: take_pairs [OF assms])
qed simp

lemma from_hex_pairs:
  assumes "list_all2 parsed_pair ps bs" "length bs = 32"
  shows "from_hex (concat ps) = Returns (Inr bs)"
  using from_hex_loop_pairs [OF assms(1), of 0 32] length_pairs [OF assms(1)] assms(2)
  by (simp add: from_hex_def KEY_LEN_def)

section \<open>The interface of a datagram channel\<close>

text \<open>
  What the senders and receivers of the runtime rely on: a sealed payload opens to itself on the
  other side and grows by a fixed number of bytes.
\<close>

locale datagram_channel =
  fixes wrap :: "Seq \<Rightarrow> Stamp \<Rightarrow> bytes \<Rightarrow> bytes"
    and unwrap :: "bytes \<Rightarrow> Payload option"
    and ovh :: nat
  assumes unwrap_wrap: "\<exists>p q. unwrap (wrap s t m) = Some p \<and> check_version p = Inr q \<and> pl_bytes q = m"
    and wrap_length: "length (wrap s t m) = length m + ovh"
begin

lemma wrap_inject: "wrap s t m = wrap s' t' m' \<Longrightarrow> m = m'"
  using unwrap_wrap [of s t m] unwrap_wrap [of s' t' m'] by auto

lemma wrap_fits: "length m + ovh \<le> mtu \<longleftrightarrow> length (wrap s t m) \<le> mtu"
  by (simp add: wrap_length)

end

interpretation plain_channel: datagram_channel "seal c n Disabled" "open_datagram c Disabled"
  "overhead Disabled"
  by unfold_locales (simp_all add: VERSION_LEN_def)

interpretation mac_channel: datagram_channel "seal c n (Enabled ks)" "open_datagram c (Enabled ks)"
  "overhead (Enabled ks)"
proof unfold_locales
  have "primary ks \<in> set (keys_iter ks)" by (simp add: keys_iter_def)
  from open_seal_mac [OF this] show "\<exists>p q. open_datagram c (Enabled ks) (seal c n (Enabled ks) s t m) = Some p \<and>
      check_version p = Inr q \<and> pl_bytes q = m" for s t m
    by (simp del: seal.simps open_datagram.simps)
  show "length (seal c n (Enabled ks) s t m) = length m + overhead (Enabled ks)" for s t m
    by (rule length_seal) simp
qed

section \<open>Properties\<close>

text \<open>C11: in every mode a sealed datagram opens and passes the version check on a receiver that
  accepts the sender's primary key, at any position of its rotation set, and yields the payload
  with the sequence number and stamp it was sealed with (both zero in unauthenticated mode).\<close>

theorem seal_open_roundtrip:
  assumes "same_mode a b"
    and "\<And>ks. b = Encrypted ks \<Longrightarrow>
      aead_inverse c \<and> aead_tag_length c \<and> aead_key_bound c (set (keys_iter ks))"
  shows "map_option check_version (open_datagram c b (seal c n a s t m)) = Some (Inr (stamped a s t m))"
  using assms by (rule open_seal)

text \<open>A cipher that satisfies the hypotheses for keys that differ in their first byte: the tag
  repeats that byte.\<close>

definition demo_crypto :: Crypto where
  "demo_crypto =
    \<lparr>keyed_hash = \<lambda>k m. k,
     aead_encrypt = \<lambda>k n p. p @ replicate 16 (arr_bytes k ! 0),
     aead_decrypt = \<lambda>k n ct.
       if drop (length ct - 16) ct = replicate 16 (arr_bytes k ! 0)
       then Some (take (length ct - 16) ct) else None\<rparr>"

definition demo_key :: "byte \<Rightarrow> ClusterKey" where
  "demo_key b = Abs_arr (replicate 32 b)"

lemma arr_bytes_demo_key [simp]: "arr_bytes (demo_key b) = replicate 32 b"
  by (simp add: demo_key_def Abs_arr_inverse)

lemma demo_crypto_laws:
  "aead_inverse demo_crypto" "aead_tag_length demo_crypto"
  "aead_key_bound demo_crypto {demo_key 1, demo_key 2}"
  by (auto simp: aead_inverse_def aead_tag_length_def aead_key_bound_def demo_crypto_def auth_consts)

theorem seal_open_roundtrip_witness:
  "map_option check_version
     (open_datagram demo_crypto (Encrypted \<lparr>primary = demo_key 2, also_accept = [demo_key 1]\<rparr>)
       (seal demo_crypto arr_zero (Encrypted (keys_single (demo_key 1))) 9 100 [1, 2, 3])) =
   Some (Inr \<lparr>pl_bytes = [1, 2, 3], pl_seq = 9, pl_stamp = 100\<rparr>)"
  using seal_open_roundtrip [of "Encrypted (keys_single (demo_key 1))"
      "Encrypted \<lparr>primary = demo_key 2, also_accept = [demo_key 1]\<rparr>" demo_crypto arr_zero 9 100 "[1, 2, 3]"]
    demo_crypto_laws
  by (simp add: same_mode_def keys_iter_def keys_single_def stamped_def insert_commute)

text \<open>C12: an authenticated receiver accepts exactly the datagrams whose leading tag is the keyed
  hash, under one of its keys, of everything that follows, and reads the sequence number, stamp and
  message bytes from that protected part.\<close>

theorem open_authentic:
  "open_datagram c (Enabled ks) d = Some p \<longleftrightarrow>
    (\<exists>k\<in>set (keys_iter ks).
       d = arr_bytes (keyed_hash c k (encode_replay_header (pl_seq p) (pl_stamp p) @ pl_bytes p)) @
           encode_replay_header (pl_seq p) (pl_stamp p) @ pl_bytes p)"
proof
  assume "open_datagram c (Enabled ks) d = Some p"
  then obtain k where "k \<in> set (keys_iter ks)" "take TAG_LEN d = arr_bytes (keyed_hash c k (drop TAG_LEN d))"
    "drop TAG_LEN d = encode_replay_header (pl_seq p) (pl_stamp p) @ pl_bytes p"
    by (auto simp: Let_def payload_of_header_Some list_ex_iff mac_verify_iff split: if_splits)
  then show "\<exists>k\<in>set (keys_iter ks).
       d = arr_bytes (keyed_hash c k (encode_replay_header (pl_seq p) (pl_stamp p) @ pl_bytes p)) @
           encode_replay_header (pl_seq p) (pl_stamp p) @ pl_bytes p"
    by (metis append_take_drop_id)
next
  assume "\<exists>k\<in>set (keys_iter ks).
       d = arr_bytes (keyed_hash c k (encode_replay_header (pl_seq p) (pl_stamp p) @ pl_bytes p)) @
           encode_replay_header (pl_seq p) (pl_stamp p) @ pl_bytes p"
  then show "open_datagram c (Enabled ks) d = Some p"
    by (auto simp: auth_consts Let_def list_ex_iff mac_verify_iff)
qed

text \<open>Parsing the hexadecimal form of a key gives the key back.\<close>

theorem from_hex_roundtrip: "from_hex (to_hex (arr_bytes (k :: ClusterKey))) = Returns (Inr (arr_bytes k))"
  unfolding to_hex_def
  by (rule from_hex_pairs) (auto simp: list_all2_conv_all_nth parsed_hex_pair)

text \<open>The parser is laxer than its documentation. A plus sign is taken for the first digit of
  a pair, so the 64 characters \<open>+f+f...\<close> are a key, and a two-byte character that straddles a pair
  makes the parser panic instead of returning an error.\<close>

theorem from_hex_lax:
  "from_hex (concat (replicate 32 [43, 102])) = Returns (Inr (replicate 32 15)) \<and>
   from_hex (48 # 195 # 169 # replicate 61 48) = Panics"
proof
  have "parsed_pair [43, 102] 15"
    by (simp add: parsed_pair_def u8_from_str_radix16_def hex_digit_def)
  then show "from_hex (concat (replicate 32 [43, 102])) = Returns (Inr (replicate 32 15))"
    by (intro from_hex_pairs) (auto simp: list_all2_conv_all_nth)
  let ?h = "48 # 195 # 169 # replicate 61 48"
  have "\<not> is_char_boundary ?h 2"
    by (simp add: is_char_boundary_def)
  then have "from_hex_loop (Suc 31) 0 ?h = Panics" by (subst from_hex_loop.simps(2)) (simp add: numeral_2_eq_2)
  moreover have "from_hex ?h = from_hex_loop 32 0 ?h" by (simp add: from_hex_def KEY_LEN_def)
  moreover have "Suc 31 = 32" by simp
  ultimately show "from_hex ?h = Panics" by metis
qed

end
