(* ===== verification/Framing.thy ===== *)
theory Framing
  imports Auth
begin

text \<open>
  Application framing above authenticated datagrams (\<open>gossip/src/framing.rs\<close> and
  \<open>gossip/src/framing/reassembly.rs\<close>): complete and fragment frames, and the bounded,
  content-addressed reassembler with its expiry and eviction. BLAKE3 is the parameter \<open>hash\<close>.
\<close>

section \<open>Frames\<close>

definition COMPLETE_TAG :: byte where "COMPLETE_TAG = 0"
definition FRAGMENT_TAG :: byte where "FRAGMENT_TAG = 1"
definition COMPLETE_HEADER_LEN :: nat where "COMPLETE_HEADER_LEN = 1"
definition FRAGMENT_HEADER_LEN :: nat where "FRAGMENT_HEADER_LEN = 41"

lemmas frame_consts = COMPLETE_TAG_def FRAGMENT_TAG_def COMPLETE_HEADER_LEN_def FRAGMENT_HEADER_LEN_def

type_synonym transfer_id = "32 arr"

record ReassemblyLimits =
  max_logical_message_size :: nat
  max_fragments_per_message :: nat
  max_incomplete_transfers_per_peer :: nat
  max_reassembly_bytes_per_peer :: nat
  max_total_reassembly_bytes :: nat
  reassembly_ttl :: duration

datatype ReceiveOutcome = Complete bytes | Pending | Duplicate

datatype FrameError =
    Empty
  | UnknownTag byte
  | TruncatedFragmentHeader
  | EmptyFragment
  | InvalidFragmentBounds
  | LogicalMessageTooLarge
  | TooManyFragments
  | InconsistentMetadata
  | OverlappingFragment
  | HashMismatch
  | ReassemblyCapacity

definition is_limit :: "FrameError \<Rightarrow> bool" where
  "is_limit e \<longleftrightarrow> e \<in> {LogicalMessageTooLarge, TooManyFragments, ReassemblyCapacity}"

record ReceiveReport =
  outcome :: "FrameError + ReceiveOutcome"
  expired_transfers :: nat
  evicted_transfers :: nat
  report_retained_bytes :: nat
  fragment_received :: bool

definition complete_payload_capacity :: "nat \<Rightarrow> nat \<Rightarrow> nat option" where
  "complete_payload_capacity budget auth_overhead =
    checked_sub budget (auth_overhead + COMPLETE_HEADER_LEN)"

definition fragment_payload_capacity :: "nat \<Rightarrow> nat \<Rightarrow> nat option" where
  "fragment_payload_capacity budget auth_overhead =
    checked_sub budget (auth_overhead + FRAGMENT_HEADER_LEN)"

definition write_complete :: "bytes \<Rightarrow> bytes" where
  "write_complete payload = COMPLETE_TAG # payload"

definition transfer_id :: "(bytes \<Rightarrow> 32 arr) \<Rightarrow> bytes \<Rightarrow> transfer_id" where
  "transfer_id hash payload = hash payload"

definition write_fragment :: "transfer_id \<Rightarrow> nat \<Rightarrow> nat \<Rightarrow> bytes \<Rightarrow> FrameError + bytes" where
  "write_fragment tid total_len offset payload =
    (if 2 ^ 32 \<le> total_len then Inl LogicalMessageTooLarge
     else if 2 ^ 32 \<le> offset then Inl InvalidFragmentBounds
     else Inr (FRAGMENT_TAG # arr_bytes tid @ le_bytes 4 total_len @ le_bytes 4 offset @ payload))"

section \<open>Reassembly state\<close>

record Transfer =
  total_len :: nat
  fragments :: "(nat, bytes) kv"
  tr_retained_bytes :: nat
  last_activity :: instant
  last_missing_request :: "instant option"

record PeerTransfers =
  transfers :: "(transfer_id, Transfer) kv"
  peer_retained_bytes :: nat

record 'p Reassembler =
  limits :: ReassemblyLimits
  reasm_peers :: "('p, PeerTransfers) kv"
  total_retained_bytes :: nat

record FragmentInput =
  fi_id :: transfer_id
  fi_total_len :: nat
  fi_offset :: nat
  fi_bytes :: bytes

definition for_identity :: "ReassemblyLimits \<Rightarrow> 'p Reassembler" where
  "for_identity lim = \<lparr>limits = lim, reasm_peers = [], total_retained_bytes = 0\<rparr>"

definition remove_transfer :: "'p Reassembler \<Rightarrow> 'p \<Rightarrow> transfer_id \<Rightarrow> 'p Reassembler" where
  "remove_transfer r peer tid =
    (case map_of (reasm_peers r) peer of
       None \<Rightarrow> r
     | Some state \<Rightarrow>
        let (state', total') =
          (case map_of (transfers state) tid of
             None \<Rightarrow> (state, total_retained_bytes r)
           | Some t \<Rightarrow>
              (state\<lparr>transfers := AList.delete tid (transfers state),
                     peer_retained_bytes := peer_retained_bytes state - tr_retained_bytes t\<rparr>,
               total_retained_bytes r - tr_retained_bytes t))
        in r\<lparr>reasm_peers := (if transfers state' = [] then AList.delete peer (reasm_peers r)
                              else AList.update peer state' (reasm_peers r)),
             total_retained_bytes := total'\<rparr>)"

definition all_transfers :: "'p Reassembler \<Rightarrow> ('p \<times> transfer_id \<times> Transfer) list" where
  "all_transfers r = concat (map (\<lambda>(peer, state). map (\<lambda>(tid, t). (peer, tid, t)) (kv_iter (transfers state))) (kv_iter (reasm_peers r)))"

definition expire :: "'p Reassembler \<Rightarrow> instant \<Rightarrow> nat \<times> 'p Reassembler" where
  "expire r now =
    (let expired = filter (\<lambda>(_, _, t). reassembly_ttl (limits r) \<le> now - last_activity t) (all_transfers r)
     in (length expired, fold (\<lambda>(peer, tid, _) r. remove_transfer r peer tid) expired r))"

definition oldest_for_peer :: "'p Reassembler \<Rightarrow> 'p \<Rightarrow> transfer_id option \<Rightarrow> transfer_id option" where
  "oldest_for_peer r peer exclude =
    (case map_of (reasm_peers r) peer of
       None \<Rightarrow> None
     | Some state \<Rightarrow>
        map_option snd (least (map (\<lambda>(tid, t). (last_activity t, tid))
          (filter (\<lambda>(tid, _). Some tid \<noteq> exclude) (kv_iter (transfers state))))))"

definition oldest_global ::
  "'p::linorder Reassembler \<Rightarrow> ('p \<times> transfer_id) option \<Rightarrow> ('p \<times> transfer_id) option" where
  "oldest_global r exclude =
    map_option snd (least (map (\<lambda>(peer, tid, t). (last_activity t, peer, tid))
      (filter (\<lambda>(peer, tid, _). Some (peer, tid) \<noteq> exclude) (all_transfers r))))"

definition peer_transfer_count :: "'p Reassembler \<Rightarrow> 'p \<Rightarrow> nat" where
  "peer_transfer_count r peer =
    (case map_of (reasm_peers r) peer of None \<Rightarrow> 0 | Some state \<Rightarrow> length (transfers state))"

definition peer_bytes :: "'p Reassembler \<Rightarrow> 'p \<Rightarrow> nat" where
  "peer_bytes r peer =
    (case map_of (reasm_peers r) peer of None \<Rightarrow> 0 | Some state \<Rightarrow> peer_retained_bytes state)"

definition overlaps :: "(nat, bytes) kv \<Rightarrow> nat \<Rightarrow> nat \<Rightarrow> bool" where
  "overlaps frs start stop =
    ((case rev (filter (\<lambda>(o', _). o' < start) frs) of
        [] \<Rightarrow> False
      | (o', bs) # _ \<Rightarrow> start < sat_add o' (length bs))
     \<or> (case filter (\<lambda>(o', _). start \<le> o') frs of [] \<Rightarrow> False | (o', _) # _ \<Rightarrow> o' < stop))"

section \<open>Eviction\<close>

text \<open>The eviction loops end because every victim is a retained transfer.\<close>

definition transfer_count :: "'p Reassembler \<Rightarrow> nat" where
  "transfer_count r = kv_sum (\<lambda>st. length (transfers st)) (reasm_peers r)"

lemma remove_transfer_count:
  assumes "map_of (reasm_peers r) peer = Some st" "map_of (transfers st) tid = Some t"
  shows "transfer_count (remove_transfer r peer tid) < transfer_count r"
proof -
  let ?f = "\<lambda>st. length (transfers st)"
  have less: "length (AList.delete tid (transfers st)) < ?f st"
    using assms(2) by (rule length_delete_less)
  show ?thesis
    using assms less kv_sum_delete_present [OF assms(1), of ?f]
      kv_sum_update_less [OF assms(1), of ?f "st\<lparr>transfers := AList.delete tid (transfers st),
        peer_retained_bytes := peer_retained_bytes st - tr_retained_bytes t\<rparr>"]
    by (simp add: remove_transfer_def transfer_count_def)
qed

lemma oldest_for_peer_Some:
  assumes "oldest_for_peer r peer exclude = Some tid"
  shows "Some tid \<noteq> exclude \<and>
    (\<exists>st t. map_of (reasm_peers r) peer = Some st \<and> map_of (transfers st) tid = Some t)"
  using assms unfolding oldest_for_peer_def
  by (fastforce split: option.splits dest: least_Some simp: kv_iter_map_of)

lemma all_transfers_iff:
  "(peer, tid, t) \<in> set (all_transfers r) \<longleftrightarrow>
    (\<exists>st. map_of (reasm_peers r) peer = Some st \<and> map_of (transfers st) tid = Some t)"
  by (fastforce simp: all_transfers_def kv_iter_map_of)

lemma oldest_global_Some:
  assumes "oldest_global r exclude = Some (peer, tid)"
  shows "Some (peer, tid) \<noteq> exclude \<and>
    (\<exists>st t. map_of (reasm_peers r) peer = Some st \<and> map_of (transfers st) tid = Some t)"
  using assms unfolding oldest_global_def
  by (fastforce dest: least_Some simp: all_transfers_iff)

lemma evict_count_less:
  "oldest_for_peer r peer exclude = Some tid \<Longrightarrow> transfer_count (remove_transfer r peer tid) < transfer_count r"
  "oldest_global r' exclude' = Some (peer', tid') \<Longrightarrow>
     transfer_count (remove_transfer r' peer' tid') < transfer_count r'"
  using oldest_for_peer_Some oldest_global_Some remove_transfer_count by metis+

text \<open>A loop returns whether it made room, the state it leaves and the eviction count.\<close>

function evict_slots ::
  "'p Reassembler \<Rightarrow> 'p \<Rightarrow> transfer_id \<Rightarrow> nat \<Rightarrow> bool \<times> 'p Reassembler \<times> nat" where
  "evict_slots r peer protected evicted =
    (if max_incomplete_transfers_per_peer (limits r) \<le> peer_transfer_count r peer then
       case oldest_for_peer r peer (Some protected) of
         None \<Rightarrow> (False, r, evicted)
       | Some tid \<Rightarrow> evict_slots (remove_transfer r peer tid) peer protected (evicted + 1)
     else (True, r, evicted))"
  by auto
termination
  by (relation "measure (\<lambda>(r, _). transfer_count r)") (auto simp: evict_count_less)

function evict_peer_bytes ::
  "'p Reassembler \<Rightarrow> 'p \<Rightarrow> transfer_id \<Rightarrow> nat \<Rightarrow> nat \<Rightarrow> bool \<times> 'p Reassembler \<times> nat" where
  "evict_peer_bytes r peer protected incoming evicted =
    (if max_reassembly_bytes_per_peer (limits r) < sat_add (peer_bytes r peer) incoming then
       case oldest_for_peer r peer (Some protected) of
         None \<Rightarrow> (False, r, evicted)
       | Some tid \<Rightarrow> evict_peer_bytes (remove_transfer r peer tid) peer protected incoming (evicted + 1)
     else (True, r, evicted))"
  by auto
termination
  by (relation "measure (\<lambda>(r, _). transfer_count r)") (auto simp: evict_count_less)

function evict_total_bytes ::
  "'p::linorder Reassembler \<Rightarrow> 'p \<Rightarrow> transfer_id \<Rightarrow> nat \<Rightarrow> nat \<Rightarrow> bool \<times> 'p Reassembler \<times> nat" where
  "evict_total_bytes r peer protected incoming evicted =
    (if max_total_reassembly_bytes (limits r) < sat_add (total_retained_bytes r) incoming then
       case oldest_global r (Some (peer, protected)) of
         None \<Rightarrow> (False, r, evicted)
       | Some (old_peer, old_id) \<Rightarrow>
           evict_total_bytes (remove_transfer r old_peer old_id) peer protected incoming (evicted + 1)
     else (True, r, evicted))"
  by auto
termination
  by (relation "measure (\<lambda>(r, _). transfer_count r)") (auto simp: evict_count_less)

declare evict_slots.simps [simp del] evict_peer_bytes.simps [simp del] evict_total_bytes.simps [simp del]

definition make_transfer_slot ::
  "'p Reassembler \<Rightarrow> 'p \<Rightarrow> transfer_id \<Rightarrow> nat \<Rightarrow> nat \<Rightarrow> bool \<times> 'p Reassembler \<times> nat" where
  "make_transfer_slot r peer protected incoming evicted =
    (if max_reassembly_bytes_per_peer (limits r) < incoming \<or> max_total_reassembly_bytes (limits r) < incoming
     then (False, r, evicted)
     else evict_slots r peer protected evicted)"

definition make_byte_room ::
  "'p::linorder Reassembler \<Rightarrow> 'p \<Rightarrow> transfer_id \<Rightarrow> nat \<Rightarrow> nat \<Rightarrow> bool \<times> 'p Reassembler \<times> nat" where
  "make_byte_room r peer protected incoming evicted =
    (let (ok, r', evicted') = evict_peer_bytes r peer protected incoming evicted
     in if ok then evict_total_bytes r' peer protected incoming evicted' else (False, r', evicted'))"

section \<open>Accepting a frame\<close>

definition transfer_new :: "nat \<Rightarrow> instant \<Rightarrow> Transfer" where
  "transfer_new len now =
    \<lparr>total_len = len, fragments = [], tr_retained_bytes = 0, last_activity = now,
     last_missing_request = None\<rparr>"

definition or_default :: "PeerTransfers option \<Rightarrow> PeerTransfers" where
  "or_default st = (case st of Some s \<Rightarrow> s | None \<Rightarrow> \<lparr>transfers = [], peer_retained_bytes = 0\<rparr>)"

definition start_transfer :: "'p Reassembler \<Rightarrow> 'p \<Rightarrow> FragmentInput \<Rightarrow> instant \<Rightarrow> 'p Reassembler" where
  "start_transfer r peer fi now =
    (let state = or_default (map_of (reasm_peers r) peer)
     in r\<lparr>reasm_peers := AList.update peer
           (state\<lparr>transfers := AList.update (fi_id fi) (transfer_new (fi_total_len fi) now) (transfers state)\<rparr>)
           (reasm_peers r)\<rparr>)"

definition transfer_insert :: "Transfer \<Rightarrow> FragmentInput \<Rightarrow> instant \<Rightarrow> Transfer" where
  "transfer_insert t fi now =
    t\<lparr>fragments := bt_insert (fi_offset fi) (fi_bytes fi) (fragments t),
      tr_retained_bytes := tr_retained_bytes t + length (fi_bytes fi), last_activity := now\<rparr>"

definition assembled :: "Transfer \<Rightarrow> bytes" where
  "assembled t = concat (map snd (fragments t))"

text \<open>The common tail; the two \<open>expect\<close> calls are \<open>the\<close>.\<close>

definition store_fragment ::
  "(bytes \<Rightarrow> 32 arr) \<Rightarrow> 'p Reassembler \<Rightarrow> 'p \<Rightarrow> FragmentInput \<Rightarrow> instant \<Rightarrow>
    (FrameError + ReceiveOutcome) \<times> 'p Reassembler" where
  "store_fragment hash r peer fi now =
    (let state = the (map_of (reasm_peers r) peer);
         t = transfer_insert (the (map_of (transfers state) (fi_id fi))) fi now;
         state' = state\<lparr>transfers := AList.update (fi_id fi) t (transfers state),
                        peer_retained_bytes := peer_retained_bytes state + length (fi_bytes fi)\<rparr>;
         r' = r\<lparr>reasm_peers := AList.update peer state' (reasm_peers r),
                total_retained_bytes := total_retained_bytes r + length (fi_bytes fi)\<rparr>
     in if tr_retained_bytes t \<noteq> total_len t then (Inr Pending, r')
        else (if hash (assembled t) \<noteq> fi_id fi then Inl HashMismatch else Inr (Complete (assembled t)),
              remove_transfer r' peer (fi_id fi)))"

definition find_transfer :: "'p Reassembler \<Rightarrow> 'p \<Rightarrow> transfer_id \<Rightarrow> Transfer option" where
  "find_transfer r peer tid =
    Option.bind (map_of (reasm_peers r) peer) (\<lambda>state. map_of (transfers state) tid)"

definition touch_transfer :: "'p Reassembler \<Rightarrow> 'p \<Rightarrow> transfer_id \<Rightarrow> instant \<Rightarrow> 'p Reassembler" where
  "touch_transfer r peer tid now =
    (case map_of (reasm_peers r) peer of
       None \<Rightarrow> r
     | Some state \<Rightarrow>
        (case map_of (transfers state) tid of
           None \<Rightarrow> r
         | Some t \<Rightarrow>
            r\<lparr>reasm_peers := AList.update peer
               (state\<lparr>transfers := AList.update tid (t\<lparr>last_activity := now\<rparr>) (transfers state)\<rparr>)
               (reasm_peers r)\<rparr>))"

definition extend_transfer ::
  "(bytes \<Rightarrow> 32 arr) \<Rightarrow> 'p::linorder Reassembler \<Rightarrow> 'p \<Rightarrow> Transfer \<Rightarrow> FragmentInput \<Rightarrow> nat \<Rightarrow> instant \<Rightarrow> nat \<Rightarrow>
    (FrameError + ReceiveOutcome) \<times> 'p Reassembler \<times> nat" where
  "extend_transfer hash r peer existing fi stop now evicted =
    (if total_len existing \<noteq> fi_total_len fi then (Inl InconsistentMetadata, r, evicted)
     else case map_of (fragments existing) (fi_offset fi) of
       Some bs \<Rightarrow>
         if bs = fi_bytes fi then (Inr Duplicate, touch_transfer r peer (fi_id fi) now, evicted)
         else (Inl OverlappingFragment, r, evicted)
     | None \<Rightarrow>
         if overlaps (fragments existing) (fi_offset fi) stop then (Inl OverlappingFragment, r, evicted)
         else if max_fragments_per_message (limits r) \<le> length (fragments existing)
         then (Inl TooManyFragments, r, evicted)
         else (let (ok, r', evicted') = make_byte_room r peer (fi_id fi) (length (fi_bytes fi)) evicted
               in if \<not> ok then (Inl ReassemblyCapacity, r', evicted')
                  else let (res, r'') = store_fragment hash r' peer fi now in (res, r'', evicted')))"

definition begin_transfer ::
  "(bytes \<Rightarrow> 32 arr) \<Rightarrow> 'p::linorder Reassembler \<Rightarrow> 'p \<Rightarrow> FragmentInput \<Rightarrow> instant \<Rightarrow> nat \<Rightarrow>
    (FrameError + ReceiveOutcome) \<times> 'p Reassembler \<times> nat" where
  "begin_transfer hash r peer fi now evicted =
    (let (ok, r1, ev1) = make_transfer_slot r peer (fi_id fi) (length (fi_bytes fi)) evicted
     in if \<not> ok then (Inl ReassemblyCapacity, r1, ev1)
        else let (ok2, r2, ev2) = make_byte_room r1 peer (fi_id fi) (length (fi_bytes fi)) ev1
             in if \<not> ok2 then (Inl ReassemblyCapacity, r2, ev2)
                else let (res, r3) = store_fragment hash (start_transfer r2 peer fi now) peer fi now
                     in (res, r3, ev2))"

definition accept_fragment ::
  "(bytes \<Rightarrow> 32 arr) \<Rightarrow> 'p::linorder Reassembler \<Rightarrow> 'p \<Rightarrow> FragmentInput \<Rightarrow> instant \<Rightarrow> nat \<Rightarrow>
    (FrameError + ReceiveOutcome) \<times> 'p Reassembler \<times> nat" where
  "accept_fragment hash r peer fi now evicted =
    (if fi_bytes fi = [] then (Inl EmptyFragment, r, evicted)
     else if max_logical_message_size (limits r) < fi_total_len fi then (Inl LogicalMessageTooLarge, r, evicted)
     else if max_fragments_per_message (limits r) = 0 then (Inl TooManyFragments, r, evicted)
     else case checked_add (fi_offset fi) (length (fi_bytes fi)) of
       None \<Rightarrow> (Inl InvalidFragmentBounds, r, evicted)
     | Some stop \<Rightarrow>
        if fi_total_len fi < stop then (Inl InvalidFragmentBounds, r, evicted)
        else case find_transfer r peer (fi_id fi) of
          Some existing \<Rightarrow> extend_transfer hash r peer existing fi stop now evicted
        | None \<Rightarrow> begin_transfer hash r peer fi now evicted)"

definition reasm_report ::
  "'p Reassembler \<Rightarrow> (FrameError + ReceiveOutcome) \<Rightarrow> nat \<Rightarrow> nat \<Rightarrow> bool \<Rightarrow> ReceiveReport" where
  "reasm_report r res expired evicted received =
    \<lparr>outcome = res, expired_transfers = expired, evicted_transfers = evicted,
     report_retained_bytes = total_retained_bytes r, fragment_received = received\<rparr>"

definition parse_fragment :: "bytes \<Rightarrow> FragmentInput" where
  "parse_fragment bs =
    \<lparr>fi_id = Abs_arr (take 32 (drop 1 bs)), fi_total_len = le_val (take 4 (drop 33 bs)),
     fi_offset = le_val (take 4 (drop 37 bs)), fi_bytes = drop FRAGMENT_HEADER_LEN bs\<rparr>"

definition reasm_accept ::
  "(bytes \<Rightarrow> 32 arr) \<Rightarrow> 'p::linorder Reassembler \<Rightarrow> 'p \<Rightarrow> Payload \<Rightarrow> instant \<Rightarrow>
    ReceiveReport \<times> 'p Reassembler" where
  "reasm_accept hash r0 peer payload now =
    (let (expired, r) = expire r0 now; bs = pl_bytes payload
     in case bs of
       [] \<Rightarrow> (reasm_report r (Inl Empty) expired 0 False, r)
     | tag # rest \<Rightarrow>
        if tag = COMPLETE_TAG then
          if max_logical_message_size (limits r) < length bs - COMPLETE_HEADER_LEN
          then (reasm_report r (Inl LogicalMessageTooLarge) expired 0 False, r)
          else (reasm_report r (Inr (Complete (drop COMPLETE_HEADER_LEN bs))) expired 0 False, r)
        else if tag \<noteq> FRAGMENT_TAG then (reasm_report r (Inl (UnknownTag tag)) expired 0 False, r)
        else if length bs < FRAGMENT_HEADER_LEN
        then (reasm_report r (Inl TruncatedFragmentHeader) expired 0 True, r)
        else let (res, r', evicted) = accept_fragment hash r peer (parse_fragment bs) now 0
             in (reasm_report r' res expired evicted True, r'))"

section \<open>Fragments of one transfer\<close>

text \<open>Fragments in offset order, non-empty, disjoint and inside \<open>[lo, hi)\<close>.\<close>

fun frag_chain :: "nat \<Rightarrow> (nat, bytes) kv \<Rightarrow> nat \<Rightarrow> bool" where
  "frag_chain lo [] hi \<longleftrightarrow> lo \<le> hi"
| "frag_chain lo ((o', b) # fs) hi \<longleftrightarrow> lo \<le> o' \<and> b \<noteq> [] \<and> frag_chain (o' + length b) fs hi"

lemma frag_chain_sum: "frag_chain lo fs hi \<Longrightarrow> lo + kv_sum length fs \<le> hi"
  by (induction lo fs hi rule: frag_chain.induct) auto

lemma frag_chain_bounds: "frag_chain lo fs hi \<Longrightarrow> (o', b) \<in> set fs \<Longrightarrow> lo \<le> o' \<and> o' + length b \<le> hi \<and> b \<noteq> []"
proof (induction lo fs hi rule: frag_chain.induct)
  case (2 lo o1 b1 fs hi)
  then show ?case using frag_chain_sum [of "o1 + length b1" fs hi] by fastforce
qed simp

lemma frag_chain_sorted: "frag_chain lo fs hi \<Longrightarrow> keys_sorted fs"
proof (induction lo fs hi rule: frag_chain.induct)
  case (2 lo o1 b1 fs hi)
  have "o1 < o'" if "(o', b') \<in> set fs" for o' b'
    using frag_chain_bounds [of "o1 + length b1" fs hi, OF _ that] "2.prems" by (cases b1) auto
  then show ?case using 2 by auto
qed simp

lemma overlaps_Cons_less:
  assumes "overlaps fs x y = False" "x < o1" "fs = (o1, b1) # fs'" "frag_chain lo fs hi"
  shows "y \<le> o1"
  using assms by (auto simp: overlaps_def split: if_splits)

lemma overlaps_Cons_greater:
  assumes "\<not> overlaps ((o1, b1) # fs) x y" "o1 < x" "frag_chain lo ((o1, b1) # fs) hi" "x < y" "y \<le> usize_max"
  shows "o1 + length b1 \<le> x" "\<not> overlaps fs x y"
proof -
  let ?below = "filter (\<lambda>(o', _). o' < x) fs"
  have chain: "frag_chain (o1 + length b1) fs hi" using assms(3) by simp
  show "o1 + length b1 \<le> x"
  proof (cases "?below = []")
    case True
    then show ?thesis using assms by (auto simp: overlaps_def sat_add_def min_def split: if_splits)
  next
    case False
    then obtain o' b' where "(o', b') \<in> set ?below" by (cases ?below) auto
    then show ?thesis using frag_chain_bounds [OF chain, of o' b'] by auto
  qed
  show "\<not> overlaps fs x y"
    using assms(1,2) by (cases "rev ?below") (auto simp: overlaps_def)
qed

lemma frag_chain_insert:
  assumes "frag_chain lo fs hi" "map_of fs x = None" "\<not> overlaps fs x (x + length b)"
    and "lo \<le> x" "x + length b \<le> hi" "b \<noteq> []" "x + length b \<le> usize_max"
  shows "frag_chain lo (bt_insert x b fs) hi"
  using assms
proof (induction lo fs hi rule: frag_chain.induct)
  case (2 lo o1 b1 fs hi)
  show ?case
  proof (cases "x < o1")
    case True
    then show ?thesis using 2 overlaps_Cons_less [of "(o1, b1) # fs" x "x + length b" o1 b1 fs lo hi] by simp
  next
    case False
    then have "o1 < x" using "2.prems"(2) by (auto split: if_splits)
    then show ?thesis
      using 2 overlaps_Cons_greater [of o1 b1 fs x "x + length b" lo hi] by auto
  qed
qed simp

lemma kv_sum_bt_insert: "keys_sorted m \<Longrightarrow> map_of m k = None \<Longrightarrow> kv_sum f (bt_insert k v m) = kv_sum f m + f v"
  by (induction k v m rule: bt_insert.induct) (auto split: if_splits)

lemma length_bt_insert: "keys_sorted m \<Longrightarrow> map_of m k = None \<Longrightarrow> length (bt_insert k v m) = Suc (length m)"
  using kv_sum_bt_insert [of m k "\<lambda>_. 1" v] by (simp add: sum_list_triv)

text \<open>Fragments that are slices of one message and cover it concatenate to the message.\<close>

lemma frag_chain_full:
  assumes "frag_chain lo fs (length m)" "lo + kv_sum length fs = length m"
    and "\<And>o' b. (o', b) \<in> set fs \<Longrightarrow> b = take (length b) (drop o' m)"
  shows "concat (map snd fs) = drop lo m"
  using assms
proof (induction lo fs "length m" rule: frag_chain.induct)
  case (2 lo o1 b1 fs)
  have "o1 + length b1 + kv_sum length fs \<le> length m"
    using "2.prems"(1) frag_chain_sum [of "o1 + length b1" fs] by simp
  then have o1: "o1 = lo" using 2 by simp
  have "concat (map snd fs) = drop (lo + length b1) m"
    using 2 by (auto simp: o1)
  moreover have "b1 = take (length b1) (drop lo m)" using "2.prems"(3) o1 by auto
  ultimately show ?case
    by simp (metis append_take_drop_id drop_drop add.commute)
qed simp

end
