(* ===== verification/Reassembly.thy ===== *)
theory Reassembly
  imports Framing
begin

text \<open>
  The reassembler's invariant and what it delivers: the byte and transfer bounds hold after every
  frame, the running counters are the true sums, eviction spares the transfer being extended, and
  a delivered message has the declared hash and, for honest fragments, is the message sent.
\<close>

section \<open>The invariant\<close>

definition transfer_ok :: "ReassemblyLimits \<Rightarrow> Transfer \<Rightarrow> bool" where
  "transfer_ok lim t \<longleftrightarrow>
    frag_chain 0 (fragments t) (total_len t) \<and> fragments t \<noteq> [] \<and>
    tr_retained_bytes t = kv_sum length (fragments t) \<and> tr_retained_bytes t < total_len t \<and>
    length (fragments t) \<le> max_fragments_per_message lim \<and> total_len t \<le> max_logical_message_size lim"

definition peer_ok :: "ReassemblyLimits \<Rightarrow> PeerTransfers \<Rightarrow> bool" where
  "peer_ok lim st \<longleftrightarrow>
    keys_distinct (transfers st) \<and> transfers st \<noteq> [] \<and>
    (\<forall>tid t. map_of (transfers st) tid = Some t \<longrightarrow> transfer_ok lim t) \<and>
    peer_retained_bytes st = kv_sum tr_retained_bytes (transfers st) \<and>
    length (transfers st) \<le> max_incomplete_transfers_per_peer lim \<and>
    peer_retained_bytes st \<le> max_reassembly_bytes_per_peer lim"

text \<open>A budget of \<open>usize::MAX\<close> would make the saturating comparisons of the source vacuous.\<close>

definition budgets_finite :: "ReassemblyLimits \<Rightarrow> bool" where
  "budgets_finite lim \<longleftrightarrow>
    max_reassembly_bytes_per_peer lim < usize_max \<and> max_total_reassembly_bytes lim < usize_max"

definition reasm_ok :: "'p Reassembler \<Rightarrow> bool" where
  "reasm_ok r \<longleftrightarrow> budgets_finite (limits r) \<and>
    keys_distinct (reasm_peers r) \<and>
    (\<forall>p st. map_of (reasm_peers r) p = Some st \<longrightarrow> peer_ok (limits r) st) \<and>
    total_retained_bytes r = kv_sum peer_retained_bytes (reasm_peers r) \<and>
    total_retained_bytes r \<le> max_total_reassembly_bytes (limits r)"

lemma reasm_ok_init: "budgets_finite lim \<Longrightarrow> reasm_ok (for_identity lim)"
  by (simp add: reasm_ok_def for_identity_def)

section \<open>Removing a transfer\<close>

lemma limits_remove [simp]: "limits (remove_transfer r p tid) = limits r"
  by (simp add: remove_transfer_def Let_def split_beta split: option.split)

lemma update_same: "map_of m k = Some v \<Longrightarrow> AList.update k v m = m"
  by (induction m) (auto split: if_splits)

lemma remove_transfer_absent:
  assumes "reasm_ok r" "find_transfer r p tid = None"
  shows "remove_transfer r p tid = r"
  using assms
  by (auto simp: remove_transfer_def find_transfer_def reasm_ok_def peer_ok_def update_same
      split: option.splits)

lemma peer_ok_delete:
  assumes "peer_ok lim st" "map_of (transfers st) tid = Some t" "AList.delete tid (transfers st) \<noteq> []"
  shows "peer_ok lim (st\<lparr>transfers := AList.delete tid (transfers st),
    peer_retained_bytes := peer_retained_bytes st - tr_retained_bytes t\<rparr>)"
  using assms kv_sum_delete [of "transfers st" tid t tr_retained_bytes]
    length_delete_le [of tid "transfers st"]
  by (auto simp: peer_ok_def dest: map_of_delete_Some)

lemma remove_transfer_present:
  assumes "reasm_ok r" "map_of (reasm_peers r) p = Some st" "map_of (transfers st) tid = Some t"
  shows "reasm_ok (remove_transfer r p tid)"
proof -
  define st' where "st' = st\<lparr>transfers := AList.delete tid (transfers st),
    peer_retained_bytes := peer_retained_bytes st - tr_retained_bytes t\<rparr>"
  have ok: "peer_ok (limits r) st" and dist: "keys_distinct (reasm_peers r)"
    and total: "total_retained_bytes r = kv_sum peer_retained_bytes (reasm_peers r)"
      "total_retained_bytes r \<le> max_total_reassembly_bytes (limits r)"
    using assms by (auto simp: reasm_ok_def)
  have le: "tr_retained_bytes t \<le> peer_retained_bytes st"
    using ok kv_sum_ge [OF assms(3)] by (simp add: peer_ok_def)
  note sums = kv_sum_delete [OF dist assms(2), of peer_retained_bytes]
    kv_sum_update [OF dist assms(2), of peer_retained_bytes st']
  show ?thesis
  proof (cases "AList.delete tid (transfers st) = []")
    case True
    have "peer_retained_bytes st = tr_retained_bytes t"
      using ok kv_sum_delete [of "transfers st" tid t tr_retained_bytes] True assms(3)
      by (simp add: peer_ok_def)
    then show ?thesis
      using assms True sums dist total
      by (auto simp: reasm_ok_def remove_transfer_def dest: map_of_delete_Some)
  next
    case False
    have "peer_ok (limits r) st'" unfolding st'_def by (rule peer_ok_delete) (use ok assms False in auto)
    moreover have "remove_transfer r p tid = r\<lparr>reasm_peers := AList.update p st' (reasm_peers r),
        total_retained_bytes := total_retained_bytes r - tr_retained_bytes t\<rparr>"
      using assms False by (simp add: remove_transfer_def st'_def)
    moreover have "kv_sum peer_retained_bytes (AList.update p st' (reasm_peers r)) =
        total_retained_bytes r - tr_retained_bytes t"
      using sums(2) le total(1) by (simp add: st'_def)
    ultimately show ?thesis
      using assms dist total by (auto simp: reasm_ok_def kv_simps split: if_splits)
  qed
qed

lemma remove_transfer_ok: "reasm_ok r \<Longrightarrow> reasm_ok (remove_transfer r p tid)"
  using remove_transfer_absent [of r p tid] remove_transfer_present [of r p]
  by (cases "find_transfer r p tid") (auto simp: find_transfer_def bind_eq_Some_conv)

lemma find_remove:
  assumes "reasm_ok r"
  shows "find_transfer (remove_transfer r p tid) p' tid' =
    (if (p', tid') = (p, tid) then None else find_transfer r p' tid')"
proof (cases "find_transfer r p tid")
  case None
  then show ?thesis using remove_transfer_absent [OF assms] by auto
next
  case (Some t)
  then obtain st where st: "map_of (reasm_peers r) p = Some st" "map_of (transfers st) tid = Some t"
    by (auto simp: find_transfer_def bind_eq_Some_conv)
  have "map_of (transfers st) tid' = None" if "AList.delete tid (transfers st) = []" "tid' \<noteq> tid"
    using map_of_delete_other [OF that(2), of "transfers st"] that(1) by simp
  then show ?thesis
    using st by (cases "p' = p") (auto simp: find_transfer_def remove_transfer_def)
qed

section \<open>Expiry and eviction\<close>

lemma fold_remove_ok:
  "reasm_ok r \<Longrightarrow> reasm_ok (fold (\<lambda>(p, tid, _) r. remove_transfer r p tid) xs r) \<and>
    limits (fold (\<lambda>(p, tid, _) r. remove_transfer r p tid) xs r) = limits r"
  by (induction xs arbitrary: r) (auto simp: remove_transfer_ok)

lemma expire_ok:
  assumes "reasm_ok r" "expire r now = (n, r')"
  shows "reasm_ok r'" "limits r' = limits r"
  using assms fold_remove_ok [OF assms(1)] by (auto simp: expire_def Let_def)

lemma find_fold_remove:
  assumes "reasm_ok r"
  shows "find_transfer (fold (\<lambda>(p, tid, _) r. remove_transfer r p tid) xs r) p tid =
    (if \<exists>t. (p, tid, t) \<in> set xs then None else find_transfer r p tid)"
  using assms by (induction xs arbitrary: r) (auto simp: remove_transfer_ok find_remove)

lemma find_transfer_iff: "find_transfer r p tid = Some t \<longleftrightarrow> (p, tid, t) \<in> set (all_transfers r)"
  by (auto simp: find_transfer_def all_transfers_iff bind_eq_Some_conv)

lemma find_expire:
  assumes "reasm_ok r" "expire r now = (n, r')"
  shows "find_transfer r' p tid =
    (case find_transfer r p tid of
       None \<Rightarrow> None
     | Some t \<Rightarrow> if reassembly_ttl (limits r) \<le> now - last_activity t then None else Some t)"
  using assms(2)
  by (auto simp: expire_def Let_def find_fold_remove [OF assms(1)] find_transfer_iff [symmetric]
      split: option.split)

text \<open>What an eviction loop keeps: the invariant, the limits and the protected transfer; and all it
  does to another transfer is to remove it.\<close>

definition evicts :: "'p Reassembler \<Rightarrow> 'p \<Rightarrow> transfer_id \<Rightarrow> 'p Reassembler \<Rightarrow> bool" where
  "evicts r p tid r' \<longleftrightarrow> reasm_ok r' \<and> limits r' = limits r \<and>
    find_transfer r' p tid = find_transfer r p tid \<and>
    (\<forall>p' tid' t. find_transfer r' p' tid' = Some t \<longrightarrow> find_transfer r p' tid' = Some t) \<and>
    peer_transfer_count r' p \<le> peer_transfer_count r p \<and> peer_bytes r' p \<le> peer_bytes r p"

lemma evictsD:
  assumes "evicts r p tid r'"
  shows "reasm_ok r'" "limits r' = limits r" "find_transfer r' p tid = find_transfer r p tid"
    "peer_transfer_count r' p \<le> peer_transfer_count r p" "peer_bytes r' p \<le> peer_bytes r p"
  using assms unfolding evicts_def by blast+

lemma evicts_refl: "reasm_ok r \<Longrightarrow> evicts r p tid r"
  by (simp add: evicts_def)

lemma evicts_trans: "evicts r p tid r' \<Longrightarrow> evicts r' p tid r'' \<Longrightarrow> evicts r p tid r''"
  unfolding evicts_def by (metis order.trans)

lemma remove_counts:
  assumes "reasm_ok r"
  shows "peer_transfer_count (remove_transfer r q tid) p \<le> peer_transfer_count r p"
    and "peer_bytes (remove_transfer r q tid) p \<le> peer_bytes r p"
  using length_delete_le
  by (auto simp: peer_transfer_count_def peer_bytes_def remove_transfer_def kv_simps
      split: option.splits)

lemma evicts_remove:
  assumes "reasm_ok r" "(q, tid') \<noteq> (p, tid)"
  shows "evicts r p tid (remove_transfer r q tid')"
  using assms remove_counts [OF assms(1)] by (auto simp: evicts_def remove_transfer_ok find_remove)

text \<open>
  The three loops of the source share one shape: while a budget is exceeded, remove the victim a
  search names, and give up when there is none. What follows from the shape is proved once.
\<close>

locale eviction_loop =
  fixes over :: "'p Reassembler \<Rightarrow> bool"
    and victim :: "'p Reassembler \<Rightarrow> ('p \<times> transfer_id) option"
    and loop :: "'p Reassembler \<Rightarrow> nat \<Rightarrow> bool \<times> 'p Reassembler \<times> nat"
    and peer :: 'p
    and protected :: transfer_id
  assumes unfold: "loop r ev =
      (if over r then
         case victim r of
           None \<Rightarrow> (False, r, ev)
         | Some (q, w) \<Rightarrow> loop (remove_transfer r q w) (ev + 1)
       else (True, r, ev))"
    and victim: "victim r = Some (q, w) \<Longrightarrow>
      (q, w) \<noteq> (peer, protected) \<and> transfer_count (remove_transfer r q w) < transfer_count r"
begin

lemma loop_ok:
  "reasm_ok r \<Longrightarrow> loop r ev = (ok, r', ev') \<Longrightarrow> evicts r peer protected r' \<and> (ok \<longrightarrow> \<not> over r')"
proof (induction "transfer_count r" arbitrary: r ev rule: less_induct)
  case less
  show ?case
  proof (cases "over r \<and> victim r \<noteq> None")
    case True
    then obtain q w where v: "victim r = Some (q, w)" by auto
    have step: "evicts r peer protected (remove_transfer r q w)"
      using evicts_remove [OF less.prems(1)] victim [OF v] by simp
    have "loop (remove_transfer r q w) (ev + 1) = (ok, r', ev')"
      using less.prems(2) True v unfold [of r ev] by simp
    from less.hyps [OF _ _ this] victim [OF v] less.prems(1)
    have "evicts (remove_transfer r q w) peer protected r' \<and> (ok \<longrightarrow> \<not> over r')"
      by (simp add: remove_transfer_ok)
    then show ?thesis using evicts_trans [OF step] by blast
  next
    case False
    then show ?thesis
      using less.prems unfold [of r ev] evicts_refl by (auto split: option.splits if_splits)
  qed
qed

end

interpretation slot_loop: eviction_loop
  "\<lambda>r. max_incomplete_transfers_per_peer (limits r) \<le> peer_transfer_count r p"
  "\<lambda>r. map_option (Pair p) (oldest_for_peer r p (Some tid))"
  "\<lambda>r. evict_slots r p tid" p tid
proof unfold_locales
  show "evict_slots r p tid ev =
     (if max_incomplete_transfers_per_peer (limits r) \<le> peer_transfer_count r p then
        case map_option (Pair p) (oldest_for_peer r p (Some tid)) of
          None \<Rightarrow> (False, r, ev)
        | Some (q, w) \<Rightarrow> evict_slots (remove_transfer r q w) p tid (ev + 1)
      else (True, r, ev))" for r ev
    by (subst evict_slots.simps) (simp split: option.split)
qed (auto dest: oldest_for_peer_Some evict_count_less(1))

interpretation peer_byte_loop: eviction_loop
  "\<lambda>r. max_reassembly_bytes_per_peer (limits r) < sat_add (peer_bytes r p) n"
  "\<lambda>r. map_option (Pair p) (oldest_for_peer r p (Some tid))"
  "\<lambda>r. evict_peer_bytes r p tid n" p tid
proof unfold_locales
  show "evict_peer_bytes r p tid n ev =
     (if max_reassembly_bytes_per_peer (limits r) < sat_add (peer_bytes r p) n then
        case map_option (Pair p) (oldest_for_peer r p (Some tid)) of
          None \<Rightarrow> (False, r, ev)
        | Some (q, w) \<Rightarrow> evict_peer_bytes (remove_transfer r q w) p tid n (ev + 1)
      else (True, r, ev))" for r ev
    by (subst evict_peer_bytes.simps) (simp split: option.split)
qed (auto dest: oldest_for_peer_Some evict_count_less(1))

interpretation total_byte_loop: eviction_loop
  "\<lambda>r. max_total_reassembly_bytes (limits r) < sat_add (total_retained_bytes r) n"
  "\<lambda>r. oldest_global r (Some (p, tid))"
  "\<lambda>r. evict_total_bytes r p tid n" p tid
proof unfold_locales
  show "evict_total_bytes r p tid n ev =
     (if max_total_reassembly_bytes (limits r) < sat_add (total_retained_bytes r) n then
        case oldest_global r (Some (p, tid)) of
          None \<Rightarrow> (False, r, ev)
        | Some (q, w) \<Rightarrow> evict_total_bytes (remove_transfer r q w) p tid n (ev + 1)
      else (True, r, ev))" for r ev
    by (rule evict_total_bytes.simps)
qed (auto dest: oldest_global_Some evict_count_less(2))

lemma make_byte_room_ok:
  assumes "make_byte_room r p tid n ev = (ok, r', ev')" "reasm_ok r"
  shows "evicts r p tid r' \<and>
    (ok \<longrightarrow> sat_add (peer_bytes r' p) n \<le> max_reassembly_bytes_per_peer (limits r) \<and>
      sat_add (total_retained_bytes r') n \<le> max_total_reassembly_bytes (limits r))"
proof -
  obtain ok1 r1 ev1 where one: "evict_peer_bytes r p tid n ev = (ok1, r1, ev1)" by (metis prod_cases3)
  have e1: "evicts r p tid r1" "ok1 \<Longrightarrow> sat_add (peer_bytes r1 p) n \<le> max_reassembly_bytes_per_peer (limits r)"
    using peer_byte_loop.loop_ok [OF assms(2) one] evictsD(2) [of r p tid r1] by (auto simp: not_less)
  show ?thesis
  proof (cases ok1)
    case True
    then have two: "evict_total_bytes r1 p tid n ev1 = (ok, r', ev')"
      using assms(1) one by (simp add: make_byte_room_def)
    have e2: "evicts r1 p tid r'" "ok \<Longrightarrow> sat_add (total_retained_bytes r') n \<le> max_total_reassembly_bytes (limits r)"
      using total_byte_loop.loop_ok [OF evictsD(1) [OF e1(1)] two] evictsD(2) [OF e1(1)]
        evictsD(2) [of r1 p tid r'] by (auto simp: not_less)
    have "sat_add (peer_bytes r' p) n \<le> sat_add (peer_bytes r1 p) n"
      using evictsD(5) [OF e2(1)] by (simp add: sat_add_def min_le_iff_disj min.coboundedI1)
    then show ?thesis using e1 e2 True evicts_trans [OF e1(1) e2(1)] by auto
  qed (use assms(1) one e1 in \<open>simp add: make_byte_room_def\<close>)
qed

lemma make_transfer_slot_ok:
  assumes "make_transfer_slot r p tid n ev = (ok, r', ev')" "reasm_ok r"
  shows "evicts r p tid r' \<and> (ok \<longrightarrow> peer_transfer_count r' p < max_incomplete_transfers_per_peer (limits r))"
proof (cases "max_reassembly_bytes_per_peer (limits r) < n \<or> max_total_reassembly_bytes (limits r) < n")
  case True
  then show ?thesis using assms by (simp add: make_transfer_slot_def evicts_refl)
next
  case False
  then have "evict_slots r p tid ev = (ok, r', ev')"
    using assms(1) by (simp only: make_transfer_slot_def if_False)
  then have ev: "evicts r p tid r' \<and>
      (ok \<longrightarrow> \<not> max_incomplete_transfers_per_peer (limits r') \<le> peer_transfer_count r' p)"
    by (rule slot_loop.loop_ok [OF assms(2)])
  then show ?thesis using evictsD(2) [OF conjunct1 [OF ev]] by (auto simp: not_le)
qed

section \<open>Storing a fragment\<close>

text \<open>Both branches of the source put one transfer into the table and add its new bytes to the two
  running counters.\<close>

definition put_transfer :: "'p Reassembler \<Rightarrow> 'p \<Rightarrow> transfer_id \<Rightarrow> Transfer \<Rightarrow> nat \<Rightarrow> 'p Reassembler" where
  "put_transfer r p tid t n =
    (let st = or_default (map_of (reasm_peers r) p)
     in r\<lparr>reasm_peers := AList.update p
            (st\<lparr>transfers := AList.update tid t (transfers st), peer_retained_bytes := peer_retained_bytes st + n\<rparr>)
            (reasm_peers r),
          total_retained_bytes := total_retained_bytes r + n\<rparr>)"

definition old_bytes :: "'p Reassembler \<Rightarrow> 'p \<Rightarrow> transfer_id \<Rightarrow> nat" where
  "old_bytes r p tid = (case find_transfer r p tid of None \<Rightarrow> 0 | Some t \<Rightarrow> tr_retained_bytes t)"

lemma update_update [simp]: "AList.update k v (AList.update k w m) = AList.update k v m"
  by (induction m) auto

lemma delete_update_same [simp]: "AList.delete k (AList.update k v m) = AList.delete k m"
  by (induction m) auto

lemma limits_put [simp]: "limits (put_transfer r p tid t n) = limits r"
  by (simp add: put_transfer_def Let_def)

lemma find_put:
  "find_transfer (put_transfer r p tid t n) p' tid' =
    (if (p', tid') = (p, tid) then Some t else find_transfer r p' tid')"
  by (auto simp: find_transfer_def put_transfer_def Let_def kv_simps or_default_def split: option.splits)

lemma store_fragment_put:
  assumes "find_transfer r p (fi_id fi) = Some t0" "t = transfer_insert t0 fi now"
  shows "store_fragment hash r p fi now =
    (let r' = put_transfer r p (fi_id fi) t (length (fi_bytes fi))
     in if tr_retained_bytes t \<noteq> total_len t then (Inr Pending, r')
        else (if hash (assembled t) \<noteq> fi_id fi then Inl HashMismatch else Inr (Complete (assembled t)),
              remove_transfer r' p (fi_id fi)))"
  using assms
  by (auto simp: store_fragment_def put_transfer_def find_transfer_def or_default_def bind_eq_Some_conv Let_def)

lemma put_start:
  "put_transfer (start_transfer r p fi now) p (fi_id fi) t n = put_transfer r p (fi_id fi) t n"
  by (simp add: put_transfer_def start_transfer_def Let_def or_default_def)

lemma find_start: "find_transfer (start_transfer r p fi now) p (fi_id fi) = Some (transfer_new (fi_total_len fi) now)"
  by (simp add: find_transfer_def start_transfer_def Let_def)

lemma peer_ok_put:
  assumes "st = or_default pst" "\<And>st0. pst = Some st0 \<Longrightarrow> peer_ok lim st0"
    and "transfer_ok lim t"
    and "tr_retained_bytes t = (case map_of (transfers st) tid of None \<Rightarrow> 0 | Some t0 \<Rightarrow> tr_retained_bytes t0) + n"
    and "map_of (transfers st) tid = None \<Longrightarrow> length (transfers st) < max_incomplete_transfers_per_peer lim"
    and "peer_retained_bytes st + n \<le> max_reassembly_bytes_per_peer lim"
  shows "peer_ok lim (st\<lparr>transfers := AList.update tid t (transfers st),
    peer_retained_bytes := peer_retained_bytes st + n\<rparr>)"
proof -
  have st: "keys_distinct (transfers st)" "peer_retained_bytes st = kv_sum tr_retained_bytes (transfers st)"
    "length (transfers st) \<le> max_incomplete_transfers_per_peer lim"
    "\<And>tid t. map_of (transfers st) tid = Some t \<Longrightarrow> transfer_ok lim t"
    using assms(1,2) by (auto simp: or_default_def peer_ok_def split: option.splits)
  have "kv_sum tr_retained_bytes (AList.update tid t (transfers st)) = peer_retained_bytes st + n"
    using kv_sum_update [OF st(1), of tid _ tr_retained_bytes t] kv_sum_update_new [of "transfers st" tid tr_retained_bytes t]
      assms(4) st(2) by (cases "map_of (transfers st) tid") auto
  then show ?thesis
    using st assms(3,5,6)
    by (auto simp: peer_ok_def length_update_le update_nonempty kv_simps split: if_splits)
qed

lemma put_transfer_ok:
  assumes "reasm_ok r" "transfer_ok (limits r) t" "tr_retained_bytes t = old_bytes r p tid + n"
    and "find_transfer r p tid = None \<Longrightarrow> peer_transfer_count r p < max_incomplete_transfers_per_peer (limits r)"
    and "peer_bytes r p + n \<le> max_reassembly_bytes_per_peer (limits r)"
    and "total_retained_bytes r + n \<le> max_total_reassembly_bytes (limits r)"
  shows "reasm_ok (put_transfer r p tid t n)"
proof -
  let ?st = "or_default (map_of (reasm_peers r) p)"
  let ?st' = "?st\<lparr>transfers := AList.update tid t (transfers ?st), peer_retained_bytes := peer_retained_bytes ?st + n\<rparr>"
  have ok: "peer_ok (limits r) ?st'"
  proof (rule peer_ok_put [OF refl])
    show "map_of (reasm_peers r) p = Some st0 \<Longrightarrow> peer_ok (limits r) st0" for st0
      using assms(1) by (auto simp: reasm_ok_def)
  qed (use assms(2-5) in \<open>auto simp: old_bytes_def find_transfer_def or_default_def
      peer_transfer_count_def peer_bytes_def split: option.splits\<close>)
  have dist: "keys_distinct (reasm_peers r)" and sum: "total_retained_bytes r = kv_sum peer_retained_bytes (reasm_peers r)"
    using assms(1) by (simp_all add: reasm_ok_def)
  have "kv_sum peer_retained_bytes (AList.update p ?st' (reasm_peers r)) = total_retained_bytes r + n"
    using kv_sum_update [OF dist, of p _ peer_retained_bytes ?st']
      kv_sum_update_new [of "reasm_peers r" p peer_retained_bytes ?st'] sum
    by (cases "map_of (reasm_peers r) p") (auto simp: or_default_def)
  then show ?thesis
    using assms(1,6) ok by (auto simp: reasm_ok_def put_transfer_def Let_def kv_simps split: if_splits)
qed

lemma remove_put:
  assumes "reasm_ok r" "tr_retained_bytes t = old_bytes r p tid + n"
  shows "remove_transfer (put_transfer r p tid t n) p tid = remove_transfer r p tid"
proof (cases "map_of (reasm_peers r) p")
  case None
  then have "AList.delete p (reasm_peers r) = reasm_peers r"
    by (simp add: delete_absent map_of_eq_None_iff)
  then show ?thesis
    using None assms(2) by (simp add: remove_transfer_def put_transfer_def or_default_def old_bytes_def
        find_transfer_def)
next
  case (Some st)
  then have "AList.delete tid (transfers st) = transfers st" if "map_of (transfers st) tid = None"
    using that by (simp add: delete_absent map_of_eq_None_iff)
  then show ?thesis
    using Some assms remove_transfer_absent [OF assms(1), of p tid]
    by (cases "map_of (transfers st) tid")
      (auto simp: remove_transfer_def put_transfer_def or_default_def old_bytes_def find_transfer_def
        update_same reasm_ok_def peer_ok_def)
qed

definition partial_ok :: "ReassemblyLimits \<Rightarrow> Transfer \<Rightarrow> bool" where
  "partial_ok lim t \<longleftrightarrow>
    frag_chain 0 (fragments t) (total_len t) \<and> tr_retained_bytes t = kv_sum length (fragments t) \<and>
    length (fragments t) \<le> max_fragments_per_message lim \<and> total_len t \<le> max_logical_message_size lim"

lemma transfer_ok_partial: "transfer_ok lim t \<Longrightarrow> partial_ok lim t"
  by (simp add: transfer_ok_def partial_ok_def)

lemma partial_new: "len \<le> max_logical_message_size lim \<Longrightarrow> partial_ok lim (transfer_new len now)"
  by (simp add: partial_ok_def transfer_new_def)

text \<open>The checks a fragment has passed when it is stored into the transfer \<open>t\<close>.\<close>

definition fits :: "ReassemblyLimits \<Rightarrow> Transfer \<Rightarrow> FragmentInput \<Rightarrow> bool" where
  "fits lim t fi \<longleftrightarrow>
    fi_bytes fi \<noteq> [] \<and> total_len t = fi_total_len fi \<and>
    fi_offset fi + length (fi_bytes fi) \<le> usize_max \<and>
    fi_offset fi + length (fi_bytes fi) \<le> fi_total_len fi \<and>
    map_of (fragments t) (fi_offset fi) = None \<and>
    \<not> overlaps (fragments t) (fi_offset fi) (fi_offset fi + length (fi_bytes fi)) \<and>
    length (fragments t) < max_fragments_per_message lim"

lemma insert_partial:
  assumes "partial_ok lim t" "fits lim t fi"
  shows "partial_ok lim (transfer_insert t fi now)"
    and "tr_retained_bytes (transfer_insert t fi now) \<le> total_len (transfer_insert t fi now)"
    and "tr_retained_bytes (transfer_insert t fi now) \<noteq> total_len (transfer_insert t fi now) \<Longrightarrow>
      transfer_ok lim (transfer_insert t fi now)"
proof -
  have sorted: "keys_sorted (fragments t)"
    using assms(1) frag_chain_sorted by (auto simp: partial_ok_def)
  have "bt_insert (fi_offset fi) (fi_bytes fi) (fragments t) \<noteq> []"
    using set_bt_insert [of "fi_offset fi" "fi_bytes fi" "fragments t"] by fastforce
  moreover show partial: "partial_ok lim (transfer_insert t fi now)"
    using assms frag_chain_insert [of 0 "fragments t" "total_len t" "fi_offset fi" "fi_bytes fi"]
      kv_sum_bt_insert [OF sorted] length_bt_insert [OF sorted]
    by (simp add: partial_ok_def fits_def transfer_insert_def)
  moreover show le: "tr_retained_bytes (transfer_insert t fi now) \<le> total_len (transfer_insert t fi now)"
    using partial frag_chain_sum [of 0] unfolding partial_ok_def by fastforce
  ultimately show "tr_retained_bytes (transfer_insert t fi now) \<noteq> total_len (transfer_insert t fi now) \<Longrightarrow>
      transfer_ok lim (transfer_insert t fi now)"
    by (simp add: transfer_ok_def partial_ok_def) (simp add: transfer_insert_def)
qed

lemma store_ok:
  assumes "reasm_ok r" "partial_ok (limits r) t0" "fits (limits r) t0 fi"
    and "tr_retained_bytes t0 = old_bytes r p (fi_id fi)"
    and "find_transfer r p (fi_id fi) = None \<Longrightarrow> peer_transfer_count r p < max_incomplete_transfers_per_peer (limits r)"
    and "sat_add (peer_bytes r p) (length (fi_bytes fi)) \<le> max_reassembly_bytes_per_peer (limits r)"
    and "sat_add (total_retained_bytes r) (length (fi_bytes fi)) \<le> max_total_reassembly_bytes (limits r)"
    and "t = transfer_insert t0 fi now" "r' = put_transfer r p (fi_id fi) t (length (fi_bytes fi))"
  shows "tr_retained_bytes t \<noteq> total_len t \<Longrightarrow> reasm_ok r'"
    and "remove_transfer r' p (fi_id fi) = remove_transfer r p (fi_id fi)"
    and "reasm_ok (remove_transfer r' p (fi_id fi))"
proof -
  have bytes: "tr_retained_bytes t = old_bytes r p (fi_id fi) + length (fi_bytes fi)"
    using assms(4,8) by (simp add: transfer_insert_def)
  have fin: "budgets_finite (limits r)" using assms(1) by (simp add: reasm_ok_def)
  show rem: "remove_transfer r' p (fi_id fi) = remove_transfer r p (fi_id fi)"
    using remove_put [OF assms(1) bytes] assms(9) by simp
  show "reasm_ok (remove_transfer r' p (fi_id fi))"
    using rem remove_transfer_ok [OF assms(1)] by simp
  assume "tr_retained_bytes t \<noteq> total_len t"
  then have "transfer_ok (limits r) t"
    using insert_partial(3) [OF assms(2,3)] assms(8) by simp
  then show "reasm_ok r'"
    unfolding assms(9)
    by (rule put_transfer_ok [OF assms(1) _ bytes])
      (use assms(5-7) fin in \<open>auto simp: sat_add_def budgets_finite_def min_def split: if_splits\<close>)
qed

section \<open>One fragment\<close>

text \<open>The transfer a fragment extends: the retained one, or a new one.\<close>

definition current_transfer :: "'p Reassembler \<Rightarrow> 'p \<Rightarrow> FragmentInput \<Rightarrow> instant \<Rightarrow> Transfer" where
  "current_transfer r p fi now =
    (case find_transfer r p (fi_id fi) of Some t \<Rightarrow> t | None \<Rightarrow> transfer_new (fi_total_len fi) now)"

text \<open>A fragment that passed every check is stored after some evictions, and the transfer is either
  still incomplete or taken out and compared with its identifier.\<close>

definition stored ::
  "(bytes \<Rightarrow> 32 arr) \<Rightarrow> 'p Reassembler \<Rightarrow> 'p \<Rightarrow> FragmentInput \<Rightarrow> instant \<Rightarrow>
    FrameError + ReceiveOutcome \<Rightarrow> 'p Reassembler \<Rightarrow> bool" where
  "stored hash r p fi now res r' \<longleftrightarrow>
    (let t0 = current_transfer r p fi now; t = transfer_insert t0 fi now
     in fits (limits r) t0 fi \<and> partial_ok (limits r) t0 \<and>
        (\<exists>r1. evicts r p (fi_id fi) r1 \<and>
          (if tr_retained_bytes t \<noteq> total_len t
           then res = Inr Pending \<and> reasm_ok r' \<and>
             r' = put_transfer r1 p (fi_id fi) t (length (fi_bytes fi))
           else res = (if hash (assembled t) \<noteq> fi_id fi then Inl HashMismatch else Inr (Complete (assembled t))) \<and>
             r' = remove_transfer r1 p (fi_id fi))))"

lemma find_transfer_ok: "reasm_ok r \<Longrightarrow> find_transfer r p tid = Some t \<Longrightarrow> transfer_ok (limits r) t"
  by (auto simp: find_transfer_def bind_eq_Some_conv reasm_ok_def peer_ok_def)

lemma stored_intro:
  assumes "reasm_ok r" "evicts r p (fi_id fi) r1"
    and "t0 = current_transfer r p fi now" "partial_ok (limits r) t0" "fits (limits r) t0 fi"
    and "find_transfer r p (fi_id fi) = None \<Longrightarrow> peer_transfer_count r1 p < max_incomplete_transfers_per_peer (limits r)"
    and "sat_add (peer_bytes r1 p) (length (fi_bytes fi)) \<le> max_reassembly_bytes_per_peer (limits r) \<and>
      sat_add (total_retained_bytes r1) (length (fi_bytes fi)) \<le> max_total_reassembly_bytes (limits r)"
    and "t = transfer_insert t0 fi now"
    and "(res, r') =
      (let r' = put_transfer r1 p (fi_id fi) t (length (fi_bytes fi))
       in if tr_retained_bytes t \<noteq> total_len t then (Inr Pending, r')
          else (if hash (assembled t) \<noteq> fi_id fi then Inl HashMismatch else Inr (Complete (assembled t)),
                remove_transfer r' p (fi_id fi)))"
  shows "stored hash r p fi now res r'"
proof -
  note ev = evictsD [OF assms(2)]
  have "tr_retained_bytes t0 = old_bytes r1 p (fi_id fi)"
    unfolding assms(3) current_transfer_def old_bytes_def ev(3)
    by (simp add: transfer_new_def split: option.split)
  note store = store_ok [OF ev(1) _ _ this, unfolded ev(2), OF assms(4,5) _ _ _ assms(8) refl]
  have "tr_retained_bytes t \<noteq> total_len t \<Longrightarrow> reasm_ok (put_transfer r1 p (fi_id fi) t (length (fi_bytes fi)))"
    "remove_transfer (put_transfer r1 p (fi_id fi) t (length (fi_bytes fi))) p (fi_id fi) = remove_transfer r1 p (fi_id fi)"
    using store(1,2) assms(6,7) ev(3) by auto
  then show ?thesis
    using assms(2,4,5,8,9) unfolding stored_def Let_def assms(3) [symmetric]
    by (auto intro!: exI [of _ r1])
qed

lemma begin_transfer_cases:
  assumes "reasm_ok r" "begin_transfer hash r p fi now ev = (res, r', ev')"
    and "find_transfer r p (fi_id fi) = None" "fits (limits r) (transfer_new (fi_total_len fi) now) fi"
    and "fi_total_len fi \<le> max_logical_message_size (limits r)"
  shows "(\<exists>e. res = Inl e \<and> evicts r p (fi_id fi) r') \<or> stored hash r p fi now res r'"
proof -
  obtain ok1 r1 ev1 where one: "make_transfer_slot r p (fi_id fi) (length (fi_bytes fi)) ev = (ok1, r1, ev1)"
    by (metis prod_cases3)
  obtain ok2 r2 ev2 where two: "make_byte_room r1 p (fi_id fi) (length (fi_bytes fi)) ev1 = (ok2, r2, ev2)"
    by (metis prod_cases3)
  note e1 = make_transfer_slot_ok [OF one assms(1)]
  note ev1 = evictsD [OF conjunct1 [OF e1]]
  note e2 = make_byte_room_ok [OF two ev1(1), unfolded ev1(2)]
  note ev2 = evictsD [OF conjunct1 [OF e2]]
  show ?thesis
  proof (cases "ok1 \<and> ok2")
    case True
    define t where "t = transfer_insert (transfer_new (fi_total_len fi) now) fi now"
    have "(res, r') = store_fragment hash (start_transfer r2 p fi now) p fi now"
      using assms(2) one two True by (auto simp: begin_transfer_def split: prod.splits)
    from this [unfolded store_fragment_put [OF find_start t_def] put_start]
    have "stored hash r p fi now res r'"
      using e1 e2 True ev2(4) evicts_trans assms(3-5) t_def
      by (intro stored_intro [OF assms(1), of p fi r2 "transfer_new (fi_total_len fi) now" now t])
        (auto simp: current_transfer_def partial_new)
    then show ?thesis ..
  next
    case False
    then have "(\<exists>e. res = Inl e) \<and> (r' = r1 \<or> r' = r2)"
      using assms(2) one two by (auto simp: begin_transfer_def split: if_splits)
    moreover have "evicts r p (fi_id fi) r2"
      using e1 e2 by (rule evicts_trans [OF conjunct1 conjunct1])
    ultimately show ?thesis using e1 by auto
  qed
qed

lemma extend_transfer_cases:
  assumes "reasm_ok r" "find_transfer r p (fi_id fi) = Some t0"
    and "fi_bytes fi \<noteq> []" "fi_offset fi + length (fi_bytes fi) = stop" "stop \<le> usize_max" "stop \<le> fi_total_len fi"
    and "extend_transfer hash r p t0 fi stop now ev = (res, r', ev')"
  shows "(\<exists>e. res = Inl e \<and> evicts r p (fi_id fi) r') \<or>
    (res = Inr Duplicate \<and> map_of (fragments t0) (fi_offset fi) = Some (fi_bytes fi) \<and>
      total_len t0 = fi_total_len fi \<and> r' = touch_transfer r p (fi_id fi) now) \<or>
    stored hash r p fi now res r'"
proof (cases "fits (limits r) t0 fi")
  case False
  then show ?thesis
    using assms by (auto simp: extend_transfer_def fits_def evicts_refl split: option.splits if_splits)
next
  case True
  obtain ok r1 ev1 where room: "make_byte_room r p (fi_id fi) (length (fi_bytes fi)) ev = (ok, r1, ev1)"
    by (metis prod_cases3)
  have ext: "extend_transfer hash r p t0 fi stop now ev =
      (if \<not> ok then (Inl ReassemblyCapacity, r1, ev1)
       else let (res, r'') = store_fragment hash r1 p fi now in (res, r'', ev1))"
    using True assms(4) room by (auto simp: extend_transfer_def fits_def)
  note e = make_byte_room_ok [OF room assms(1)]
  note ev = evictsD [OF conjunct1 [OF e]]
  show ?thesis
  proof (cases ok)
    case ok: True
    define t where "t = transfer_insert t0 fi now"
    have "(res, r') = store_fragment hash r1 p fi now"
      using assms(7) ext ok by (auto split: prod.splits)
    moreover have "find_transfer r1 p (fi_id fi) = Some t0" using ev(3) assms(2) by simp
    ultimately have "stored hash r p fi now res r'"
      using e ok True t_def assms(2) transfer_ok_partial [OF find_transfer_ok [OF assms(1,2)]]
      by (intro stored_intro [OF assms(1), of p fi r1 t0 now t])
        (auto simp: current_transfer_def store_fragment_put)
    then show ?thesis by blast
  qed (use assms(7) ext e in auto)
qed

lemma accept_fragment_cases:
  assumes "reasm_ok r" "accept_fragment hash r p fi now ev = (res, r', ev')"
  shows "(\<exists>e. res = Inl e \<and> evicts r p (fi_id fi) r') \<or>
    (\<exists>t0. find_transfer r p (fi_id fi) = Some t0 \<and> res = Inr Duplicate \<and>
      map_of (fragments t0) (fi_offset fi) = Some (fi_bytes fi) \<and>
      total_len t0 = fi_total_len fi \<and> r' = touch_transfer r p (fi_id fi) now) \<or>
    stored hash r p fi now res r'"
proof (cases "fi_bytes fi \<noteq> [] \<and> fi_total_len fi \<le> max_logical_message_size (limits r) \<and>
    max_fragments_per_message (limits r) \<noteq> 0 \<and> fi_offset fi + length (fi_bytes fi) \<le> usize_max \<and>
    fi_offset fi + length (fi_bytes fi) \<le> fi_total_len fi")
  case False
  then show ?thesis
    using assms by (auto simp: accept_fragment_def checked_add_def evicts_refl split: if_splits)
next
  case True
  show ?thesis
  proof (cases "find_transfer r p (fi_id fi)")
    case None
    have "fits (limits r) (transfer_new (fi_total_len fi) now) fi"
      using True by (simp add: fits_def transfer_new_def overlaps_def)
    then show ?thesis
      using begin_transfer_cases [OF assms(1) _ None] assms(2) True None
      by (auto simp: accept_fragment_def checked_add_def)
  next
    case (Some t0)
    then show ?thesis
      using extend_transfer_cases [OF assms(1) Some _ refl] assms(2) True
      by (auto simp: accept_fragment_def checked_add_def)
  qed
qed

section \<open>Every frame keeps the invariant\<close>

lemma touch_transfer_put:
  assumes "find_transfer r p tid = Some t"
  shows "touch_transfer r p tid now = put_transfer r p tid (t\<lparr>last_activity := now\<rparr>) 0"
  using assms
  by (auto simp: touch_transfer_def put_transfer_def find_transfer_def or_default_def bind_eq_Some_conv Let_def)

lemma reasm_bounds:
  assumes "reasm_ok r"
  shows "peer_bytes r p \<le> max_reassembly_bytes_per_peer (limits r)"
    "peer_transfer_count r p \<le> max_incomplete_transfers_per_peer (limits r)"
    "total_retained_bytes r \<le> max_total_reassembly_bytes (limits r)"
proof -
  have "peer_ok (limits r) st" if "map_of (reasm_peers r) p = Some st" for st
    using assms that by (simp add: reasm_ok_def)
  then show "peer_bytes r p \<le> max_reassembly_bytes_per_peer (limits r)"
    "peer_transfer_count r p \<le> max_incomplete_transfers_per_peer (limits r)"
    unfolding peer_bytes_def peer_transfer_count_def peer_ok_def by (auto split: option.split)
  show "total_retained_bytes r \<le> max_total_reassembly_bytes (limits r)"
    using assms by (simp add: reasm_ok_def)
qed

lemma touch_transfer_ok:
  assumes "reasm_ok r" "find_transfer r p tid = Some t"
  shows "reasm_ok (touch_transfer r p tid now)"
  unfolding touch_transfer_put [OF assms(2)]
  using reasm_bounds [OF assms(1)] find_transfer_ok [OF assms]
  by (intro put_transfer_ok [OF assms(1)])
    (auto simp: transfer_ok_def old_bytes_def assms(2))

lemma stored_ok:
  assumes "stored hash r p fi now res r'"
  shows "reasm_ok r'" "limits r' = limits r"
  using assms
  by (auto simp: stored_def Let_def split: if_splits dest: evictsD(1,2) intro!: remove_transfer_ok)

lemma accept_fragment_ok:
  assumes "reasm_ok r" "accept_fragment hash r p fi now ev = (res, r', ev')"
  shows "reasm_ok r' \<and> limits r' = limits r"
  using accept_fragment_cases [OF assms]
proof (elim disjE exE conjE)
  fix t0
  assume "find_transfer r p (fi_id fi) = Some t0" "r' = touch_transfer r p (fi_id fi) now"
  then show ?thesis
    using touch_transfer_ok [OF assms(1)] by (simp add: touch_transfer_put)
qed (auto dest: evictsD stored_ok)

lemma reasm_accept_ok:
  assumes "reasm_ok r" "reasm_accept hash r p payload now = (rep, r')"
  shows "reasm_ok r' \<and> limits r' = limits r \<and> report_retained_bytes rep = total_retained_bytes r'"
proof -
  obtain n r1 where ex: "expire r now = (n, r1)" by fastforce
  note ok = expire_ok [OF assms(1) ex]
  show ?thesis
    using assms(2) ok accept_fragment_ok [OF ok(1)]
    by (auto simp: reasm_accept_def ex reasm_report_def Let_def split: list.splits if_splits prod.splits)
qed

text \<open>Frames of any peers, at any times, one after the other.\<close>

fun reasm_run ::
  "(bytes \<Rightarrow> 32 arr) \<Rightarrow> 'p::linorder Reassembler \<Rightarrow> ('p \<times> Payload \<times> instant) list \<Rightarrow> 'p Reassembler" where
  "reasm_run hash r [] = r"
| "reasm_run hash r ((p, payload, now) # es) = reasm_run hash (snd (reasm_accept hash r p payload now)) es"

lemma reasm_run_ok: "reasm_ok r \<Longrightarrow> reasm_ok (reasm_run hash r es) \<and> limits (reasm_run hash r es) = limits r"
proof (induction es arbitrary: r)
  case (Cons e es)
  obtain p payload now where e: "e = (p, payload, now)" by (cases e)
  obtain rep r' where "reasm_accept hash r p payload now = (rep, r')" by fastforce
  with reasm_accept_ok [OF Cons.prems this] Cons.IH [of r'] show ?case by (simp add: e)
qed simp

lemma total_is_sum:
  assumes "reasm_ok r"
  shows "total_retained_bytes r = sum_list (map (\<lambda>(_, _, t). kv_sum length (fragments t)) (all_transfers r))"
proof -
  have dist: "keys_distinct (reasm_peers r)" using assms by (simp add: reasm_ok_def)
  have "peer_retained_bytes st = sum_list (map (\<lambda>q. kv_sum length (fragments (snd q))) (kv_iter (transfers st)))"
    if "(p, st) \<in> set (reasm_peers r)" for p st
  proof -
    have "peer_ok (limits r) st"
      using assms map_of_is_SomeI [OF dist that] by (simp add: reasm_ok_def)
    moreover from this have "tr_retained_bytes t = kv_sum length (fragments t)" if "(tid, t) \<in> set (transfers st)" for tid t
      using map_of_is_SomeI [OF _ that] by (auto simp: peer_ok_def transfer_ok_def)
    ultimately show ?thesis
      by (auto simp: peer_ok_def intro!: arg_cong [where f = sum_list])
  qed
  then have eq: "map (\<lambda>p. peer_retained_bytes (snd p)) (reasm_peers r) =
    map (\<lambda>p. sum_list (map (\<lambda>q. kv_sum length (fragments (snd q))) (kv_iter (transfers (snd p))))) (reasm_peers r)"
    by auto
  have "total_retained_bytes r = kv_sum peer_retained_bytes (reasm_peers r)"
    using assms by (simp add: reasm_ok_def)
  also have "\<dots> = sum_list (map (\<lambda>(_, _, t). kv_sum length (fragments t)) (all_transfers r))"
    unfolding eq by (simp add: dist all_transfers_def map_concat sum_list_concat comp_def split_beta)
  finally show ?thesis .
qed

section \<open>What is delivered\<close>

lemma stored_complete:
  assumes "stored hash r p fi now (Inr (Complete m)) r'"
  shows "hash m = fi_id fi" "length m = fi_total_len fi" "m = assembled (transfer_insert (current_transfer r p fi now) fi now)"
proof -
  let ?t = "transfer_insert (current_transfer r p fi now) fi now"
  have m: "m = assembled ?t" "hash m = fi_id fi" and full: "tr_retained_bytes ?t = total_len ?t"
    and ok: "partial_ok (limits r) (current_transfer r p fi now)" "fits (limits r) (current_transfer r p fi now) fi"
    using assms(1) by (auto simp: stored_def Let_def split: if_splits)
  have "tr_retained_bytes ?t = kv_sum length (fragments ?t)"
    using insert_partial(1) [OF ok] by (simp add: partial_ok_def)
  then have "length (assembled ?t) = total_len ?t"
    using full by (simp add: assembled_def length_concat comp_def)
  then show "hash m = fi_id fi" "length m = fi_total_len fi" "m = assembled ?t"
    using m ok(2) by (simp_all add: transfer_insert_def fits_def)
qed

lemma accept_fragment_complete:
  assumes "reasm_ok r" "accept_fragment hash r p fi now ev = (Inr (Complete m), r', ev')"
  shows "hash m = fi_id fi \<and> length m = fi_total_len fi \<and> find_transfer r' p (fi_id fi) = None"
proof -
  have st: "stored hash r p fi now (Inr (Complete m)) r'"
    using accept_fragment_cases [OF assms] by auto
  then obtain r1 where "evicts r p (fi_id fi) r1" "r' = remove_transfer r1 p (fi_id fi)"
    by (auto simp: stored_def Let_def split: if_splits)
  then have "find_transfer r' p (fi_id fi) = None" using evictsD(1) find_remove by fastforce
  then show ?thesis using stored_complete [OF st] by simp
qed

lemma accept_fragment_others:
  assumes "reasm_ok r" "accept_fragment hash r p fi now ev = (res, r', ev')" "(p', tid') \<noteq> (p, fi_id fi)"
    and "find_transfer r' p' tid' = Some t"
  shows "find_transfer r p' tid' = Some t"
  using accept_fragment_cases [OF assms(1,2)]
proof (elim disjE exE conjE)
  show "find_transfer r p' tid' = Some t" if "evicts r p (fi_id fi) r'"
    using that assms(4) by (auto simp: evicts_def)
  show "find_transfer r p' tid' = Some t"
    if "find_transfer r p (fi_id fi) = Some t0" "r' = touch_transfer r p (fi_id fi) now" for t0
    using that assms(3,4) by (auto simp: touch_transfer_put find_put)
  assume "stored hash r p fi now res r'"
  then obtain r1 where "evicts r p (fi_id fi) r1" "find_transfer r1 p' tid' = Some t"
    using assms(3,4) evictsD(1)
    by (fastforce simp: stored_def Let_def find_put find_remove split: if_splits)
  then show "find_transfer r p' tid' = Some t" by (auto simp: evicts_def)
qed

section \<open>Properties\<close>

text \<open>C10: after any sequence of frames from any peers, at any times, the reassembler is within
  every configured bound: the bytes it holds in total, the bytes and the transfers of each peer,
  and the fragments and declared size of each transfer; and the running total is exactly the
  number of fragment bytes retained.\<close>

theorem reassembly_bounded:
  fixes es :: "('p::linorder \<times> Payload \<times> instant) list"
  assumes "budgets_finite lim" "r = reasm_run hash (for_identity lim) es"
  shows "total_retained_bytes r \<le> max_total_reassembly_bytes lim \<and>
    total_retained_bytes r = sum_list (map (\<lambda>(_, _, t). kv_sum length (fragments t)) (all_transfers r)) \<and>
    peer_bytes r p \<le> max_reassembly_bytes_per_peer lim \<and>
    peer_transfer_count r p \<le> max_incomplete_transfers_per_peer lim \<and>
    (find_transfer r p tid = Some t \<longrightarrow>
      length (fragments t) \<le> max_fragments_per_message lim \<and> total_len t \<le> max_logical_message_size lim \<and>
      frag_chain 0 (fragments t) (total_len t))"
proof -
  have ok: "reasm_ok r" and lim: "limits r = lim"
    using reasm_run_ok [OF reasm_ok_init [OF assms(1)], of hash es] assms(2)
    by (simp_all add: for_identity_def)
  show ?thesis
    using reasm_bounds(1,2) [OF ok, of p] reasm_bounds(3) [OF ok] total_is_sum [OF ok] find_transfer_ok [OF ok, of p tid t] lim
    by (auto simp: transfer_ok_def)
qed

definition demo_limits :: ReassemblyLimits where
  "demo_limits = \<lparr>max_logical_message_size = 8, max_fragments_per_message = 4,
    max_incomplete_transfers_per_peer = 1, max_reassembly_bytes_per_peer = 8,
    max_total_reassembly_bytes = 8, reassembly_ttl = 10\<rparr>"

theorem reassembly_bounded_witness:
  "total_retained_bytes (reasm_run (\<lambda>m. arr_zero) (for_identity demo_limits)
     [(1 :: nat, \<lparr>pl_bytes = [7], pl_seq = 0, pl_stamp = 0\<rparr>, 0)]) \<le> 8"
proof -
  have "budgets_finite demo_limits" "max_total_reassembly_bytes demo_limits = 8"
    by (simp_all add: budgets_finite_def demo_limits_def usize_max_def)
  then show ?thesis using reassembly_bounded [OF _ refl, THEN conjunct1] by metis
qed

text \<open>A message delivered from fragments has the hash the fragments named and the length
  they declared, its transfer is gone from the table, and every other transfer that is left is
  unchanged.\<close>

theorem delivered_message_matches_id:
  assumes "reasm_ok r" "accept_fragment hash r p fi now ev = (Inr (Complete m), r', ev')"
  shows "hash m = fi_id fi \<and> length m = fi_total_len fi \<and> find_transfer r' p (fi_id fi) = None \<and>
    ((p', tid') \<noteq> (p, fi_id fi) \<longrightarrow> find_transfer r' p' tid' = Some t \<longrightarrow> find_transfer r p' tid' = Some t)"
  using accept_fragment_complete [OF assms] accept_fragment_others [OF assms] by blast

end
