(* ===== verification/Delivery.thy ===== *)
theory Delivery
  imports Reassembly
begin

text \<open>
  From sender to receiver: a message cut into fragments and delivered in any order is reassembled
  to the same bytes, and nothing is delivered before the last fragment.
\<close>

section \<open>Cutting a message\<close>

text \<open>\<open>payload.chunks(cap)\<close> and the fragment the sender makes of each chunk.\<close>

definition chunk :: "nat \<Rightarrow> bytes \<Rightarrow> nat \<Rightarrow> bytes" where
  "chunk cap m i = take cap (drop (i * cap) m)"

definition chunk_count :: "nat \<Rightarrow> bytes \<Rightarrow> nat" where
  "chunk_count cap m = (length m + cap - 1) div cap"

definition chunk_fragment :: "(bytes \<Rightarrow> 32 arr) \<Rightarrow> nat \<Rightarrow> bytes \<Rightarrow> nat \<Rightarrow> FragmentInput" where
  "chunk_fragment hash cap m i =
    \<lparr>fi_id = hash m, fi_total_len = length m, fi_offset = i * cap, fi_bytes = chunk cap m i\<rparr>"

lemma chunk_nonempty: "0 < cap \<Longrightarrow> i < chunk_count cap m \<longleftrightarrow> i * cap < length m"
proof -
  assume cap: "0 < cap"
  have "i < (length m + cap - 1) div cap \<longleftrightarrow> Suc i * cap \<le> length m + cap - 1"
    using cap by (simp add: less_eq_div_iff_mult_less_eq Suc_le_eq [symmetric])
  also have "\<dots> \<longleftrightarrow> i * cap < length m" using cap by auto
  finally show ?thesis by (simp add: chunk_count_def)
qed

lemma chunk_slice: "chunk cap m i = take (length (chunk cap m i)) (drop (i * cap) m)"
  unfolding chunk_def by (metis append_eq_conv_conj append_take_drop_id)

lemma concat_chunks: "concat (map (chunk cap m) [0..<k]) = take (k * cap) m"
proof (induction k)
  case (Suc k)
  have "take (k * cap) m @ take cap (drop (k * cap) m) = take (k * cap + cap) m"
    by (simp add: take_add)
  then show ?case using Suc by (simp add: chunk_def add.commute)
qed simp

lemma chunk_count_covers: "0 < cap \<Longrightarrow> length m \<le> chunk_count cap m * cap"
  using chunk_nonempty [of cap "chunk_count cap m" m] by simp

lemma sum_chunks: "0 < cap \<Longrightarrow> (\<Sum>i<chunk_count cap m. length (chunk cap m i)) = length m"
proof -
  assume cap: "0 < cap"
  have "(\<Sum>i<k. length (chunk cap m i)) = length (concat (map (chunk cap m) [0..<k]))" for k
    by (induction k) simp_all
  then show ?thesis using concat_chunks [of cap m "chunk_count cap m"] chunk_count_covers [OF cap] by simp
qed

section \<open>A transfer that holds some of the chunks\<close>

lemma set_bt_insert_new: "map_of m k = None \<Longrightarrow> set (bt_insert k v m) = insert (k, v) (set m)"
  by (induction k v m rule: bt_insert.induct) (auto split: if_splits)

lemma not_overlaps:
  assumes "\<And>o' b. (o', b) \<in> set fs \<Longrightarrow> o' + length b \<le> x \<or> y \<le> o'" "\<And>o' b. (o', b) \<in> set fs \<Longrightarrow> b \<noteq> []" "x < y"
  shows "\<not> overlaps fs x y"
proof -
  have "\<not> (case rev (filter (\<lambda>(o', _). o' < x) fs) of [] \<Rightarrow> False | (o', b) # _ \<Rightarrow> x < sat_add o' (length b))"
  proof (cases "rev (filter (\<lambda>(o', _). o' < x) fs)")
    case (Cons q zs)
    obtain o' b where q: "q = (o', b)" by (cases q)
    have "(o', b) \<in> set (rev (filter (\<lambda>(o', _). o' < x) fs))" unfolding Cons q by simp
    then have "\<not> x < sat_add o' (length b)" using assms(1,3) by (fastforce simp: sat_add_def)
    then show ?thesis unfolding Cons q by simp
  qed simp
  moreover have "\<not> (case filter (\<lambda>(o', _). x \<le> o') fs of [] \<Rightarrow> False | (o', _) # _ \<Rightarrow> o' < y)"
  proof (cases "filter (\<lambda>(o', _). x \<le> o') fs")
    case (Cons q zs)
    obtain o' b where q: "q = (o', b)" by (cases q)
    have "(o', b) \<in> set (filter (\<lambda>(o', _). x \<le> o') fs)" unfolding Cons q by simp
    then have "\<not> o' < y" using assms(1,2) [of o' b] by (cases b) auto
    then show ?thesis unfolding Cons q by simp
  qed simp
  ultimately show ?thesis unfolding overlaps_def by blast
qed

definition holds_chunks :: "ReassemblyLimits \<Rightarrow> nat \<Rightarrow> bytes \<Rightarrow> nat set \<Rightarrow> Transfer \<Rightarrow> bool" where
  "holds_chunks lim cap m S t \<longleftrightarrow>
    partial_ok lim t \<and> total_len t = length m \<and> S \<subseteq> {..<chunk_count cap m} \<and>
    set (fragments t) = (\<lambda>i. (i * cap, chunk cap m i)) ` S"

lemma holds_bytes:
  assumes "holds_chunks lim cap m S t" "0 < cap"
  shows "tr_retained_bytes t = (\<Sum>i\<in>S. length (chunk cap m i))" "length (fragments t) = card S"
proof -
  have dist: "distinct (fragments t)"
    using assms(1) frag_chain_sorted [of 0] keys_sorted_distinct distinct_map
    unfolding holds_chunks_def partial_ok_def by blast
  have inj: "inj_on (\<lambda>i. (i * cap, chunk cap m i)) S" using assms(2) by (auto simp: inj_on_def)
  have "kv_sum length (fragments t) = (\<Sum>p\<in>set (fragments t). length (snd p))"
    using dist by (rule sum_list_distinct_conv_sum_set)
  then show "tr_retained_bytes t = (\<Sum>i\<in>S. length (chunk cap m i))"
    using assms(1) inj by (simp add: holds_chunks_def partial_ok_def sum.reindex comp_def)
  show "length (fragments t) = card S"
    using assms(1) distinct_card [OF dist] card_image [OF inj] by (simp add: holds_chunks_def)
qed

lemma holds_full:
  assumes "holds_chunks lim cap m S t" "0 < cap"
  shows "tr_retained_bytes t = length m \<longleftrightarrow> S = {..<chunk_count cap m}"
proof -
  have fin: "finite S" using assms(1) finite_subset by (auto simp: holds_chunks_def)
  have "(\<Sum>i\<in>S. length (chunk cap m i)) < (\<Sum>i<chunk_count cap m. length (chunk cap m i))"
    if "S \<noteq> {..<chunk_count cap m}"
  proof -
    have "S \<subset> {..<chunk_count cap m}" using that assms(1) by (auto simp: holds_chunks_def)
    then obtain j where j: "j < chunk_count cap m" "j \<notin> S" using psubset_imp_ex_mem by fastforce
    have "0 < length (chunk cap m j)" using j(1) chunk_nonempty [OF assms(2)] assms(2) by (simp add: chunk_def)
    then show ?thesis
      using j assms(1) by (intro sum_strict_mono2 [where b = j]) (auto simp: holds_chunks_def)
  qed
  then show ?thesis
    using holds_bytes(1) [OF assms] sum_chunks [OF assms(2), of m]
    by (cases "S = {..<chunk_count cap m}") auto
qed

lemma fits_next:
  assumes "holds_chunks lim cap m S t" "0 < cap" "i < chunk_count cap m" "i \<notin> S"
    and "chunk_count cap m \<le> max_fragments_per_message lim" "length m \<le> usize_max"
  shows "fits lim t (chunk_fragment hash cap m i)"
proof -
  have len: "i * cap + length (chunk cap m i) \<le> length m" and ne: "chunk cap m i \<noteq> []"
    using chunk_nonempty [OF assms(2), of i m] assms(2,3) by (auto simp: chunk_def)
  have frs: "\<exists>j\<in>S. o' = j * cap \<and> b = chunk cap m j" if "(o', b) \<in> set (fragments t)" for o' b
    using that assms(1) by (auto simp: holds_chunks_def)
  have "map_of (fragments t) (i * cap) = None"
    using frs assms(2,4) by (fastforce simp: map_of_eq_None_iff)
  moreover have "\<not> overlaps (fragments t) (i * cap) (i * cap + length (chunk cap m i))"
  proof (rule not_overlaps)
    fix o' b
    assume "(o', b) \<in> set (fragments t)"
    then obtain j where j: "j \<in> S" "o' = j * cap" "b = chunk cap m j" using frs by blast
    then have "j \<noteq> i" using assms(4) by auto
    then have "j * cap + cap \<le> i * cap \<or> i * cap + cap \<le> j * cap"
      by (metis add.commute linorder_neqE_nat mult_Suc mult_le_mono1 Suc_leI)
    then show "o' + length b \<le> i * cap \<or> i * cap + length (chunk cap m i) \<le> o'"
      by (auto simp: j chunk_def)
    show "b \<noteq> []"
      using j assms(1) chunk_nonempty [OF assms(2), of j m] assms(2) by (auto simp: holds_chunks_def chunk_def)
  qed (use ne in simp)
  moreover have "card S < chunk_count cap m"
    using assms(1,3,4) psubset_card_mono [of "{..<chunk_count cap m}" S] by (auto simp: holds_chunks_def)
  ultimately show ?thesis
    using len ne assms(1,5,6) holds_bytes(2) [OF assms(1,2)]
    by (simp add: fits_def chunk_fragment_def holds_chunks_def)
qed

lemma holds_insert:
  assumes "holds_chunks lim cap m S t" "i < chunk_count cap m" "fits lim t (chunk_fragment hash cap m i)"
  shows "holds_chunks lim cap m (insert i S) (transfer_insert t (chunk_fragment hash cap m i) now)"
proof -
  have "map_of (fragments t) (i * cap) = None" using assms(3) by (simp add: fits_def chunk_fragment_def)
  then show ?thesis
    using assms insert_partial(1) [OF _ assms(3), of now] set_bt_insert_new [of "fragments t" "i * cap"]
    by (auto simp: holds_chunks_def transfer_insert_def chunk_fragment_def)
qed

lemma assembled_full:
  assumes "holds_chunks lim cap m {..<chunk_count cap m} t" "0 < cap"
  shows "assembled t = m"
proof -
  have "concat (map snd (fragments t)) = drop 0 m"
  proof (rule frag_chain_full)
    show "frag_chain 0 (fragments t) (length m)" using assms(1) unfolding holds_chunks_def partial_ok_def by metis
    show "0 + kv_sum length (fragments t) = length m"
      using holds_full [OF assms] assms(1) by (simp add: holds_chunks_def partial_ok_def)
    show "b = take (length b) (drop o' m)" if "(o', b) \<in> set (fragments t)" for o' b
      using that assms(1) chunk_slice by (auto simp: holds_chunks_def)
  qed
  then show ?thesis by (simp add: assembled_def)
qed

section \<open>Receiving the fragments of one message\<close>

definition single :: "ReassemblyLimits \<Rightarrow> 'p \<Rightarrow> transfer_id \<Rightarrow> Transfer \<Rightarrow> 'p Reassembler" where
  "single lim p tid t =
    \<lparr>limits = lim, reasm_peers = [(p, \<lparr>transfers = [(tid, t)], peer_retained_bytes = tr_retained_bytes t\<rparr>)],
     total_retained_bytes = tr_retained_bytes t\<rparr>"

lemma make_byte_room_noop:
  assumes "peer_bytes r p + n \<le> max_reassembly_bytes_per_peer (limits r)"
    and "total_retained_bytes r + n \<le> max_total_reassembly_bytes (limits r)"
  shows "make_byte_room r p tid n ev = (True, r, ev)"
proof -
  have "evict_peer_bytes r p tid n ev = (True, r, ev)"
    using assms by (subst evict_peer_bytes.simps) (auto simp: sat_add_def)
  moreover have "evict_total_bytes r p tid n ev = (True, r, ev)"
    using assms by (subst evict_total_bytes.simps) (auto simp: sat_add_def)
  ultimately show ?thesis by (simp add: make_byte_room_def)
qed

definition roomy :: "ReassemblyLimits \<Rightarrow> nat \<Rightarrow> bytes \<Rightarrow> bool" where
  "roomy lim cap m \<longleftrightarrow>
    length m \<le> max_logical_message_size lim \<and> chunk_count cap m \<le> max_fragments_per_message lim \<and>
    1 \<le> max_incomplete_transfers_per_peer lim \<and> length m \<le> max_reassembly_bytes_per_peer lim \<and>
    length m \<le> max_total_reassembly_bytes lim \<and> length m < 2 ^ 32"

definition finish_or_keep ::
  "(bytes \<Rightarrow> 32 arr) \<Rightarrow> ReassemblyLimits \<Rightarrow> 'p \<Rightarrow> transfer_id \<Rightarrow> Transfer \<Rightarrow> (FrameError + ReceiveOutcome) \<times> 'p Reassembler" where
  "finish_or_keep hash lim p tid t =
    (if tr_retained_bytes t \<noteq> total_len t then (Inr Pending, single lim p tid t)
     else (if hash (assembled t) \<noteq> tid then Inl HashMismatch else Inr (Complete (assembled t)), for_identity lim))"

lemma fits_checks:
  assumes "fits lim t fi" "fi_total_len fi \<le> max_logical_message_size lim"
  shows "fi_bytes fi \<noteq> []" "\<not> max_logical_message_size lim < fi_total_len fi"
    "max_fragments_per_message lim \<noteq> 0"
    "checked_add (fi_offset fi) (length (fi_bytes fi)) = Some (fi_offset fi + length (fi_bytes fi))"
    "\<not> fi_total_len fi < fi_offset fi + length (fi_bytes fi)"
  using assms by (auto simp: fits_def checked_add_def)

lemma accept_first:
  assumes "fits lim (transfer_new (fi_total_len fi) now) fi" "fi_total_len fi \<le> max_logical_message_size lim"
    and "1 \<le> max_incomplete_transfers_per_peer lim" "length (fi_bytes fi) \<le> max_reassembly_bytes_per_peer lim"
    and "length (fi_bytes fi) \<le> max_total_reassembly_bytes lim"
  shows "accept_fragment hash (for_identity lim) p fi now ev =
    (let (res, r) = finish_or_keep hash lim p (fi_id fi) (transfer_insert (transfer_new (fi_total_len fi) now) fi now)
     in (res, r, ev))"
proof -
  let ?r = "for_identity lim :: 'a Reassembler"
  have slot: "make_transfer_slot ?r p tid (length (fi_bytes fi)) ev = (True, ?r, ev)" for tid
    using assms(3-5)
    by (subst make_transfer_slot_def, subst evict_slots.simps) (auto simp: for_identity_def peer_transfer_count_def)
  have room: "make_byte_room ?r p tid (length (fi_bytes fi)) ev = (True, ?r, ev)" for tid
    using assms(4,5) by (intro make_byte_room_noop) (auto simp: for_identity_def peer_bytes_def)
  have "accept_fragment hash ?r p fi now ev = begin_transfer hash ?r p fi now ev"
    using fits_checks [OF assms(1,2)]
    by (simp add: accept_fragment_def find_transfer_def) (simp add: for_identity_def)
  also have "\<dots> = (let (res, r) = store_fragment hash (start_transfer ?r p fi now) p fi now in (res, r, ev))"
    by (simp add: begin_transfer_def slot room)
  finally show ?thesis
    by (simp add: store_fragment_put [OF find_start refl] put_start finish_or_keep_def Let_def)
      (simp add: put_transfer_def remove_transfer_def for_identity_def single_def or_default_def
        transfer_insert_def transfer_new_def)
qed

lemma accept_more:
  assumes "fits lim t fi" "fi_total_len fi \<le> max_logical_message_size lim"
    and "tr_retained_bytes t + length (fi_bytes fi) \<le> max_reassembly_bytes_per_peer lim"
    and "tr_retained_bytes t + length (fi_bytes fi) \<le> max_total_reassembly_bytes lim"
  shows "accept_fragment hash (single lim p (fi_id fi) t) p fi now ev =
    (let (res, r) = finish_or_keep hash lim p (fi_id fi) (transfer_insert t fi now) in (res, r, ev))"
proof -
  let ?r = "single lim p (fi_id fi) t"
  have find: "find_transfer ?r p (fi_id fi) = Some t" and lim: "limits ?r = lim"
    by (simp_all add: single_def find_transfer_def)
  have room: "make_byte_room ?r p (fi_id fi) (length (fi_bytes fi)) ev = (True, ?r, ev)"
    using assms(3,4) by (intro make_byte_room_noop) (auto simp: single_def peer_bytes_def)
  have "accept_fragment hash ?r p fi now ev =
      extend_transfer hash ?r p t fi (fi_offset fi + length (fi_bytes fi)) now ev"
    using fits_checks [OF assms(1,2)] by (simp add: accept_fragment_def find lim)
  also have "\<dots> = (let (res, r) = store_fragment hash ?r p fi now in (res, r, ev))"
    using assms(1) by (simp add: extend_transfer_def fits_def room lim)
  finally show ?thesis
    by (simp add: store_fragment_put [OF find refl] finish_or_keep_def Let_def)
      (simp add: put_transfer_def remove_transfer_def for_identity_def single_def or_default_def transfer_insert_def)
qed

section \<open>Frames on the wire\<close>

lemma parse_write_fragment:
  assumes "write_fragment tid len off bs = Inr frame"
  shows "FRAGMENT_HEADER_LEN \<le> length frame" "\<exists>rest. frame = FRAGMENT_TAG # rest"
    "parse_fragment frame = \<lparr>fi_id = tid, fi_total_len = len, fi_offset = off, fi_bytes = bs\<rparr>"
proof -
  have frame: "frame = FRAGMENT_TAG # arr_bytes tid @ le_bytes 4 len @ le_bytes 4 off @ bs"
    and len: "len < 256 ^ 4" and off: "off < 256 ^ 4"
    using assms by (auto simp: write_fragment_def split: if_splits)
  show "FRAGMENT_HEADER_LEN \<le> length frame" "\<exists>rest. frame = FRAGMENT_TAG # rest"
    by (simp_all add: frame frame_consts)
  have "take 32 (drop 1 frame) = arr_bytes tid" by (simp add: frame)
  moreover have "drop 33 frame = le_bytes 4 len @ le_bytes 4 off @ bs" by (simp add: frame)
  moreover have "drop 37 frame = le_bytes 4 off @ bs" "drop 41 frame = bs" by (simp_all add: frame)
  ultimately show "parse_fragment frame = \<lparr>fi_id = tid, fi_total_len = len, fi_offset = off, fi_bytes = bs\<rparr>"
    using len off by (simp add: parse_fragment_def frame_consts arr_bytes_inverse)
qed

definition chunk_frame :: "(bytes \<Rightarrow> 32 arr) \<Rightarrow> nat \<Rightarrow> bytes \<Rightarrow> nat \<Rightarrow> FrameError + bytes" where
  "chunk_frame hash cap m i = write_fragment (transfer_id hash m) (length m) (i * cap) (chunk cap m i)"

lemma chunk_frame_ok:
  assumes "0 < cap" "i < chunk_count cap m" "length m < 2 ^ 32"
  shows "\<exists>frame. chunk_frame hash cap m i = Inr frame"
  using chunk_nonempty [OF assms(1), of i m] assms by (auto simp: chunk_frame_def write_fragment_def)

definition frame_payload :: "bytes \<Rightarrow> Payload" where
  "frame_payload bs = \<lparr>pl_bytes = bs, pl_seq = 0, pl_stamp = 0\<rparr>"

lemma reasm_accept_chunk:
  assumes "chunk_frame hash cap m i = Inr frame" "expire r now = (0, r)" "pl_bytes payload = frame"
  shows "reasm_accept hash r p payload now =
    (let (res, r', ev) = accept_fragment hash r p (chunk_fragment hash cap m i) now 0
     in (reasm_report r' res 0 ev True, r'))"
proof -
  note pw = parse_write_fragment [OF assms(1) [unfolded chunk_frame_def]]
  obtain rest where rest: "frame = FRAGMENT_TAG # rest" using pw(2) by blast
  have tag: "FRAGMENT_TAG \<noteq> COMPLETE_TAG" by (simp add: frame_consts)
  have len: "\<not> length (FRAGMENT_TAG # rest) < FRAGMENT_HEADER_LEN" using pw(1) by (simp add: rest)
  have fi: "parse_fragment (FRAGMENT_TAG # rest) = chunk_fragment hash cap m i"
    using pw(3) by (simp add: rest chunk_fragment_def transfer_id_def)
  show ?thesis
    unfolding reasm_accept_def assms(2,3) rest using tag len fi by simp
qed

lemma expire_single:
  assumes "now - last_activity t < reassembly_ttl lim"
  shows "expire (single lim p tid t) now = (0, single lim p tid t)"
  using assms by (simp add: expire_def all_transfers_def single_def kv_iter_def)

lemma expire_empty: "expire (for_identity lim) now = (0, for_identity lim)"
  by (simp add: expire_def all_transfers_def for_identity_def kv_iter_def)

section \<open>Any order\<close>

fun outcomes ::
  "(bytes \<Rightarrow> 32 arr) \<Rightarrow> 'p::linorder Reassembler \<Rightarrow> ('p \<times> Payload \<times> instant) list \<Rightarrow> (FrameError + ReceiveOutcome) list" where
  "outcomes hash r [] = []"
| "outcomes hash r ((p, payload, now) # es) =
    (let (rep, r') = reasm_accept hash r p payload now in outcome rep # outcomes hash r' es)"

definition chunk_arrival :: "(bytes \<Rightarrow> 32 arr) \<Rightarrow> nat \<Rightarrow> bytes \<Rightarrow> 'p \<Rightarrow> nat \<times> instant \<Rightarrow> 'p \<times> Payload \<times> instant" where
  "chunk_arrival hash cap m p it = (p, frame_payload (projr (chunk_frame hash cap m (fst it))), snd it)"

lemma reasm_accept_more:
  assumes "0 < cap" "roomy lim cap m" "holds_chunks lim cap m S t" "i < chunk_count cap m" "i \<notin> S"
    and "now - last_activity t < reassembly_ttl lim"
    and "t' = transfer_insert t (chunk_fragment hash cap m i) now" "pl_bytes payload = projr (chunk_frame hash cap m i)"
  shows "reasm_accept hash (single lim p (hash m) t) p payload now =
    (let (res, r) = finish_or_keep hash lim p (hash m) t' in (reasm_report r res 0 0 True, r))"
    and "holds_chunks lim cap m (insert i S) t'"
proof -
  obtain frame where frame: "chunk_frame hash cap m i = Inr frame"
    using chunk_frame_ok [OF assms(1,4)] assms(2) by (auto simp: roomy_def)
  have fit: "fits lim t (chunk_fragment hash cap m i)"
    using assms(2) by (intro fits_next [OF assms(3,1,4,5)]) (auto simp: roomy_def usize_max_def)
  then show h: "holds_chunks lim cap m (insert i S) t'"
    using holds_insert [OF assms(3,4)] assms(7) by simp
  have "tr_retained_bytes t' \<le> length m"
    using insert_partial(2) [OF _ fit, of now] assms(3,7) by (simp add: holds_chunks_def transfer_insert_def)
  then have "tr_retained_bytes t + length (chunk cap m i) \<le> length m"
    by (simp add: assms(7) transfer_insert_def chunk_fragment_def)
  then have "accept_fragment hash (single lim p (hash m) t) p (chunk_fragment hash cap m i) now 0 =
      (let (res, r) = finish_or_keep hash lim p (hash m) t' in (res, r, 0))"
    using accept_more [OF fit, of hash p now 0] assms(2,7) by (simp add: roomy_def chunk_fragment_def)
  then show "reasm_accept hash (single lim p (hash m) t) p payload now =
    (let (res, r) = finish_or_keep hash lim p (hash m) t' in (reasm_report r res 0 0 True, r))"
    using reasm_accept_chunk [OF frame expire_single [OF assms(6), of p "hash m"], of payload p] assms(8) frame
    by (simp add: split_beta Let_def)
qed

lemma chunk_accepted:
  assumes "0 < cap" "roomy lim cap m" "holds_chunks lim cap m S t" "i < chunk_count cap m" "i \<notin> S"
    and "now - last_activity t < reassembly_ttl lim"
    and "t' = transfer_insert t (chunk_fragment hash cap m i) now"
  shows "outcomes hash (single lim p (hash m) t) (chunk_arrival hash cap m p (i, now) # es) =
    (let (res, r) = finish_or_keep hash lim p (hash m) t' in res # outcomes hash r es)"
    and "holds_chunks lim cap m (insert i S) t'"
  using reasm_accept_more(1) [OF assms, of "frame_payload (projr (chunk_frame hash cap m i))" p]
    reasm_accept_more(2) [OF assms, of "frame_payload (projr (chunk_frame hash cap m i))"]
  by (simp_all add: chunk_arrival_def frame_payload_def reasm_report_def split_beta Let_def)

lemma rest_outcomes:
  assumes "0 < cap" "roomy lim cap m" "holds_chunks lim cap m S t" "t0 \<le> last_activity t"
    and "distinct (map fst its)" "set (map fst its) = {..<chunk_count cap m} - S" "its \<noteq> []"
    and "\<And>now. now \<in> snd ` set its \<Longrightarrow> t0 \<le> now \<and> now < t0 + reassembly_ttl lim"
  shows "outcomes hash (single lim p (hash m) t) (map (chunk_arrival hash cap m p) its @ es) =
    replicate (length its - 1) (Inr Pending) @ Inr (Complete m) # outcomes hash (for_identity lim) es"
  using assms(3-8)
proof (induction its arbitrary: S t)
  case (Cons it its)
  obtain i now where it: "it = (i, now)" by (cases it)
  define t' where "t' = transfer_insert t (chunk_fragment hash cap m i) now"
  have i: "i < chunk_count cap m" "i \<notin> S" using Cons.prems(4) by (auto simp: it)
  have now: "t0 \<le> now" "now < t0 + reassembly_ttl lim" using Cons.prems(6) by (auto simp: it)
  then have fresh: "now - last_activity t < reassembly_ttl lim" using Cons.prems(2) by linarith
  note acc = chunk_accepted [OF assms(1,2) Cons.prems(1) i fresh t'_def]
  have len: "total_len t' = length m" using acc(2) by (simp add: holds_chunks_def)
  have rest: "set (map fst its) = {..<chunk_count cap m} - insert i S"
    using Cons.prems(3,4) by (auto simp: it)
  show ?case
  proof (cases "its = []")
    case True
    then have full: "insert i S = {..<chunk_count cap m}"
      using rest acc(2) by (auto simp: holds_chunks_def)
    then have "tr_retained_bytes t' = length m" "assembled t' = m"
      using holds_full [OF acc(2) assms(1)] assembled_full [of lim cap m t'] acc(2) assms(1) by auto
    then show ?thesis using acc(1) [of p es] by (simp add: True it finish_or_keep_def len)
  next
    case False
    then have "insert i S \<noteq> {..<chunk_count cap m}" using rest by (cases its) auto
    then have "tr_retained_bytes t' \<noteq> length m" using holds_full [OF acc(2) assms(1)] by simp
    moreover have "outcomes hash (single lim p (hash m) t') (map (chunk_arrival hash cap m p) its @ es) =
        replicate (length its - 1) (Inr Pending) @ Inr (Complete m) # outcomes hash (for_identity lim) es"
      using Cons.prems(3,6) rest False now(1)
      by (intro Cons.IH [OF acc(2)]) (auto simp: it t'_def transfer_insert_def)
    ultimately show ?thesis
      using acc(1) [of p "map (chunk_arrival hash cap m p) its @ es"] False
      by (cases its) (simp_all add: it finish_or_keep_def len)
  qed
qed simp

lemma reasm_accept_first:
  assumes "0 < cap" "roomy lim cap m" "i < chunk_count cap m"
    and "t' = transfer_insert (transfer_new (length m) now) (chunk_fragment hash cap m i) now"
      "pl_bytes payload = projr (chunk_frame hash cap m i)"
  shows "reasm_accept hash (for_identity lim) p payload now =
    (let (res, r) = finish_or_keep hash lim p (hash m) t' in (reasm_report r res 0 0 True, r))"
    and "holds_chunks lim cap m {i} t'"
proof -
  obtain frame where frame: "chunk_frame hash cap m i = Inr frame"
    using chunk_frame_ok [OF assms(1,3)] assms(2) by (auto simp: roomy_def)
  have none: "holds_chunks lim cap m {} (transfer_new (length m) now)"
    using assms(2) partial_new [of "length m" lim now] by (simp add: holds_chunks_def roomy_def transfer_new_def)
  then have fit: "fits lim (transfer_new (length m) now) (chunk_fragment hash cap m i)"
    using assms(1-3) by (intro fits_next) (auto simp: roomy_def usize_max_def)
  then show "holds_chunks lim cap m {i} t'" using holds_insert [OF none assms(3)] assms(4) by simp
  have "length (chunk cap m i) \<le> length m" by (simp add: chunk_def)
  then have "accept_fragment hash (for_identity lim) p (chunk_fragment hash cap m i) now 0 =
      (let (res, r) = finish_or_keep hash lim p (hash m) t' in (res, r, 0))"
    using accept_first [of lim "chunk_fragment hash cap m i" now hash p 0] fit assms(2,4)
    by (simp add: roomy_def chunk_fragment_def)
  then show "reasm_accept hash (for_identity lim) p payload now =
    (let (res, r) = finish_or_keep hash lim p (hash m) t' in (reasm_report r res 0 0 True, r))"
    using reasm_accept_chunk [OF frame expire_empty [of lim now], of payload p] assms(5) frame
    by (simp add: split_beta Let_def)
qed

lemma first_outcome:
  assumes "0 < cap" "roomy lim cap m" "i < chunk_count cap m"
    and "t' = transfer_insert (transfer_new (length m) now) (chunk_fragment hash cap m i) now"
  shows "outcomes hash (for_identity lim) (chunk_arrival hash cap m p (i, now) # es) =
    (let (res, r) = finish_or_keep hash lim p (hash m) t' in res # outcomes hash r es)"
    and "holds_chunks lim cap m {i} t'"
  using reasm_accept_first(1) [OF assms, of "frame_payload (projr (chunk_frame hash cap m i))" p]
    reasm_accept_first(2) [OF assms, of "frame_payload (projr (chunk_frame hash cap m i))"]
  by (simp_all add: chunk_arrival_def frame_payload_def reasm_report_def split_beta Let_def)

lemma all_outcomes:
  assumes "0 < cap" "roomy lim cap m" "m \<noteq> []"
    and "distinct (map fst its)" "set (map fst its) = {..<chunk_count cap m}"
    and "\<And>now. now \<in> snd ` set its \<Longrightarrow> t0 \<le> now \<and> now < t0 + reassembly_ttl lim"
  shows "outcomes hash (for_identity lim) (map (chunk_arrival hash cap m p) its @ es) =
    replicate (length its - 1) (Inr Pending) @ Inr (Complete m) # outcomes hash (for_identity lim) es"
proof -
  have "0 < chunk_count cap m" using chunk_nonempty [OF assms(1), of 0 m] assms(3) by simp
  then obtain i now rest where its: "its = (i, now) # rest"
    using assms(5) by (cases its) auto
  define t' where "t' = transfer_insert (transfer_new (length m) now) (chunk_fragment hash cap m i) now"
  have i: "i < chunk_count cap m" using assms(5) by (auto simp: its)
  note acc = first_outcome [OF assms(1,2) i t'_def]
  have len: "total_len t' = length m" using acc(2) by (simp add: holds_chunks_def)
  show ?thesis
  proof (cases "rest = []")
    case True
    then have full: "{i} = {..<chunk_count cap m}" using assms(5) by (auto simp: its)
    then have "tr_retained_bytes t' = length m" "assembled t' = m"
      using holds_full [OF acc(2) assms(1)] assembled_full [of lim cap m t'] acc(2) assms(1) by auto
    then show ?thesis using acc(1) [of p es] by (simp add: True its finish_or_keep_def len)
  next
    case False
    have rest: "set (map fst rest) = {..<chunk_count cap m} - {i}" using assms(4,5) by (auto simp: its)
    then have "{i} \<noteq> {..<chunk_count cap m}" using False by (cases rest) auto
    then have "tr_retained_bytes t' \<noteq> length m" using holds_full [OF acc(2) assms(1)] by simp
    moreover have "outcomes hash (single lim p (hash m) t') (map (chunk_arrival hash cap m p) rest @ es) =
        replicate (length rest - 1) (Inr Pending) @ Inr (Complete m) # outcomes hash (for_identity lim) es"
      using assms(4,6) rest False
      by (intro rest_outcomes [OF assms(1,2) acc(2), of t0]) (auto simp: its t'_def transfer_insert_def)
    ultimately show ?thesis
      using acc(1) [of p "map (chunk_arrival hash cap m p) rest @ es"] False
      by (cases rest) (simp_all add: its finish_or_keep_def len)
  qed
qed

section \<open>Properties\<close>

text \<open>C9: a message cut into chunks of any capacity and delivered as fragment frames in any order
  to a fresh receiver whose limits admit it is reassembled to the same bytes: every frame but the
  last is pending, and the last completes the message. The frames arrive within the
  inactivity time-to-live of the first instant.\<close>

theorem fragments_reassemble_in_any_order:
  assumes "0 < cap" "roomy lim cap m" "m \<noteq> []"
    and "distinct (map fst its)" "set (map fst its) = {..<chunk_count cap m}"
    and "\<forall>it\<in>set its. t0 \<le> snd it \<and> snd it < t0 + reassembly_ttl lim"
  shows "outcomes hash (for_identity lim) (map (chunk_arrival hash cap m p) its) =
    replicate (length its - 1) (Inr Pending) @ [Inr (Complete m)]"
  using all_outcomes [OF assms(1-5), of t0 hash p "[]"] assms(6) by auto

theorem fragments_reassemble_in_any_order_witness:
  "outcomes (\<lambda>m. arr_zero) (for_identity demo_limits)
     (map (chunk_arrival (\<lambda>m. arr_zero) 2 [5, 6, 7] (1 :: nat)) [(1, 3), (0, 4)]) =
   [Inr Pending, Inr (Complete [5, 6, 7])]"
proof -
  have n: "chunk_count 2 [5, 6, 7] = 2" "{..<2 :: nat} = {1, 0}" by (auto simp: chunk_count_def)
  then have "roomy demo_limits 2 [5, 6, 7]" "set (map fst [(1, 3), (0, 4 :: nat)]) = {..<chunk_count 2 [5, 6, 7]}"
    by (simp_all add: roomy_def demo_limits_def)
  then show ?thesis
    using fragments_reassemble_in_any_order [of 2 demo_limits "[5, 6, 7]" "[(1, 3), (0, 4)]" 0
        "\<lambda>m. arr_zero" "1 :: nat"]
    by (simp add: demo_limits_def)
qed

theorem delivered_message_matches_id_witness:
  "accept_fragment (\<lambda>m. arr_zero) (for_identity demo_limits) (1 :: nat)
     \<lparr>fi_id = arr_zero, fi_total_len = 1, fi_offset = 0, fi_bytes = [5]\<rparr> 0 0 =
     (Inr (Complete [5]), for_identity demo_limits, 0) \<and>
   find_transfer (for_identity demo_limits) (1 :: nat) arr_zero = None"
proof
  let ?fi = "\<lparr>fi_id = arr_zero, fi_total_len = 1, fi_offset = 0, fi_bytes = [5]\<rparr>"
  have "budgets_finite demo_limits" by (simp add: budgets_finite_def demo_limits_def usize_max_def)
  then have ok: "reasm_ok (for_identity demo_limits :: nat Reassembler)" by (rule reasm_ok_init)
  show acc: "accept_fragment (\<lambda>m. arr_zero) (for_identity demo_limits) (1 :: nat) ?fi 0 0 =
      (Inr (Complete [5]), for_identity demo_limits, 0)"
    by (subst accept_first)
      (simp_all add: fits_def transfer_new_def transfer_insert_def overlaps_def
        demo_limits_def finish_or_keep_def assembled_def usize_max_def)
  show "find_transfer (for_identity demo_limits) (1 :: nat) arr_zero = None"
    using delivered_message_matches_id [OF ok acc] by simp
qed

end
