(* ===== verification/FragRecovery.thy ===== *)
theory FragRecovery
  imports Reassembly
begin

text \<open>
  Selective recovery of fragmented messages (\<open>gossip/src/framing/recovery.rs\<close>): the control
  frames that report missing byte ranges and acknowledge completion, and the receiver's
  computation and rate limiting of such reports. A \<open>u32\<close> is a natural number below \<open>2 ^ 32\<close>; the
  casts \<open>as u32\<close> are written out.
\<close>

section \<open>Control frames\<close>

definition MISSING_REPORT_TAG :: byte where "MISSING_REPORT_TAG = 2"
definition COMPLETION_ACK_TAG :: byte where "COMPLETION_ACK_TAG = 3"
definition MISSING_REPORT_HEADER_LEN :: nat where "MISSING_REPORT_HEADER_LEN = 35"
definition MISSING_RANGE_LEN :: nat where "MISSING_RANGE_LEN = 8"
definition COMPLETION_ACK_LEN :: nat where "COMPLETION_ACK_LEN = 33"

lemmas recovery_consts = MISSING_REPORT_TAG_def COMPLETION_ACK_TAG_def MISSING_REPORT_HEADER_LEN_def
  MISSING_RANGE_LEN_def COMPLETION_ACK_LEN_def

record FragmentMetadata =
  fm_transfer_id :: transfer_id
  fm_total_len :: nat
  fm_offset :: nat
  fm_payload_len :: nat

definition is_terminal :: "FragmentMetadata \<Rightarrow> bool" where
  "is_terminal fm = (case checked_add (fm_offset fm) (fm_payload_len fm) of
     None \<Rightarrow> False | Some stop \<Rightarrow> stop = fm_total_len fm)"

definition fragment_metadata :: "bytes \<Rightarrow> FragmentMetadata option" where
  "fragment_metadata bs =
    (if (bs = [] \<or> hd bs \<noteq> FRAGMENT_TAG) \<or> length bs \<le> FRAGMENT_HEADER_LEN then None
     else Some \<lparr>fm_transfer_id = Abs_arr (take 32 (drop 1 bs)), fm_total_len = le_val (take 4 (drop 33 bs)),
                fm_offset = le_val (take 4 (drop 37 bs)), fm_payload_len = length bs - FRAGMENT_HEADER_LEN\<rparr>)"

type_synonym byte_range = "nat \<times> nat"

datatype RecoveryControl = Missing transfer_id "byte_range list" | CompleteAck transfer_id

datatype RecoveryControlError = Truncated | InvalidLength | TooManyRanges | InvalidRange

definition max_missing_ranges_for_budget :: "nat \<Rightarrow> nat \<Rightarrow> nat \<Rightarrow> nat" where
  "max_missing_ranges_for_budget budget auth_overhead configured_max =
    min (min (case checked_sub budget (auth_overhead + MISSING_REPORT_HEADER_LEN) of
                None \<Rightarrow> 0 | Some bs \<Rightarrow> bs div MISSING_RANGE_LEN)
          configured_max) (2 ^ 16 - 1)"

fun validate_ranges_from :: "nat \<Rightarrow> byte_range list \<Rightarrow> RecoveryControlError + unit" where
  "validate_ranges_from previous_end [] = Inr ()"
| "validate_ranges_from previous_end ((offset, len) # ranges) =
    (if len = 0 then Inl InvalidRange
     else if 2 ^ 32 \<le> offset + len then Inl InvalidRange
     else if offset < previous_end then Inl InvalidRange
     else validate_ranges_from (offset + len) ranges)"

definition validate_ranges :: "byte_range list \<Rightarrow> RecoveryControlError + unit" where
  "validate_ranges ranges = validate_ranges_from 0 ranges"

definition write_missing_report :: "transfer_id \<Rightarrow> byte_range list \<Rightarrow> RecoveryControlError + bytes" where
  "write_missing_report tid ranges =
    (if 2 ^ 16 \<le> length ranges then Inl TooManyRanges
     else case validate_ranges ranges of
       Inl e \<Rightarrow> Inl e
     | Inr _ \<Rightarrow> Inr (MISSING_REPORT_TAG # arr_bytes tid @ le_bytes 2 (length ranges) @
         concat (map (\<lambda>(offset, len). le_bytes 4 offset @ le_bytes 4 len) ranges)))"

definition write_completion_ack :: "transfer_id \<Rightarrow> bytes" where
  "write_completion_ack tid = COMPLETION_ACK_TAG # arr_bytes tid"

text \<open>\<open>chunks_exact(8)\<close> and the two integers of each chunk.\<close>

function parse_ranges :: "bytes \<Rightarrow> byte_range list" where
  "parse_ranges bs =
    (if length bs < 8 then []
     else (le_val (take 4 bs), le_val (take 4 (drop 4 bs))) # parse_ranges (drop 8 bs))"
  by auto
termination by (relation "measure length") auto

declare parse_ranges.simps [simp del]

definition parse_recovery_control :: "bytes \<Rightarrow> nat \<Rightarrow> RecoveryControlError + RecoveryControl option" where
  "parse_recovery_control bs max_missing_ranges =
    (case bs of
       [] \<Rightarrow> Inr None
     | tag # _ \<Rightarrow>
        if tag = MISSING_REPORT_TAG then
          if length bs < MISSING_REPORT_HEADER_LEN then Inl Truncated
          else let count = le_val (take 2 (drop 33 bs))
               in if max_missing_ranges < count then Inl TooManyRanges
                  else if length bs \<noteq> MISSING_REPORT_HEADER_LEN + count * MISSING_RANGE_LEN then Inl InvalidLength
                  else let ranges = parse_ranges (drop MISSING_REPORT_HEADER_LEN bs)
                       in case validate_ranges ranges of
                            Inl e \<Rightarrow> Inl e
                          | Inr _ \<Rightarrow> Inr (Some (Missing (Abs_arr (take 32 (drop 1 bs))) ranges))
        else if tag = COMPLETION_ACK_TAG then
          if length bs < COMPLETION_ACK_LEN then Inl Truncated
          else if length bs \<noteq> COMPLETION_ACK_LEN then Inl InvalidLength
          else Inr (Some (CompleteAck (Abs_arr (drop 1 bs))))
        else Inr None)"

section \<open>Missing ranges\<close>

definition as_u32 :: "nat \<Rightarrow> nat" where
  "as_u32 n = n mod 2 ^ 32"

fun missing_loop :: "nat \<Rightarrow> nat \<Rightarrow> byte_range list \<Rightarrow> nat \<Rightarrow> (nat, bytes) kv \<Rightarrow> byte_range list" where
  "missing_loop len max_ranges ranges cursor [] =
    (if cursor < len then ranges @ [(as_u32 cursor, as_u32 (len - cursor))] else ranges)"
| "missing_loop len max_ranges ranges cursor ((offset, bs) # frs) =
    (let ranges' = (if cursor < offset then ranges @ [(as_u32 cursor, as_u32 (offset - cursor))] else ranges)
     in if cursor < offset \<and> length ranges' = max_ranges then ranges'
        else missing_loop len max_ranges ranges' (offset + length bs) frs)"

definition missing_ranges_for_transfer :: "Transfer \<Rightarrow> nat \<Rightarrow> byte_range list" where
  "missing_ranges_for_transfer t max_ranges =
    (if max_ranges = 0 then [] else missing_loop (total_len t) max_ranges [] 0 (fragments t))"

definition missing_ranges :: "'p Reassembler \<Rightarrow> 'p \<Rightarrow> transfer_id \<Rightarrow> nat \<Rightarrow> byte_range list" where
  "missing_ranges r peer tid max_ranges =
    (if max_ranges = 0 then []
     else case find_transfer r peer tid of
       None \<Rightarrow> [] | Some t \<Rightarrow> missing_ranges_for_transfer t max_ranges)"

definition set_missing_request :: "'p Reassembler \<Rightarrow> 'p \<Rightarrow> transfer_id \<Rightarrow> instant \<Rightarrow> 'p Reassembler" where
  "set_missing_request r peer tid now =
    (case map_of (reasm_peers r) peer of
       None \<Rightarrow> r
     | Some state \<Rightarrow>
        (case map_of (transfers state) tid of
           None \<Rightarrow> r
         | Some t \<Rightarrow>
            r\<lparr>reasm_peers := AList.update peer
               (state\<lparr>transfers := AList.update tid (t\<lparr>last_missing_request := Some now\<rparr>) (transfers state)\<rparr>)
               (reasm_peers r)\<rparr>))"

definition missing_ranges_if_due ::
  "'p Reassembler \<Rightarrow> 'p \<Rightarrow> transfer_id \<Rightarrow> instant \<Rightarrow> duration \<Rightarrow> nat \<Rightarrow> byte_range list \<times> 'p Reassembler" where
  "missing_ranges_if_due r peer tid now retry_interval max_ranges =
    (if max_ranges = 0 then ([], r)
     else case find_transfer r peer tid of
       None \<Rightarrow> ([], r)
     | Some t \<Rightarrow>
        if (case last_missing_request t of None \<Rightarrow> False | Some prev \<Rightarrow> now - prev < retry_interval) then ([], r)
        else let ranges = missing_ranges_for_transfer t max_ranges
             in (ranges, if ranges \<noteq> [] then set_missing_request r peer tid now else r))"

record 'p MissingRequest =
  mr_peer :: 'p
  mr_transfer_id :: transfer_id
  mr_ranges :: "byte_range list"

definition idle_due :: "instant \<Rightarrow> duration \<Rightarrow> duration \<Rightarrow> Transfer \<Rightarrow> bool" where
  "idle_due now min_idle retry_interval t \<longleftrightarrow>
    min_idle \<le> now - last_activity t \<and>
    (case last_missing_request t of None \<Rightarrow> True | Some prev \<Rightarrow> retry_interval \<le> now - prev)"

fun poll_loop ::
  "'p Reassembler \<Rightarrow> instant \<Rightarrow> nat \<Rightarrow> nat \<Rightarrow> 'p MissingRequest list \<Rightarrow> ('p \<times> transfer_id) list \<Rightarrow>
    'p MissingRequest list \<times> 'p Reassembler" where
  "poll_loop r now max_ranges max_reports reports [] = (reports, r)"
| "poll_loop r now max_ranges max_reports reports ((peer, tid) # cs) =
    (if max_reports \<le> length reports then (reports, r)
     else case find_transfer r peer tid of
       None \<Rightarrow> poll_loop r now max_ranges max_reports reports cs
     | Some t \<Rightarrow>
        let ranges = missing_ranges_for_transfer t max_ranges
        in if ranges \<noteq> []
           then poll_loop (set_missing_request r peer tid now) now max_ranges max_reports
             (reports @ [\<lparr>mr_peer = peer, mr_transfer_id = tid, mr_ranges = ranges\<rparr>]) cs
           else poll_loop r now max_ranges max_reports reports cs)"

definition poll_idle_missing ::
  "'p::linorder Reassembler \<Rightarrow> instant \<Rightarrow> duration \<Rightarrow> duration \<Rightarrow> nat \<Rightarrow> nat \<Rightarrow>
    'p MissingRequest list \<times> 'p Reassembler" where
  "poll_idle_missing r now min_idle retry_interval max_ranges max_reports =
    (if max_ranges = 0 then ([], r)
     else if max_reports = 0 then ([], r)
     else let candidates = sort (map (\<lambda>(peer, tid, _). (peer, tid))
            (filter (\<lambda>(_, _, t). idle_due now min_idle retry_interval t) (all_transfers r)))
          in poll_loop r now max_ranges max_reports [] candidates)"

section \<open>The control codec\<close>

definition range_bytes :: "byte_range \<Rightarrow> bytes" where
  "range_bytes r = (case r of (offset, len) \<Rightarrow> le_bytes 4 offset @ le_bytes 4 len)"

lemma range_bytes_fun: "(\<lambda>(offset, len). le_bytes 4 offset @ le_bytes 4 len) = range_bytes"
  by (simp add: fun_eq_iff range_bytes_def)

lemma length_range_bytes [simp, len_simps]: "length (range_bytes r) = 8"
  by (cases r) (simp add: range_bytes_def)

lemma length_ranges [simp, len_simps]: "length (concat (map range_bytes rs)) = 8 * length rs"
  by (induction rs) simp_all

lemma parse_ranges_short: "length bs < 8 \<Longrightarrow> parse_ranges bs = []"
  by (subst parse_ranges.simps) simp

lemma parse_ranges_encode:
  assumes "\<And>o' l. (o', l) \<in> set rs \<Longrightarrow> o' < 2 ^ 32 \<and> l < 2 ^ 32"
  shows "parse_ranges (concat (map range_bytes rs)) = rs"
  using assms
proof (induction rs)
  case (Cons r rs)
  obtain o' l where r: "r = (o', l)" by (cases r)
  have "o' < 256 ^ 4" "l < 256 ^ 4" using Cons.prems [of o' l] by (simp_all add: r)
  then have "le_val (take 4 (range_bytes r @ xs)) = o'" "le_val (take 4 (drop 4 (range_bytes r @ xs))) = l"
    "drop 8 (range_bytes r @ xs) = xs" for xs
    by (simp_all add: range_bytes_def r)
  moreover have "parse_ranges (concat (map range_bytes rs)) = rs" using Cons by auto
  ultimately show ?case by (subst parse_ranges.simps) (simp add: r)
qed (simp add: parse_ranges_short)

lemma encode_parse_ranges:
  "length bs = 8 * n \<Longrightarrow> concat (map range_bytes (parse_ranges bs)) = bs \<and> length (parse_ranges bs) = n"
proof (induction n arbitrary: bs)
  case 0
  then show ?case by (simp add: parse_ranges_short)
next
  case (Suc n)
  have split: "bs = take 4 bs @ take 4 (drop 4 bs) @ drop 8 bs"
    using append_take_drop_id [of 4 "drop 4 bs"] by simp
  have "range_bytes (le_val (take 4 bs), le_val (take 4 (drop 4 bs))) = take 4 bs @ take 4 (drop 4 bs)"
    using Suc.prems by (simp add: range_bytes_def)
  moreover have "concat (map range_bytes (parse_ranges (drop 8 bs))) = drop 8 bs"
    "length (parse_ranges (drop 8 bs)) = n"
    using Suc.IH [of "drop 8 bs"] Suc.prems by auto
  ultimately show ?case
    using Suc.prems split by (subst (1 2) parse_ranges.simps) simp
qed

lemma validate_bounds:
  assumes "validate_ranges_from prev rs = Inr ()" "(o', l) \<in> set rs"
  shows "prev \<le> o' \<and> 0 < l \<and> o' + l < 2 ^ 32"
  using assms
proof (induction prev rs rule: validate_ranges_from.induct)
  case (2 prev o1 l1 rs)
  then show ?case by (fastforce split: if_splits)
qed simp

lemma parse_write_report:
  assumes "write_missing_report tid rs = Inr frame" "length rs \<le> max_ranges"
  shows "parse_recovery_control frame max_ranges = Inr (Some (Missing tid rs))"
proof -
  have ok: "validate_ranges rs = Inr ()" and len: "length rs < 256 ^ 2"
    and frame: "frame = MISSING_REPORT_TAG # arr_bytes tid @ le_bytes 2 (length rs) @ concat (map range_bytes rs)"
    using assms(1)
    by (auto simp: write_missing_report_def range_bytes_def fun_eq_iff split: if_splits sum.splits
        intro!: arg_cong [where f = concat] map_cong)
  have "parse_ranges (concat (map range_bytes rs)) = rs"
    using ok validate_bounds [of 0 rs] by (intro parse_ranges_encode) (fastforce simp: validate_ranges_def)+
  then show ?thesis
    using assms(2) ok len
    by (simp add: parse_recovery_control_def frame recovery_consts arr_bytes_inverse)
qed

lemma parse_write_ack: "parse_recovery_control (write_completion_ack tid) n = Inr (Some (CompleteAck tid))"
  by (simp add: parse_recovery_control_def write_completion_ack_def recovery_consts arr_bytes_inverse)

lemma write_parse_report:
  assumes "parse_recovery_control bs n = Inr (Some (Missing tid rs))"
  shows "write_missing_report tid rs = Inr bs \<and> length rs \<le> n"
proof -
  obtain tag rest where "bs = tag # rest"
    using assms by (cases bs) (simp_all add: parse_recovery_control_def)
  moreover have "tag = MISSING_REPORT_TAG"
    using assms unfolding calculation parse_recovery_control_def
    by (simp add: Let_def split: if_splits)
  ultimately have bs: "bs = MISSING_REPORT_TAG # rest" by simp
  define count where "count = le_val (take 2 (drop 33 bs))"
  have "parse_recovery_control bs n =
      (if length bs < 35 then Inl Truncated else if n < count then Inl TooManyRanges
       else if length bs \<noteq> 35 + count * 8 then Inl InvalidLength
       else case validate_ranges (parse_ranges (drop 35 bs)) of
         Inl e \<Rightarrow> Inl e
       | Inr _ \<Rightarrow> Inr (Some (Missing (Abs_arr (take 32 (drop 1 bs))) (parse_ranges (drop 35 bs)))))"
    unfolding parse_recovery_control_def count_def Let_def recovery_consts by (simp add: bs MISSING_REPORT_TAG_def)
  with assms have le: "count \<le> n" and len: "length bs = 35 + count * 8"
    and rs: "rs = parse_ranges (drop 35 bs)" and ok: "validate_ranges rs = Inr ()"
    and tid: "tid = Abs_arr (take 32 (drop 1 bs))"
    by (simp_all split: if_splits sum.splits)
  have enc: "concat (map range_bytes rs) = drop 35 bs" "length rs = count"
    using encode_parse_ranges [of "drop 35 bs" count] len by (simp_all add: rs)
  have two: "length (take 2 (drop 33 bs)) = 2" using len by simp
  have less: "count < 256 ^ 2" using le_val_bound [of "take 2 (drop 33 bs)"] unfolding two count_def .
  have "le_bytes 2 count = take 2 (drop 33 bs)" unfolding count_def using two by (rule le_bytes_le_val)
  moreover have "arr_bytes tid = take 32 (drop 1 bs)" unfolding tid by (rule Abs_arr_inverse) (use len in simp)
  moreover have "bs = MISSING_REPORT_TAG # take 32 (drop 1 bs) @ take 2 (drop 33 bs) @ drop 35 bs"
    using append_take_drop_id [of 32 rest] append_take_drop_id [of 2 "drop 32 rest"] by (simp add: bs)
  ultimately have "MISSING_REPORT_TAG # arr_bytes tid @ le_bytes 2 (length rs) @ concat (map range_bytes rs) = bs"
    using enc by simp
  then show ?thesis
    using ok enc(2) le less
    by (simp add: write_missing_report_def range_bytes_fun)
qed

section \<open>The gaps of a transfer\<close>

text \<open>Reference definition: every gap between consecutive fragments.\<close>

fun gaps :: "nat \<Rightarrow> nat \<Rightarrow> (nat, bytes) kv \<Rightarrow> byte_range list" where
  "gaps len cursor [] = (if cursor < len then [(cursor, len - cursor)] else [])"
| "gaps len cursor ((o', b) # fs) =
    (if cursor < o' then [(cursor, o' - cursor)] else []) @ gaps len (o' + length b) fs"

definition range_set :: "byte_range list \<Rightarrow> nat set" where
  "range_set rs = (\<Union>(o', l)\<in>set rs. {o'..<o' + l})"

definition fragment_set :: "(nat, bytes) kv \<Rightarrow> nat set" where
  "fragment_set fs = (\<Union>(o', b)\<in>set fs. {o'..<o' + length b})"

lemma range_set_simps [simp]: "range_set [] = {}" "range_set ((o', l) # rs) = {o'..<o' + l} \<union> range_set rs"
  "range_set (rs @ rs') = range_set rs \<union> range_set rs'"
  by (auto simp: range_set_def)

lemma fragment_set_simps [simp]: "fragment_set [] = {}"
  "fragment_set ((o', b) # fs) = {o'..<o' + length b} \<union> fragment_set fs"
  by (auto simp: fragment_set_def)

lemma gaps_partition:
  assumes "frag_chain cursor fs len"
  shows "range_set (gaps len cursor fs) \<union> fragment_set fs = {cursor..<len} \<and>
    range_set (gaps len cursor fs) \<inter> fragment_set fs = {}"
  using assms
proof (induction cursor fs len rule: frag_chain.induct)
  case (2 cursor o1 b1 fs len)
  let ?G = "range_set (gaps len (o1 + length b1) fs)" and ?H = "{cursor..<o1}"
  have le: "cursor \<le> o1" "o1 + length b1 \<le> len"
    using 2(2) frag_chain_sum [of "o1 + length b1" fs len] by auto
  have ih: "?G \<union> fragment_set fs = {o1 + length b1..<len}" "?G \<inter> fragment_set fs = {}"
    using 2 by auto
  have sub: "?G \<subseteq> {o1 + length b1..<len}" "fragment_set fs \<subseteq> {o1 + length b1..<len}"
    using ih(1) by blast+
  have gap: "range_set (gaps len cursor ((o1, b1) # fs)) = ?H \<union> ?G" using le by simp
  have "?H \<union> ?G \<union> ({o1..<o1 + length b1} \<union> fragment_set fs) = {cursor..<o1} \<union> {o1..<o1 + length b1} \<union> {o1 + length b1..<len}"
    using ih(1) by blast
  also have "\<dots> = {cursor..<len}" using le by auto
  finally have "?H \<union> ?G \<union> ({o1..<o1 + length b1} \<union> fragment_set fs) = {cursor..<len}" .
  moreover have "(?H \<union> ?G) \<inter> ({o1..<o1 + length b1} \<union> fragment_set fs) = {}"
    using ih(2) sub le by fastforce
  ultimately show ?case unfolding gap by simp
qed auto

lemma gaps_valid:
  assumes "frag_chain cursor fs len" "prev \<le> cursor" "len < 2 ^ 32"
  shows "validate_ranges_from prev (gaps len cursor fs) = Inr ()"
  using assms
proof (induction cursor fs len arbitrary: prev rule: frag_chain.induct)
  case (2 cursor o1 b1 fs len)
  then have "o1 < 2 ^ 32" using frag_chain_sum [of "o1 + length b1" fs len] by auto
  then show ?case using 2 by auto
qed auto

lemma missing_loop_gaps:
  assumes "frag_chain cursor fs len" "len < 2 ^ 32" "length rs < n"
  shows "missing_loop len n rs cursor fs = rs @ take (n - length rs) (gaps len cursor fs)"
  using assms
proof (induction len n rs cursor fs rule: missing_loop.induct)
  case (1 len n rs cursor)
  then show ?case by (cases "n - length rs") (auto simp: as_u32_def)
next
  case (2 len n rs cursor o1 b1 fs)
  then have chain: "frag_chain (o1 + length b1) fs len" and "o1 < 2 ^ 32"
    using frag_chain_sum [of "o1 + length b1" fs len] by auto
  then have cast: "as_u32 cursor = cursor" "as_u32 (o1 - cursor) = o1 - cursor" if "cursor < o1"
    using that by (auto simp: as_u32_def)
  show ?case
  proof (cases "cursor < o1 \<and> length rs + 1 = n")
    case True
    then have "n - length rs = Suc 0" by auto
    then show ?thesis using True cast by (simp add: Let_def)
  next
    case False
    show ?thesis
    proof (cases "cursor < o1")
      case gap: True
      then have "length (rs @ [(cursor, o1 - cursor)]) < n" using False 2(4) by simp
      then have "missing_loop len n (rs @ [(cursor, o1 - cursor)]) (o1 + length b1) fs =
          (rs @ [(cursor, o1 - cursor)]) @ take (n - (length rs + 1)) (gaps len (o1 + length b1) fs)"
        using "2.IH" [OF refl] gap cast False chain 2(3) by simp
      moreover have "n - length rs = Suc (n - (length rs + 1))" using gap False 2(4) by linarith
      ultimately show ?thesis using gap cast False by (simp add: Let_def)
    next
      case nogap: False
      then show ?thesis using "2.IH" [OF refl] chain 2(3,4) by simp
    qed
  qed
qed

lemma missing_is_prefix_of_gaps:
  assumes "partial_ok lim t" "total_len t < 2 ^ 32"
  shows "missing_ranges_for_transfer t n = take n (gaps (total_len t) 0 (fragments t))"
  using assms missing_loop_gaps [of 0 "fragments t" "total_len t" "[]" n]
  by (simp add: missing_ranges_for_transfer_def partial_ok_def)

section \<open>Requesting retransmission\<close>

lemma set_missing_request_put:
  assumes "find_transfer r p tid = Some t"
  shows "set_missing_request r p tid now = put_transfer r p tid (t\<lparr>last_missing_request := Some now\<rparr>) 0"
  using assms
  by (auto simp: set_missing_request_def put_transfer_def find_transfer_def or_default_def bind_eq_Some_conv Let_def)

lemma set_missing_request_ok:
  assumes "reasm_ok r" "find_transfer r p tid = Some t"
  shows "reasm_ok (set_missing_request r p tid now)" "limits (set_missing_request r p tid now) = limits r"
proof -
  show "limits (set_missing_request r p tid now) = limits r"
    by (simp add: set_missing_request_put [OF assms(2)])
  show "reasm_ok (set_missing_request r p tid now)"
    unfolding set_missing_request_put [OF assms(2)]
    using reasm_bounds [OF assms(1)] find_transfer_ok [OF assms]
    by (intro put_transfer_ok [OF assms(1)]) (auto simp: transfer_ok_def old_bytes_def assms(2))
qed

text \<open>What a poll may change: request times only.\<close>

definition same_data :: "'p Reassembler \<Rightarrow> 'p Reassembler \<Rightarrow> bool" where
  "same_data r r' \<longleftrightarrow> (\<forall>p tid.
     map_option (\<lambda>t. t\<lparr>last_missing_request := None\<rparr>) (find_transfer r' p tid) =
     map_option (\<lambda>t. t\<lparr>last_missing_request := None\<rparr>) (find_transfer r p tid))"

lemma same_data_set:
  assumes "find_transfer r p tid = Some t"
  shows "same_data r (set_missing_request r p tid now)"
  unfolding set_missing_request_put [OF assms] same_data_def using assms by (simp add: find_put)

lemma same_data_trans: "same_data r r' \<Longrightarrow> same_data r' r'' \<Longrightarrow> same_data r r''"
  by (simp add: same_data_def)

definition requested :: "'p Reassembler \<Rightarrow> instant \<Rightarrow> 'p MissingRequest \<Rightarrow> bool" where
  "requested r now q \<longleftrightarrow> mr_ranges q \<noteq> [] \<and>
    (\<exists>t. find_transfer r (mr_peer q) (mr_transfer_id q) = Some t \<and> last_missing_request t = Some now)"

lemma requested_set:
  assumes "find_transfer r p tid = Some t" "requested r now q"
  shows "requested (set_missing_request r p tid now) now q"
  using assms(2) by (auto simp: requested_def set_missing_request_put [OF assms(1)] find_put)

lemma requested_new:
  assumes "find_transfer r p tid = Some t" "rs \<noteq> []"
  shows "requested (set_missing_request r p tid now) now \<lparr>mr_peer = p, mr_transfer_id = tid, mr_ranges = rs\<rparr>"
  using assms(2) by (simp add: requested_def set_missing_request_put [OF assms(1)] find_put)

lemma poll_loop_spec:
  assumes "poll_loop r now n k reps cs = (reps', r')" "reasm_ok r" "length reps \<le> k" "list_all (requested r now) reps"
  shows "reasm_ok r' \<and> limits r' = limits r \<and> same_data r r' \<and> length reps' \<le> k \<and> list_all (requested r' now) reps'"
  using assms
proof (induction r now n k reps cs rule: poll_loop.induct)
  case (2 r now n k reps p tid cs)
  note prems = "2.prems"
  consider (full) "k \<le> length reps" | (none) "\<not> k \<le> length reps" "find_transfer r p tid = None"
    | (skip) t where "\<not> k \<le> length reps" "find_transfer r p tid = Some t" "missing_ranges_for_transfer t n = []"
    | (send) t where "\<not> k \<le> length reps" "find_transfer r p tid = Some t" "missing_ranges_for_transfer t n \<noteq> []"
    by (cases "find_transfer r p tid") auto
  then show ?case
  proof cases
    case full
    then show ?thesis using prems by (simp add: same_data_def)
  next
    case none
    then show ?thesis using "2.IH"(1) [OF none] prems by simp
  next
    case skip
    then show ?thesis using "2.IH"(3) [OF skip(1,2) refl] prems by simp
  next
    case (send t)
    let ?r = "set_missing_request r p tid now"
    let ?q = "\<lparr>mr_peer = p, mr_transfer_id = tid, mr_ranges = missing_ranges_for_transfer t n\<rparr>"
    note ok = set_missing_request_ok [OF prems(2) send(2), of now]
    have "list_all (requested ?r now) (reps @ [?q])"
      using prems(4) requested_set [OF send(2)] requested_new [OF send(2,3)] by (simp add: list_all_iff)
    then have "reasm_ok r' \<and> limits r' = limits ?r \<and> same_data ?r r' \<and> length reps' \<le> k \<and> list_all (requested r' now) reps'"
      using "2.IH"(2) [OF send(1,2) refl] prems(1) send ok(1) by simp
    then show ?thesis
      using ok(2) same_data_trans [OF same_data_set [OF send(2)]] by metis
  qed
qed (simp add: same_data_def)

lemma poll_loop_from:
  assumes "poll_loop r now n k reps cs = (reps', r')" "q \<in> set reps'"
  shows "q \<in> set reps \<or> (mr_peer q, mr_transfer_id q) \<in> set cs"
  using assms
proof (induction r now n k reps cs rule: poll_loop.induct)
  case (2 r now n k reps p tid cs)
  show ?case
  proof (cases "k \<le> length reps")
    case False
    show ?thesis
    proof (cases "find_transfer r p tid")
      case None
      then show ?thesis using "2.IH"(1) [OF False None] "2.prems" False by auto
    next
      case (Some t)
      then show ?thesis
        using "2.IH"(2,3) [OF False Some refl] "2.prems" False
        by (cases "missing_ranges_for_transfer t n = []") auto
    qed
  qed (use "2.prems" in simp)
qed simp

lemma poll_due:
  assumes "poll_idle_missing r now idle retry n k = (reps, r')" "q \<in> set reps"
  shows "\<exists>t. find_transfer r (mr_peer q) (mr_transfer_id q) = Some t \<and> idle_due now idle retry t"
  using assms poll_loop_from [of r now n k "[]" _ reps r' q]
  by (fastforce simp: poll_idle_missing_def Let_def find_transfer_iff split: if_splits)

lemma poll_ok:
  assumes "poll_idle_missing r now idle retry n k = (reps, r')" "reasm_ok r"
  shows "reasm_ok r' \<and> limits r' = limits r \<and> same_data r r' \<and> length reps \<le> k \<and> list_all (requested r' now) reps"
proof (cases "n = 0 \<or> k = 0")
  case True
  then have "reps = []" "r' = r" using assms(1) by (auto simp: poll_idle_missing_def split: if_splits)
  then show ?thesis using assms(2) by (simp add: same_data_def)
next
  case False
  then show ?thesis
    using assms(1) poll_loop_spec [OF _ assms(2), of now n k "[]" _ reps r']
    by (auto simp: poll_idle_missing_def Let_def)
qed

section \<open>Properties\<close>

text \<open>C25: the recovery-control codec is exact. A byte string parses to a report of some ranges
  exactly when it is what the encoder writes for them and the count is within the bound, and it
  parses to an acknowledgement exactly when it is the encoded acknowledgement.\<close>

theorem recovery_control_codec_exact:
  "(parse_recovery_control bs n = Inr (Some (Missing tid rs)) \<longleftrightarrow>
     write_missing_report tid rs = Inr bs \<and> length rs \<le> n) \<and>
   (parse_recovery_control bs n = Inr (Some (CompleteAck tid)) \<longleftrightarrow> bs = write_completion_ack tid)"
proof
  show "parse_recovery_control bs n = Inr (Some (Missing tid rs)) \<longleftrightarrow>
     write_missing_report tid rs = Inr bs \<and> length rs \<le> n"
    using parse_write_report write_parse_report by blast
  have "bs = write_completion_ack tid" if "parse_recovery_control bs n = Inr (Some (CompleteAck tid))"
  proof (cases bs)
    case (Cons tag rest)
    then have "tag = COMPLETION_ACK_TAG" "length rest = 32" "tid = Abs_arr rest"
      using that unfolding Cons parse_recovery_control_def
      by (auto simp: Let_def COMPLETION_ACK_LEN_def split: if_splits sum.splits)
    then show ?thesis by (simp add: Cons write_completion_ack_def Abs_arr_inverse)
  qed (use that in \<open>simp add: parse_recovery_control_def\<close>)
  then show "parse_recovery_control bs n = Inr (Some (CompleteAck tid)) \<longleftrightarrow> bs = write_completion_ack tid"
    using parse_write_ack by blast
qed

text \<open>C26: a report names only bytes that are really missing, as ranges the sender's validation
  accepts, and with room for enough ranges it names all of them: the reported ranges and the
  retained fragments partition the message.\<close>

theorem missing_ranges_exact:
  assumes "partial_ok lim t" "total_len t < 2 ^ 32"
  shows "range_set (missing_ranges_for_transfer t n) \<inter> fragment_set (fragments t) = {} \<and>
    validate_ranges (missing_ranges_for_transfer t (length (fragments t) + 1)) = Inr () \<and>
    range_set (missing_ranges_for_transfer t (length (fragments t) + 1)) \<union> fragment_set (fragments t) = {..<total_len t}"
proof -
  let ?G = "gaps (total_len t) 0 (fragments t)"
  have chain: "frag_chain 0 (fragments t) (total_len t)" using assms(1) by (simp add: partial_ok_def)
  have "length (gaps len c fs) \<le> length fs + 1" for len c fs
    by (induction len c fs rule: gaps.induct) auto
  then have all: "missing_ranges_for_transfer t (length (fragments t) + 1) = ?G"
    by (simp add: missing_is_prefix_of_gaps [OF assms])
  have "range_set (take n ?G) \<subseteq> range_set ?G"
    unfolding range_set_def using set_take_subset [of n ?G] by blast
  then show ?thesis
    using gaps_partition [OF chain] gaps_valid [OF chain order.refl assms(2)]
    unfolding all unfolding missing_is_prefix_of_gaps [OF assms] validate_ranges_def by (auto simp: lessThan_atLeast0)
qed

theorem missing_ranges_exact_witness:
  "missing_ranges_for_transfer \<lparr>total_len = 6, fragments = [(2, [7, 8])], tr_retained_bytes = 2,
     last_activity = 0, last_missing_request = None\<rparr> 2 = [(0, 2), (4, 2)] \<and>
   range_set [(0, 2), (4, 2)] \<union> fragment_set [(2, [7, 8])] = {..<6 :: nat}"
  using missing_ranges_exact [of demo_limits "\<lparr>total_len = 6, fragments = [(2, [7, 8])], tr_retained_bytes = 2,
     last_activity = 0, last_missing_request = None\<rparr>" 2]
  by (simp add: partial_ok_def demo_limits_def missing_ranges_for_transfer_def as_u32_def)



end
