(* ===== verification/Config.thy ===== *)
theory Config
  imports Framing
begin

text \<open>
  Construction parameters (\<open>src/replicated_map/config.rs\<close>, \<open>config/framing.rs\<close>,
  \<open>config/builders.rs\<close>, \<open>config/error.rs\<close>) and the checks an engine makes of them before it is
  built (\<open>src/replica/construct.rs\<close>). The CIDR type \<open>IpNet\<close>, the node identity and the clock drift
  are types of other packages and stay type variables; the default drift is an argument.
\<close>

section \<open>Addresses and time\<close>

datatype IpAddr = V4 "32 word" | V6 "128 word"

definition from_millis :: "nat \<Rightarrow> duration" where "from_millis n = n * 10 ^ 6"
definition from_secs :: "nat \<Rightarrow> duration" where "from_secs n = n * 10 ^ 9"

section \<open>Framing policy\<close>

definition DEFAULT_DATAGRAM_PAYLOAD_BUDGET :: nat where "DEFAULT_DATAGRAM_PAYLOAD_BUDGET = 1200"
definition MAX_UDP_PAYLOAD :: nat where "MAX_UDP_PAYLOAD = 65507"

text \<open>The fields the policy shares with the reassembler's limits keep one name.\<close>

record FramingConfig = ReassemblyLimits +
  datagram_payload_budget :: nat
  selective_recovery :: bool
  max_missing_ranges_per_report :: nat
  max_outbound_recovery_transfers_per_peer :: nat
  max_total_outbound_recovery_transfers :: nat
  max_outbound_recovery_bytes_per_peer :: nat
  max_total_outbound_recovery_bytes :: nat
  max_selective_recovery_rounds :: nat
  recovery_ttl :: duration
  recovery_capability_ttl :: duration

definition framing_default :: FramingConfig where
  "framing_default =
    \<lparr>max_logical_message_size = 8 * 1024 * 1024,
     max_fragments_per_message = 8192,
     max_incomplete_transfers_per_peer = 8,
     max_reassembly_bytes_per_peer = 16 * 1024 * 1024,
     max_total_reassembly_bytes = 64 * 1024 * 1024,
     reassembly_ttl = from_secs 90,
     datagram_payload_budget = DEFAULT_DATAGRAM_PAYLOAD_BUDGET,
     selective_recovery = True,
     max_missing_ranges_per_report = 128,
     max_outbound_recovery_transfers_per_peer = 8,
     max_total_outbound_recovery_transfers = 64,
     max_outbound_recovery_bytes_per_peer = 16 * 1024 * 1024,
     max_total_outbound_recovery_bytes = 64 * 1024 * 1024,
     max_selective_recovery_rounds = 4,
     recovery_ttl = from_secs 120,
     recovery_capability_ttl = from_secs 300\<rparr>"

definition with_datagram_payload_budget :: "nat \<Rightarrow> FramingConfig \<Rightarrow> FramingConfig" where
  "with_datagram_payload_budget x c = c\<lparr>datagram_payload_budget := x\<rparr>"

definition with_max_logical_message_size :: "nat \<Rightarrow> FramingConfig \<Rightarrow> FramingConfig" where
  "with_max_logical_message_size x c = c\<lparr>max_logical_message_size := x\<rparr>"

definition with_max_fragments_per_message :: "nat \<Rightarrow> FramingConfig \<Rightarrow> FramingConfig" where
  "with_max_fragments_per_message x c = c\<lparr>max_fragments_per_message := x\<rparr>"

definition with_max_incomplete_transfers_per_peer :: "nat \<Rightarrow> FramingConfig \<Rightarrow> FramingConfig" where
  "with_max_incomplete_transfers_per_peer x c = c\<lparr>max_incomplete_transfers_per_peer := x\<rparr>"

definition with_max_reassembly_bytes_per_peer :: "nat \<Rightarrow> FramingConfig \<Rightarrow> FramingConfig" where
  "with_max_reassembly_bytes_per_peer x c = c\<lparr>max_reassembly_bytes_per_peer := x\<rparr>"

definition with_max_total_reassembly_bytes :: "nat \<Rightarrow> FramingConfig \<Rightarrow> FramingConfig" where
  "with_max_total_reassembly_bytes x c = c\<lparr>max_total_reassembly_bytes := x\<rparr>"

definition with_reassembly_ttl :: "duration \<Rightarrow> FramingConfig \<Rightarrow> FramingConfig" where
  "with_reassembly_ttl x c = c\<lparr>reassembly_ttl := x\<rparr>"

definition with_selective_recovery :: "bool \<Rightarrow> FramingConfig \<Rightarrow> FramingConfig" where
  "with_selective_recovery x c = c\<lparr>selective_recovery := x\<rparr>"

definition with_max_missing_ranges_per_report :: "nat \<Rightarrow> FramingConfig \<Rightarrow> FramingConfig" where
  "with_max_missing_ranges_per_report x c = c\<lparr>max_missing_ranges_per_report := x\<rparr>"

definition with_max_outbound_recovery_transfers_per_peer :: "nat \<Rightarrow> FramingConfig \<Rightarrow> FramingConfig" where
  "with_max_outbound_recovery_transfers_per_peer x c = c\<lparr>max_outbound_recovery_transfers_per_peer := x\<rparr>"

definition with_max_total_outbound_recovery_transfers :: "nat \<Rightarrow> FramingConfig \<Rightarrow> FramingConfig" where
  "with_max_total_outbound_recovery_transfers x c = c\<lparr>max_total_outbound_recovery_transfers := x\<rparr>"

definition with_max_outbound_recovery_bytes_per_peer :: "nat \<Rightarrow> FramingConfig \<Rightarrow> FramingConfig" where
  "with_max_outbound_recovery_bytes_per_peer x c = c\<lparr>max_outbound_recovery_bytes_per_peer := x\<rparr>"

definition with_max_total_outbound_recovery_bytes :: "nat \<Rightarrow> FramingConfig \<Rightarrow> FramingConfig" where
  "with_max_total_outbound_recovery_bytes x c = c\<lparr>max_total_outbound_recovery_bytes := x\<rparr>"

definition with_max_selective_recovery_rounds :: "nat \<Rightarrow> FramingConfig \<Rightarrow> FramingConfig" where
  "with_max_selective_recovery_rounds x c = c\<lparr>max_selective_recovery_rounds := x\<rparr>"

definition with_recovery_ttl :: "duration \<Rightarrow> FramingConfig \<Rightarrow> FramingConfig" where
  "with_recovery_ttl x c = c\<lparr>recovery_ttl := x\<rparr>"

definition with_recovery_capability_ttl :: "duration \<Rightarrow> FramingConfig \<Rightarrow> FramingConfig" where
  "with_recovery_capability_ttl x c = c\<lparr>recovery_capability_ttl := x\<rparr>"

datatype ConfigError =
    TooManyNets
  | MissingSecurityMode
  | DatagramPayloadBudgetTooSmall nat nat
  | DatagramPayloadBudgetTooLarge nat nat
  | LogicalMessageSizeTooLarge nat nat

definition framing_validate :: "FramingConfig \<Rightarrow> nat \<Rightarrow> ConfigError + unit" where
  "framing_validate c auth_overhead =
    (let minimum = sat_add (sat_add auth_overhead FRAGMENT_HEADER_LEN) 1
     in if datagram_payload_budget c < minimum then
          Inl (DatagramPayloadBudgetTooSmall (datagram_payload_budget c) minimum)
        else if MAX_UDP_PAYLOAD < datagram_payload_budget c then
          Inl (DatagramPayloadBudgetTooLarge (datagram_payload_budget c) MAX_UDP_PAYLOAD)
        else if 2 ^ 32 - 1 < max_logical_message_size c then
          Inl (LogicalMessageSizeTooLarge (max_logical_message_size c) (2 ^ 32 - 1))
        else Inr ())"

definition reassembly_limits :: "FramingConfig \<Rightarrow> ReassemblyLimits" where
  "reassembly_limits c =
    \<lparr>max_logical_message_size = max_logical_message_size c,
     max_fragments_per_message = max_fragments_per_message c,
     max_incomplete_transfers_per_peer = max_incomplete_transfers_per_peer c,
     max_reassembly_bytes_per_peer = max_reassembly_bytes_per_peer c,
     max_total_reassembly_bytes = max_total_reassembly_bytes c,
     reassembly_ttl = reassembly_ttl c\<rparr>"

section \<open>Engine configuration\<close>

definition DEFAULT_BULK_SEND_RATE :: nat where "DEFAULT_BULK_SEND_RATE = 32 * 1024 * 1024"
definition MIN_BULK_SEND_RATE :: nat where "MIN_BULK_SEND_RATE = 1024 * 1024"
definition DEFAULT_SOCKET_BUFFER_SIZE :: nat where "DEFAULT_SOCKET_BUFFER_SIZE = 8 * 1024 * 1024"
definition DEFAULT_MAX_PEERS :: nat where "DEFAULT_MAX_PEERS = 1024"
definition DEFAULT_MAX_REPLAY_SENDERS :: nat where "DEFAULT_MAX_REPLAY_SENDERS = 1024"
definition DEFAULT_REPAIR_INTERVAL :: duration where "DEFAULT_REPAIR_INTERVAL = from_millis 150"
definition DEFAULT_MAX_CONCURRENT_BULK_DUMPS :: nat where "DEFAULT_MAX_CONCURRENT_BULK_DUMPS = 4"
definition DEFAULT_MAX_CONCURRENT_BROADCASTS :: nat where "DEFAULT_MAX_CONCURRENT_BROADCASTS = 1024"
definition DEFAULT_SNAPSHOT_CHANGE_THRESHOLD :: nat where "DEFAULT_SNAPSHOT_CHANGE_THRESHOLD = 1"
definition SNAPSHOT_INTERVAL :: duration where "SNAPSHOT_INTERVAL = from_secs 5"
definition FRESHNESS_WINDOW_DEFAULT :: duration where "FRESHNESS_WINDOW_DEFAULT = from_secs (5 * 60)"
definition MAX_NETS :: nat where "MAX_NETS = 8"

record ('net, 'node, 'drift) Config =
  port :: "16 word"
  listen_addr :: "IpAddr"
  nets :: "'net option list"
  remote_interval :: "32 word"
  remote_fanout :: "nat"
  cluster_key :: "ClusterKey option"
  rotation_key :: "ClusterKey option"
  insecure_no_key :: "bool"
  node_id :: "'node option"
  encrypt :: "bool"
  reconcile_interval :: "duration"
  repair_interval :: "duration"
  bulk_send_rate :: "nat option"
  recv_buffer_size :: "nat option"
  send_buffer_size :: "nat option"
  cfg_freshness_window :: "duration"
  cfg_max_peers :: "nat"
  max_replay_senders :: "nat"
  max_concurrent_bulk_dumps :: "nat"
  max_concurrent_broadcasts :: "nat"
  framing :: "FramingConfig"
  snapshot_interval :: "duration option"
  snapshot_change_threshold :: "nat"
  max_clock_drift :: "'drift"
  coalesce_window :: "duration"
  max_value_size :: "nat option"

definition config_default :: "'drift \<Rightarrow> ('net, 'node, 'drift) Config" where
  "config_default MAX_CLOCK_DRIFT =
    \<lparr>port = 0,
     listen_addr = V4 0x7F000001,
     nets = replicate MAX_NETS None,
     remote_interval = 6,
     remote_fanout = 2,
     cluster_key = None,
     rotation_key = None,
     insecure_no_key = False,
     node_id = None,
     encrypt = False,
     reconcile_interval = from_secs 1,
     repair_interval = DEFAULT_REPAIR_INTERVAL,
     bulk_send_rate = Some DEFAULT_BULK_SEND_RATE,
     recv_buffer_size = Some DEFAULT_SOCKET_BUFFER_SIZE,
     send_buffer_size = Some DEFAULT_SOCKET_BUFFER_SIZE,
     cfg_freshness_window = FRESHNESS_WINDOW_DEFAULT,
     cfg_max_peers = DEFAULT_MAX_PEERS,
     max_replay_senders = DEFAULT_MAX_REPLAY_SENDERS,
     max_concurrent_bulk_dumps = DEFAULT_MAX_CONCURRENT_BULK_DUMPS,
     max_concurrent_broadcasts = DEFAULT_MAX_CONCURRENT_BROADCASTS,
     framing = framing_default,
     snapshot_interval = Some SNAPSHOT_INTERVAL,
     snapshot_change_threshold = DEFAULT_SNAPSHOT_CHANGE_THRESHOLD,
     max_clock_drift = MAX_CLOCK_DRIFT,
     coalesce_window = 0,
     max_value_size = None\<rparr>"

definition with_port :: "16 word \<Rightarrow> ('net, 'node, 'drift) Config \<Rightarrow> ('net, 'node, 'drift) Config" where
  "with_port x c = c\<lparr>port := x\<rparr>"

definition with_listen_addr :: "IpAddr \<Rightarrow> ('net, 'node, 'drift) Config \<Rightarrow> ('net, 'node, 'drift) Config" where
  "with_listen_addr x c = c\<lparr>listen_addr := x\<rparr>"

definition config_new :: "'drift \<Rightarrow> 16 word \<Rightarrow> ('net, 'node, 'drift) Config" where
  "config_new MAX_CLOCK_DRIFT x = with_port x (config_default MAX_CLOCK_DRIFT)"

text \<open>The first empty slot takes the network.\<close>

fun fill_slot :: "'a \<Rightarrow> 'a option list \<Rightarrow> 'a option list option" where
  "fill_slot x [] = None"
| "fill_slot x (None # slots) = Some (Some x # slots)"
| "fill_slot x (Some y # slots) = map_option ((#) (Some y)) (fill_slot x slots)"

definition with_net :: "'net \<Rightarrow> ('net, 'node, 'drift) Config \<Rightarrow> ConfigError + ('net, 'node, 'drift) Config" where
  "with_net net c =
    (case fill_slot net (nets c) of None \<Rightarrow> Inl TooManyNets | Some slots \<Rightarrow> Inr (c\<lparr>nets := slots\<rparr>))"

fun with_nets :: "'net list \<Rightarrow> ('net, 'node, 'drift) Config \<Rightarrow> ConfigError + ('net, 'node, 'drift) Config" where
  "with_nets [] c = Inr c"
| "with_nets (net # ns) c = (case with_net net c of Inl e \<Rightarrow> Inl e | Inr c' \<Rightarrow> with_nets ns c')"

definition with_remote_interval :: "32 word \<Rightarrow> ('net, 'node, 'drift) Config \<Rightarrow> ('net, 'node, 'drift) Config" where
  "with_remote_interval x c = c\<lparr>remote_interval := x\<rparr>"

definition with_remote_fanout :: "nat \<Rightarrow> ('net, 'node, 'drift) Config \<Rightarrow> ('net, 'node, 'drift) Config" where
  "with_remote_fanout x c = c\<lparr>remote_fanout := x\<rparr>"

definition with_reconcile_interval :: "duration \<Rightarrow> ('net, 'node, 'drift) Config \<Rightarrow> ('net, 'node, 'drift) Config" where
  "with_reconcile_interval x c = c\<lparr>reconcile_interval := x\<rparr>"

definition with_repair_interval :: "duration \<Rightarrow> ('net, 'node, 'drift) Config \<Rightarrow> ('net, 'node, 'drift) Config" where
  "with_repair_interval x c = c\<lparr>repair_interval := x\<rparr>"

definition with_bulk_send_rate :: "nat \<Rightarrow> ('net, 'node, 'drift) Config \<Rightarrow> ('net, 'node, 'drift) Config" where
  "with_bulk_send_rate x c = c\<lparr>bulk_send_rate := Some x\<rparr>"

definition with_recv_buffer_size :: "nat \<Rightarrow> ('net, 'node, 'drift) Config \<Rightarrow> ('net, 'node, 'drift) Config" where
  "with_recv_buffer_size x c = c\<lparr>recv_buffer_size := Some x\<rparr>"

definition with_send_buffer_size :: "nat \<Rightarrow> ('net, 'node, 'drift) Config \<Rightarrow> ('net, 'node, 'drift) Config" where
  "with_send_buffer_size x c = c\<lparr>send_buffer_size := Some x\<rparr>"

definition with_cluster_key :: "ClusterKey \<Rightarrow> ('net, 'node, 'drift) Config \<Rightarrow> ('net, 'node, 'drift) Config" where
  "with_cluster_key key c = c\<lparr>cluster_key := Some key, rotation_key := None\<rparr>"

definition with_cluster_key_rotation ::
  "ClusterKey \<Rightarrow> ClusterKey \<Rightarrow> ('net, 'node, 'drift) Config \<Rightarrow> ('net, 'node, 'drift) Config" where
  "with_cluster_key_rotation prim accepted c = c\<lparr>cluster_key := Some prim, rotation_key := Some accepted\<rparr>"

definition auth_keys :: "('net, 'node, 'drift) Config \<Rightarrow> Keys option" where
  "auth_keys c =
    map_option (\<lambda>prim. \<lparr>primary = prim, also_accept = (case rotation_key c of None \<Rightarrow> [] | Some k \<Rightarrow> [k])\<rparr>)
      (cluster_key c)"

definition with_insecure_no_key :: "('net, 'node, 'drift) Config \<Rightarrow> ('net, 'node, 'drift) Config" where
  "with_insecure_no_key c = c\<lparr>insecure_no_key := True\<rparr>"

definition check_key_or_insecure_opt_in :: "('net, 'node, 'drift) Config \<Rightarrow> ConfigError + unit" where
  "check_key_or_insecure_opt_in c =
    (if cluster_key c \<noteq> None \<or> insecure_no_key c then Inr () else Inl MissingSecurityMode)"

definition with_node_id :: "'node \<Rightarrow> ('net, 'node, 'drift) Config \<Rightarrow> ('net, 'node, 'drift) Config" where
  "with_node_id x c = c\<lparr>node_id := Some x\<rparr>"

definition with_freshness_window :: "duration \<Rightarrow> ('net, 'node, 'drift) Config \<Rightarrow> ('net, 'node, 'drift) Config" where
  "with_freshness_window x c = c\<lparr>cfg_freshness_window := x\<rparr>"

definition with_max_peers :: "nat \<Rightarrow> ('net, 'node, 'drift) Config \<Rightarrow> ('net, 'node, 'drift) Config" where
  "with_max_peers x c = c\<lparr>cfg_max_peers := x\<rparr>"

definition with_max_replay_senders :: "nat \<Rightarrow> ('net, 'node, 'drift) Config \<Rightarrow> ('net, 'node, 'drift) Config" where
  "with_max_replay_senders x c = c\<lparr>max_replay_senders := x\<rparr>"

definition with_max_concurrent_bulk_dumps :: "nat \<Rightarrow> ('net, 'node, 'drift) Config \<Rightarrow> ('net, 'node, 'drift) Config" where
  "with_max_concurrent_bulk_dumps x c = c\<lparr>max_concurrent_bulk_dumps := x\<rparr>"

definition with_max_concurrent_broadcasts :: "nat \<Rightarrow> ('net, 'node, 'drift) Config \<Rightarrow> ('net, 'node, 'drift) Config" where
  "with_max_concurrent_broadcasts x c = c\<lparr>max_concurrent_broadcasts := x\<rparr>"

definition with_framing :: "FramingConfig \<Rightarrow> ('net, 'node, 'drift) Config \<Rightarrow> ('net, 'node, 'drift) Config" where
  "with_framing x c = c\<lparr>framing := x\<rparr>"

definition with_snapshot_interval :: "duration option \<Rightarrow> ('net, 'node, 'drift) Config \<Rightarrow> ('net, 'node, 'drift) Config" where
  "with_snapshot_interval x c = c\<lparr>snapshot_interval := x\<rparr>"

definition with_snapshot_change_threshold :: "nat \<Rightarrow> ('net, 'node, 'drift) Config \<Rightarrow> ('net, 'node, 'drift) Config" where
  "with_snapshot_change_threshold x c = c\<lparr>snapshot_change_threshold := x\<rparr>"

definition with_max_clock_drift :: "'drift \<Rightarrow> ('net, 'node, 'drift) Config \<Rightarrow> ('net, 'node, 'drift) Config" where
  "with_max_clock_drift x c = c\<lparr>max_clock_drift := x\<rparr>"

definition with_coalesce_window :: "duration \<Rightarrow> ('net, 'node, 'drift) Config \<Rightarrow> ('net, 'node, 'drift) Config" where
  "with_coalesce_window x c = c\<lparr>coalesce_window := x\<rparr>"

definition with_max_value_size :: "nat \<Rightarrow> ('net, 'node, 'drift) Config \<Rightarrow> ('net, 'node, 'drift) Config" where
  "with_max_value_size x c = c\<lparr>max_value_size := Some x\<rparr>"

definition with_encryption :: "('net, 'node, 'drift) Config \<Rightarrow> ('net, 'node, 'drift) Config" where
  "with_encryption c = c\<lparr>encrypt := True\<rparr>"

section \<open>Checks at construction\<close>

definition check_port_is_nonzero :: "('net, 'node, 'drift) Config \<Rightarrow> bool" where
  "check_port_is_nonzero c \<longleftrightarrow> port c \<noteq> 0"

definition clamp_bulk_send_rate :: "nat option \<Rightarrow> nat option" where
  "clamp_bulk_send_rate r =
    map_option (\<lambda>rate. if 0 < rate \<and> rate < MIN_BULK_SEND_RATE then MIN_BULK_SEND_RATE else rate) r"

text \<open>\<open>build\<close> up to the allocation of the engine's state: the authenticator and the pacing rate it
  hands on. The encryption feature is on when \<open>encrypt\<close> can be set, as the sources argue.\<close>

definition build_checks :: "('net, 'node, 'drift) Config \<Rightarrow> ConfigError + (Authenticator \<times> nat option)" where
  "build_checks c =
    (case check_key_or_insecure_opt_in c of
       Inl e \<Rightarrow> Inl e
     | Inr _ \<Rightarrow>
        let a = the (with_rotation True (auth_keys c) (encrypt c))
        in case framing_validate (framing c) (overhead a) of
             Inl e \<Rightarrow> Inl e
           | Inr _ \<Rightarrow> Inr (a, clamp_bulk_send_rate (bulk_send_rate c)))"

section \<open>Network slots\<close>

lemma fill_slot_packed:
  "fill_slot x (map Some xs @ replicate k None) =
    (case k of 0 \<Rightarrow> None | Suc n \<Rightarrow> Some (map Some (xs @ [x]) @ replicate n None))"
  by (induction xs) (auto split: nat.split)

lemma with_nets_packed:
  "nets c = map Some xs @ replicate k None \<Longrightarrow>
    with_nets ns c =
      (if length ns \<le> k then Inr (c\<lparr>nets := map Some (xs @ ns) @ replicate (k - length ns) None\<rparr>)
       else Inl TooManyNets)"
proof (induction ns arbitrary: c xs k)
  case (Cons n ns)
  show ?case
  proof (cases k)
    case (Suc m)
    then have "with_net n c = Inr (c\<lparr>nets := map Some (xs @ [n]) @ replicate m None\<rparr>)"
      using Cons.prems fill_slot_packed [of n xs k] by (simp add: with_net_def)
    then show ?thesis using Cons.IH [of "c\<lparr>nets := map Some (xs @ [n]) @ replicate m None\<rparr>" "xs @ [n]" m] Suc
      by simp
  qed (use Cons.prems fill_slot_packed [of n xs 0] in \<open>simp add: with_net_def\<close>)
qed simp

section \<open>Accepted configurations\<close>

lemma overhead_le: "overhead a \<le> 57"
  by (cases a) (simp_all add: auth_consts)

lemma framing_validate_ok:
  assumes "framing_validate c ov = Inr ()"
  shows "ov + FRAGMENT_HEADER_LEN < datagram_payload_budget c" "datagram_payload_budget c \<le> MAX_UDP_PAYLOAD"
    "max_logical_message_size c < 2 ^ 32"
  using assms
  by (auto simp: framing_validate_def Let_def sat_add_def usize_max_def MAX_UDP_PAYLOAD_def frame_consts
      split: if_splits)

lemma build_checks_ok:
  assumes "build_checks c = Inr (a, rate)"
  shows "framing_validate (framing c) (overhead a) = Inr ()" "a = Disabled \<longleftrightarrow> cluster_key c = None"
    "cluster_key c = None \<Longrightarrow> insecure_no_key c" "rate = clamp_bulk_send_rate (bulk_send_rate c)"
    "\<And>prim. cluster_key c = Some prim \<Longrightarrow>
      a = (if encrypt c then Encrypted else Enabled) \<lparr>primary = prim, also_accept = (case rotation_key c of None \<Rightarrow> [] | Some k \<Rightarrow> [k])\<rparr>"
  using assms
  by (auto simp: build_checks_def check_key_or_insecure_opt_in_def with_rotation_def auth_keys_def Let_def
      split: sum.splits if_splits option.splits)

section \<open>Properties\<close>

text \<open>Declaring networks on a fresh configuration succeeds exactly for at most eight of them
  and stores them in order, changing nothing else.\<close>

theorem with_nets_exact:
  "with_nets ns (config_new drift p :: ('net, 'node, 'drift) Config) =
    (if length ns \<le> MAX_NETS
     then Inr ((config_new drift p)\<lparr>nets := map Some ns @ replicate (MAX_NETS - length ns) None\<rparr>)
     else Inl TooManyNets)"
proof -
  have "nets (config_new drift p :: ('net, 'node, 'drift) Config) = map Some [] @ replicate MAX_NETS None"
    by (simp add: config_new_def with_port_def config_default_def)
  from with_nets_packed [OF this, of ns] show ?thesis by simp
qed

text \<open>An engine that passes its construction checks is never silently unauthenticated (without a
  key the opt-in was given), every fragment frame of at least one data byte and every complete
  frame it may send fits its datagram budget and the UDP maximum once sealed, every logical length
  it accepts fits the 32-bit field of a fragment header, and its pacing rate is zero, absent or at
  least the floor.\<close>

theorem build_checks_safe:
  assumes "build_checks c = Inr (a, rate)"
  shows "(a = Disabled \<longrightarrow> cluster_key c = None \<and> insecure_no_key c) \<and>
    (\<exists>cap fcap. complete_payload_capacity (datagram_payload_budget (framing c)) (overhead a) = Some cap \<and>
       fragment_payload_capacity (datagram_payload_budget (framing c)) (overhead a) = Some fcap \<and> 1 \<le> fcap \<and>
       cap + COMPLETE_HEADER_LEN + overhead a \<le> MAX_UDP_PAYLOAD \<and>
       fcap + FRAGMENT_HEADER_LEN + overhead a \<le> MAX_UDP_PAYLOAD) \<and>
    max_logical_message_size (framing c) < 2 ^ 32 \<and>
    (\<forall>x. rate = Some x \<longrightarrow> x = 0 \<or> MIN_BULK_SEND_RATE \<le> x)"
  using build_checks_ok [OF assms] framing_validate_ok [OF build_checks_ok(1) [OF assms]]
  by (auto simp: complete_payload_capacity_def fragment_payload_capacity_def checked_sub_def frame_consts
      clamp_bulk_send_rate_def)

theorem build_checks_safe_witness:
  "\<exists>fcap. fragment_payload_capacity 1200 49 = Some fcap \<and> 1 \<le> fcap"
proof -
  define c :: "(nat, nat, nat) Config" where "c = with_cluster_key (demo_key 1) (config_new 0 7000)"
  have "build_checks c = Inr (Enabled \<lparr>primary = demo_key 1, also_accept = []\<rparr>, Some DEFAULT_BULK_SEND_RATE)"
    by (simp add: c_def with_cluster_key_def config_new_def with_port_def config_default_def build_checks_def
        check_key_or_insecure_opt_in_def with_rotation_def auth_keys_def framing_validate_def framing_default_def
        DEFAULT_DATAGRAM_PAYLOAD_BUDGET_def MAX_UDP_PAYLOAD_def sat_add_def usize_max_def auth_consts frame_consts
        clamp_bulk_send_rate_def DEFAULT_BULK_SEND_RATE_def MIN_BULK_SEND_RATE_def)
  from build_checks_safe [OF this] show ?thesis
    by (auto simp: c_def with_cluster_key_def config_new_def with_port_def config_default_def framing_default_def
        DEFAULT_DATAGRAM_PAYLOAD_BUDGET_def auth_consts)
qed

definition rotation_phases ::
  "ClusterKey \<Rightarrow> ClusterKey \<Rightarrow> ('net, 'node, 'drift) Config \<Rightarrow> ('net, 'node, 'drift) Config list" where
  "rotation_phases old new c =
    [with_cluster_key old c, with_cluster_key_rotation old new c,
     with_cluster_key_rotation new old c, with_cluster_key new c]"

text \<open>C28: the documented three-phase key rotation never splits the cluster. Between the old key
  alone, \<open>old + accept(new)\<close>, \<open>new + accept(old)\<close> and the new key alone, a node that is at most
  one phase ahead of or behind another reads every datagram the other seals.\<close>

theorem key_rotation_never_splits:
  assumes "build_checks (rotation_phases old new c ! i) = Inr (a, r)"
    and "build_checks (rotation_phases old new c ! j) = Inr (b, r')"
    and "i < 4" "j < 4" "i \<le> Suc j" "j \<le> Suc i"
    and "encrypt c \<longrightarrow> aead_inverse crypto \<and> aead_tag_length crypto \<and> aead_key_bound crypto {old, new}"
  shows "map_option check_version (open_datagram crypto b (seal crypto nonce a seq stamp m)) =
    Some (Inr \<lparr>pl_bytes = m, pl_seq = seq, pl_stamp = stamp\<rparr>)"
proof -
  note ka = build_checks_ok(5) [OF assms(1)] and kb = build_checks_ok(5) [OF assms(2)]
  have "i \<in> {0, 1, 2, 3}" "j \<in> {0, 1, 2, 3}" using assms(3,4) by auto
  then have "same_mode a b" "a \<noteq> Disabled"
    and bound: "\<And>ks. b = Encrypted ks \<Longrightarrow> encrypt c \<and> set (keys_iter ks) \<subseteq> {old, new}"
    using ka kb assms(5,6)
    by (auto simp: rotation_phases_def with_cluster_key_def with_cluster_key_rotation_def same_mode_def keys_iter_def
        split: if_splits)
  moreover have "aead_key_bound crypto (set (keys_iter ks))" if "b = Encrypted ks" for ks
    using bound [OF that] assms(7) unfolding aead_key_bound_def by blast
  ultimately show ?thesis
    using open_seal [of a b crypto nonce seq stamp m] assms(7) by (auto simp: stamped_def)
qed

theorem key_rotation_never_splits_witness:
  "map_option check_version
     (open_datagram demo_crypto (Encrypted \<lparr>primary = demo_key 2, also_accept = [demo_key 1]\<rparr>)
       (seal demo_crypto arr_zero (Encrypted \<lparr>primary = demo_key 1, also_accept = [demo_key 2]\<rparr>) 1 2 [3])) =
   Some (Inr \<lparr>pl_bytes = [3], pl_seq = 1, pl_stamp = 2\<rparr>)"
proof -
  define c :: "(nat, nat, nat) Config" where "c = with_encryption (config_new 0 7000)"
  note defs = c_def with_encryption_def with_cluster_key_rotation_def config_new_def with_port_def config_default_def
    rotation_phases_def build_checks_def check_key_or_insecure_opt_in_def with_rotation_def auth_keys_def
    framing_validate_def framing_default_def DEFAULT_DATAGRAM_PAYLOAD_BUDGET_def MAX_UDP_PAYLOAD_def sat_add_def
    usize_max_def auth_consts frame_consts
  let ?rate = "clamp_bulk_send_rate (Some DEFAULT_BULK_SEND_RATE)"
  have "build_checks (rotation_phases (demo_key 1) (demo_key 2) c ! 1) =
      Inr (Encrypted \<lparr>primary = demo_key 1, also_accept = [demo_key 2]\<rparr>, ?rate)"
    and "build_checks (rotation_phases (demo_key 1) (demo_key 2) c ! 2) =
      Inr (Encrypted \<lparr>primary = demo_key 2, also_accept = [demo_key 1]\<rparr>, ?rate)"
    by (simp_all add: defs)
  from key_rotation_never_splits [OF this, of demo_crypto arr_zero 1 2 "[3]"] demo_crypto_laws show ?thesis by simp
qed

end
