(* ===== verification/RecoveryBook.thy ===== *)
theory RecoveryBook
  imports Config
begin

text \<open>
  Sender-side state of selective fragment recovery (\<open>src/replica/recovery.rs\<close>): the capabilities
  peers have advertised and the payloads retained for retransmission, with expiry, the four
  eviction loops of \<open>retain\<close> and the round limit.
\<close>

section \<open>State\<close>

definition SELECTIVE_RECOVERY_CAPABILITY :: bytes where
  "SELECTIVE_RECOVERY_CAPABILITY = [115, 114, 1]"

definition FULL_RETRY_INTERVAL :: duration where
  "FULL_RETRY_INTERVAL = from_secs 12"

record OutboundTransfer =
  ob_payload :: bytes
  ob_last_activity :: instant
  last_full_send :: instant
  recovery_rounds :: nat

type_synonym 'p book_key = "'p \<times> transfer_id"

record 'p RecoveryBook =
  capabilities :: "('p, instant) kv"
  outbound :: "('p book_key, OutboundTransfer) kv"
  total_bytes :: nat

record RetainReport =
  retained :: bool
  skip_full_send :: bool
  fallback_full_retry :: bool
  rr_expired :: nat
  rr_evicted :: nat
  rr_transfers :: nat
  rr_bytes :: nat

record ExpireReport =
  er_transfers :: nat
  er_bytes :: nat
  remaining_transfers :: nat
  remaining_bytes :: nat

record RecoveryPayload =
  rp_payload :: bytes
  exhausted_after_this_round :: bool

definition book_for_identity :: "'p RecoveryBook" where
  "book_for_identity = \<lparr>capabilities = [], outbound = [], total_bytes = 0\<rparr>"

section \<open>Operations\<close>

definition book_remove :: "'p book_key \<Rightarrow> 'p RecoveryBook \<Rightarrow> OutboundTransfer option \<times> 'p RecoveryBook" where
  "book_remove key b =
    (case map_of (outbound b) key of
       None \<Rightarrow> (None, b)
     | Some t \<Rightarrow>
        (Some t, b\<lparr>outbound := AList.delete key (outbound b),
                   total_bytes := total_bytes b - length (ob_payload t)\<rparr>))"

definition expire_capabilities :: "instant \<Rightarrow> duration \<Rightarrow> 'p RecoveryBook \<Rightarrow> 'p RecoveryBook" where
  "expire_capabilities now ttl b = b\<lparr>capabilities := filter (\<lambda>(_, seen). now - seen < ttl) (capabilities b)\<rparr>"

definition expire_outbound :: "instant \<Rightarrow> duration \<Rightarrow> 'p RecoveryBook \<Rightarrow> nat \<times> 'p RecoveryBook" where
  "expire_outbound now ttl b =
    (let expired = map fst (filter (\<lambda>(_, t). ttl \<le> now - ob_last_activity t) (kv_iter (outbound b)))
     in (length expired, foldl (\<lambda>b key. snd (book_remove key b)) b expired))"

definition book_peer_transfer_count :: "'p \<Rightarrow> 'p RecoveryBook \<Rightarrow> nat" where
  "book_peer_transfer_count peer b = length (filter (\<lambda>((p, _), _). p = peer) (kv_iter (outbound b)))"

definition book_peer_bytes :: "'p \<Rightarrow> 'p RecoveryBook \<Rightarrow> nat" where
  "book_peer_bytes peer b =
    kv_sum (\<lambda>t. length (ob_payload t)) (filter (\<lambda>((p, _), _). p = peer) (kv_iter (outbound b)))"

definition in_scope :: "'p option \<Rightarrow> 'p \<Rightarrow> bool" where
  "in_scope scope p \<longleftrightarrow> (case scope of None \<Rightarrow> True | Some wanted \<Rightarrow> p = wanted)"

definition book_oldest :: "'p::linorder option \<Rightarrow> 'p RecoveryBook \<Rightarrow> 'p book_key option" where
  "book_oldest scope b =
    map_option snd (least (map (\<lambda>((p, tid), t). (ob_last_activity t, p, tid))
      (filter (\<lambda>((p, _), _). in_scope scope p) (kv_iter (outbound b)))))"

definition book_expire :: "instant \<Rightarrow> FramingConfig \<Rightarrow> 'p RecoveryBook \<Rightarrow> ExpireReport \<times> 'p RecoveryBook" where
  "book_expire now cfg b =
    (let b1 = expire_capabilities now (recovery_capability_ttl cfg) b;
         before_bytes = total_bytes b1;
         (expired, b2) = expire_outbound now (recovery_ttl cfg) b1
     in (\<lparr>er_transfers = expired, er_bytes = before_bytes - total_bytes b2,
          remaining_transfers = length (kv_iter (outbound b2)), remaining_bytes = total_bytes b2\<rparr>, b2))"

definition record_capability ::
  "'p \<Rightarrow> instant \<Rightarrow> FramingConfig \<Rightarrow> nat \<Rightarrow> 'p RecoveryBook \<Rightarrow> 'p RecoveryBook" where
  "record_capability peer now cfg maximum b =
    (if \<not> selective_recovery cfg then b
     else let b' = snd (book_expire now cfg b)
          in if map_of (capabilities b') peer \<noteq> None \<or> length (capabilities b') < maximum
             then b'\<lparr>capabilities := AList.update peer now (capabilities b')\<rparr> else b')"

definition supports :: "'p \<Rightarrow> instant \<Rightarrow> FramingConfig \<Rightarrow> 'p RecoveryBook \<Rightarrow> bool \<times> 'p RecoveryBook" where
  "supports peer now cfg b =
    (if \<not> selective_recovery cfg then (False, b)
     else let b' = expire_capabilities now (recovery_capability_ttl cfg) b
          in (map_of (capabilities b') peer \<noteq> None, b'))"

definition retain_report :: "bool \<Rightarrow> nat \<Rightarrow> nat \<Rightarrow> bool \<Rightarrow> bool \<Rightarrow> 'p RecoveryBook \<Rightarrow> RetainReport" where
  "retain_report kept expired evicted skip fallback b =
    \<lparr>retained = kept, skip_full_send = skip, fallback_full_retry = fallback, rr_expired = expired,
     rr_evicted = evicted, rr_transfers = length (kv_iter (outbound b)), rr_bytes = total_bytes b\<rparr>"

lemma book_remove_shorter:
  "book_remove key b = (Some t, b') \<Longrightarrow> length (outbound b') < length (outbound b)"
  by (auto simp: book_remove_def length_delete_less split: option.splits)

text \<open>The four loops of \<open>retain\<close> differ in their condition and in whether the victim is the peer's
  oldest transfer or the oldest of all.\<close>

function evict_while ::
  "('p::linorder RecoveryBook \<Rightarrow> bool) \<Rightarrow> 'p option \<Rightarrow> 'p RecoveryBook \<Rightarrow> nat \<Rightarrow> bool \<times> 'p RecoveryBook \<times> nat" where
  "evict_while over scope b evicted =
    (if over b then
       case book_oldest scope b of
         None \<Rightarrow> (False, b, evicted)
       | Some victim \<Rightarrow>
          (case book_remove victim b of
             (None, b') \<Rightarrow> (False, b', evicted)
           | (Some _, b') \<Rightarrow> evict_while over scope b' (evicted + 1))
     else (True, b, evicted))"
  by pat_completeness auto
termination
  by (relation "measure (\<lambda>(_, _, b, _). length (outbound b))") (auto dest: book_remove_shorter [OF sym])

declare evict_while.simps [simp del]

definition retain_insert ::
  "'p \<Rightarrow> transfer_id \<Rightarrow> bytes \<Rightarrow> instant \<Rightarrow> 'p RecoveryBook \<Rightarrow> 'p RecoveryBook" where
  "retain_insert peer tid payload now b =
    b\<lparr>total_bytes := total_bytes b + length payload,
      outbound := AList.update (peer, tid)
        \<lparr>ob_payload = payload, ob_last_activity = now, last_full_send = now, recovery_rounds = 0\<rparr> (outbound b)\<rparr>"

definition retain_fresh ::
  "'p::linorder \<Rightarrow> transfer_id \<Rightarrow> bytes \<Rightarrow> instant \<Rightarrow> FramingConfig \<Rightarrow> nat \<Rightarrow> 'p RecoveryBook \<Rightarrow> RetainReport \<times> 'p RecoveryBook" where
  "retain_fresh peer tid payload now cfg expired b =
    (case evict_while (\<lambda>b. max_outbound_recovery_transfers_per_peer cfg \<le> book_peer_transfer_count peer b) (Some peer) b 0 of
       (False, b, evicted) \<Rightarrow> (retain_report False expired evicted False False b, b)
     | (True, b, evicted) \<Rightarrow>
    case evict_while (\<lambda>b. max_total_outbound_recovery_transfers cfg \<le> length (kv_iter (outbound b))) None b evicted of
       (False, b, evicted) \<Rightarrow> (retain_report False expired evicted False False b, b)
     | (True, b, evicted) \<Rightarrow>
    case evict_while (\<lambda>b. max_outbound_recovery_bytes_per_peer cfg < sat_add (book_peer_bytes peer b) (length payload)) (Some peer) b evicted of
       (False, b, evicted) \<Rightarrow> (retain_report False expired evicted False False b, b)
     | (True, b, evicted) \<Rightarrow>
    case evict_while (\<lambda>b. max_total_outbound_recovery_bytes cfg < sat_add (total_bytes b) (length payload)) None b evicted of
       (False, b, evicted) \<Rightarrow> (retain_report False expired evicted False False b, b)
     | (True, b, evicted) \<Rightarrow>
        let b' = retain_insert peer tid payload now b
        in (retain_report True expired evicted False False b', b'))"

definition retain_existing ::
  "'p \<Rightarrow> transfer_id \<Rightarrow> OutboundTransfer \<Rightarrow> instant \<Rightarrow> nat \<Rightarrow> 'p RecoveryBook \<Rightarrow> RetainReport \<times> 'p RecoveryBook" where
  "retain_existing peer tid existing now expired b =
    (let fallback = FULL_RETRY_INTERVAL \<le> now - last_full_send existing;
         t = existing\<lparr>ob_last_activity := now\<rparr>;
         t' = (if fallback then t\<lparr>last_full_send := now\<rparr> else t);
         b' = b\<lparr>outbound := AList.update (peer, tid) t' (outbound b)\<rparr>
     in (retain_report True expired 0 (\<not> fallback) fallback b', b'))"

definition retainable :: "bytes \<Rightarrow> FramingConfig \<Rightarrow> bool" where
  "retainable payload cfg \<longleftrightarrow>
    \<not> (\<not> selective_recovery cfg \<or> max_outbound_recovery_bytes_per_peer cfg < length payload \<or>
       max_total_outbound_recovery_bytes cfg < length payload \<or>
       max_outbound_recovery_transfers_per_peer cfg = 0 \<or> max_total_outbound_recovery_transfers cfg = 0)"

definition retain ::
  "'p::linorder \<Rightarrow> transfer_id \<Rightarrow> bytes \<Rightarrow> instant \<Rightarrow> FramingConfig \<Rightarrow> 'p RecoveryBook \<Rightarrow> RetainReport \<times> 'p RecoveryBook" where
  "retain peer tid payload now cfg b0 =
    (let (expired, b) = expire_outbound now (recovery_ttl cfg) b0
     in if \<not> retainable payload cfg then (retain_report False expired 0 False False b, b)
        else case map_of (outbound b) (peer, tid) of
          Some existing \<Rightarrow> retain_existing peer tid existing now expired b
        | None \<Rightarrow> retain_fresh peer tid payload now cfg expired b)"

definition payload_for_report ::
  "'p \<Rightarrow> transfer_id \<Rightarrow> instant \<Rightarrow> FramingConfig \<Rightarrow> 'p RecoveryBook \<Rightarrow> RecoveryPayload option \<times> 'p RecoveryBook" where
  "payload_for_report peer tid now cfg b0 =
    (let (_, b) = expire_outbound now (recovery_ttl cfg) b0
     in case map_of (outbound b) (peer, tid) of
          None \<Rightarrow> (None, b)
        | Some t \<Rightarrow>
           if max_selective_recovery_rounds cfg \<le> recovery_rounds t then (None, b)
           else let t' = t\<lparr>recovery_rounds := recovery_rounds t + 1, ob_last_activity := now\<rparr>
                in (Some \<lparr>rp_payload = ob_payload t',
                          exhausted_after_this_round = (max_selective_recovery_rounds cfg \<le> recovery_rounds t')\<rparr>,
                    b\<lparr>outbound := AList.update (peer, tid) t' (outbound b)\<rparr>))"

definition book_complete :: "'p \<Rightarrow> transfer_id \<Rightarrow> 'p RecoveryBook \<Rightarrow> bool \<times> 'p RecoveryBook" where
  "book_complete peer tid b = (let (r, b') = book_remove (peer, tid) b in (r \<noteq> None, b'))"

definition book_forget :: "'p \<Rightarrow> transfer_id \<Rightarrow> 'p RecoveryBook \<Rightarrow> bool \<times> 'p RecoveryBook" where
  "book_forget peer tid b = (let (r, b') = book_remove (peer, tid) b in (r \<noteq> None, b'))"

definition occupancy :: "'p RecoveryBook \<Rightarrow> nat \<times> nat" where
  "occupancy b = (length (kv_iter (outbound b)), total_bytes b)"

definition is_selective_recovery_capability :: "bytes \<Rightarrow> bool" where
  "is_selective_recovery_capability payload \<longleftrightarrow> payload = SELECTIVE_RECOVERY_CAPABILITY"

section \<open>Well-formed books\<close>

abbreviation ob_size :: "OutboundTransfer \<Rightarrow> nat" where
  "ob_size t \<equiv> length (ob_payload t)"

definition book_wf :: "'p RecoveryBook \<Rightarrow> bool" where
  "book_wf b \<longleftrightarrow> keys_distinct (capabilities b) \<and> keys_distinct (outbound b) \<and>
    total_bytes b = kv_sum ob_size (outbound b)"

definition book_within :: "FramingConfig \<Rightarrow> 'p RecoveryBook \<Rightarrow> bool" where
  "book_within cfg b \<longleftrightarrow>
    (\<forall>p. book_peer_transfer_count p b \<le> max_outbound_recovery_transfers_per_peer cfg) \<and>
    length (outbound b) \<le> max_total_outbound_recovery_transfers cfg \<and>
    (\<forall>p. book_peer_bytes p b \<le> max_outbound_recovery_bytes_per_peer cfg) \<and>
    total_bytes b \<le> max_total_outbound_recovery_bytes cfg \<and>
    (\<forall>kt\<in>set (outbound b). recovery_rounds (snd kt) \<le> max_selective_recovery_rounds cfg)"

text \<open>What expiry and eviction do: transfers disappear and nothing else changes.\<close>

definition shrinks :: "'p RecoveryBook \<Rightarrow> 'p RecoveryBook \<Rightarrow> bool" where
  "shrinks b b' \<longleftrightarrow> capabilities b' = capabilities b \<and> (\<exists>P. outbound b' = filter P (outbound b))"

lemma shrinks_refl [simp]: "shrinks b b"
  by (auto simp: shrinks_def intro: exI [of _ "\<lambda>_. True"])

lemma shrinks_trans: "shrinks a b \<Longrightarrow> shrinks b c \<Longrightarrow> shrinks a c"
  by (auto simp: shrinks_def)

lemma book_remove_ok:
  assumes "book_wf b"
  shows "book_wf (snd (book_remove k b))" "shrinks b (snd (book_remove k b))"
proof -
  show "book_wf (snd (book_remove k b))"
    using assms kv_sum_delete [of "outbound b" k _ ob_size]
    by (auto simp: book_remove_def book_wf_def split: option.splits)
  show "shrinks b (snd (book_remove k b))"
    by (auto simp: book_remove_def AList.delete_eq shrinks_def split: option.splits intro: exI [of _ "\<lambda>_. True"])
qed

lemma removes_ok:
  "book_wf b \<Longrightarrow> book_wf (foldl (\<lambda>b k. snd (book_remove k b)) b ks) \<and>
    shrinks b (foldl (\<lambda>b k. snd (book_remove k b)) b ks)"
proof (induction ks arbitrary: b)
  case (Cons k ks)
  then show ?case using book_remove_ok [OF Cons.prems, of k] shrinks_trans by fastforce
qed simp

lemma expire_outbound_ok:
  assumes "expire_outbound now ttl b = (n, b')" "book_wf b"
  shows "book_wf b'" "shrinks b b'"
  using assms removes_ok [OF assms(2)] by (auto simp: expire_outbound_def Let_def)

lemma evict_while_ok:
  "book_wf b \<Longrightarrow> evict_while over scope b ev = (ok, b', ev') \<Longrightarrow>
    book_wf b' \<and> shrinks b b' \<and> (ok \<longrightarrow> \<not> over b')"
proof (induction over scope b ev rule: evict_while.induct)
  case (1 over scope b ev)
  show ?case
  proof (cases "over b")
    case True
    show ?thesis
    proof (cases "book_oldest scope b")
      case None
      then show ?thesis using 1 True by (simp add: evict_while.simps)
    next
      case (Some v)
      obtain r b1 where rm: "book_remove v b = (r, b1)" by fastforce
      then have b1: "book_wf b1" "shrinks b b1" using book_remove_ok [OF "1.prems"(1), of v] by simp_all
      show ?thesis
      proof (cases r)
        case None
        then show ?thesis using "1.prems"(2) b1 by (simp add: True Some rm evict_while.simps [of over scope b])
      next
        case (Some t)
        then have "evict_while over scope b1 (ev + 1) = (ok, b', ev')"
          using "1.prems"(2) by (simp add: True \<open>book_oldest scope b = Some v\<close> rm evict_while.simps [of over scope b])
        from "1.IH" [OF True \<open>book_oldest scope b = Some v\<close> rm [symmetric] Some b1(1) this] show ?thesis
          using shrinks_trans [OF b1(2)] by blast
      qed
    qed
  qed (use 1 in \<open>simp add: evict_while.simps\<close>)
qed

section \<open>Limits\<close>

lemma kv_sum_filter_le: "kv_sum f (filter P m) \<le> kv_sum f m"
  by (induction m) auto

lemma length_filter_filter_le: "length (filter Q (filter P xs)) \<le> length (filter Q xs)"
  by (induction xs) auto

lemma kv_sum_filter_filter_le: "kv_sum f (filter Q (filter P m)) \<le> kv_sum f (filter Q m)"
  by (induction m) auto

lemma shrinks_counts:
  assumes "shrinks b b'" "book_wf b" "book_wf b'"
  shows "book_peer_transfer_count p b' \<le> book_peer_transfer_count p b" "length (outbound b') \<le> length (outbound b)"
    "book_peer_bytes p b' \<le> book_peer_bytes p b" "total_bytes b' \<le> total_bytes b" "set (outbound b') \<subseteq> set (outbound b)"
proof -
  obtain P where P: "outbound b' = filter P (outbound b)" using assms(1) by (auto simp: shrinks_def)
  have it: "kv_iter (outbound b) = outbound b" "kv_iter (filter P (outbound b)) = filter P (outbound b)"
    using assms(2,3) P by (simp_all add: book_wf_def)
  show "book_peer_transfer_count p b' \<le> book_peer_transfer_count p b" "length (outbound b') \<le> length (outbound b)"
    "book_peer_bytes p b' \<le> book_peer_bytes p b" "total_bytes b' \<le> total_bytes b" "set (outbound b') \<subseteq> set (outbound b)"
    using assms(2,3) kv_sum_filter_le [of ob_size P "outbound b"]
      kv_sum_filter_filter_le [of ob_size "\<lambda>((q, _), _). q = p" P "outbound b"]
    unfolding book_peer_transfer_count_def book_peer_bytes_def P it
    by (auto simp: book_wf_def P length_filter_filter_le simp del: filter_filter)
qed

lemma shrinks_within: "shrinks b b' \<Longrightarrow> book_wf b \<Longrightarrow> book_wf b' \<Longrightarrow> book_within cfg b \<Longrightarrow> book_within cfg b'"
  unfolding book_within_def by (meson order_trans shrinks_counts subsetD)

lemma filter_update_new:
  "map_of m k = None \<Longrightarrow> filter P (AList.update k v m) = filter P m @ (if P (k, v) then [(k, v)] else [])"
  by (induction m) auto

lemma filter_keys_update:
  "map_of m k = Some v \<Longrightarrow> filter (\<lambda>(k, _). P k) (AList.update k v' m) = (if P k then AList.update k v' else (\<lambda>x. x)) (filter (\<lambda>(k, _). P k) m)"
  by (induction m) auto

lemma set_update_subset: "set (AList.update k v m) \<subseteq> insert (k, v) (set m)"
  by (induction m) auto

text \<open>Replacing a transfer by one with the same payload.\<close>

definition book_put :: "'p book_key \<Rightarrow> OutboundTransfer \<Rightarrow> 'p RecoveryBook \<Rightarrow> 'p RecoveryBook" where
  "book_put k t b = b\<lparr>outbound := AList.update k t (outbound b)\<rparr>"

lemma book_put_ok:
  assumes "book_wf b" "map_of (outbound b) k = Some t" "ob_payload t' = ob_payload t"
  shows "book_wf (book_put k t' b)" 
    "book_within cfg b \<Longrightarrow> recovery_rounds t' \<le> max_selective_recovery_rounds cfg \<Longrightarrow> book_within cfg (book_put k t' b)"
proof -
  have d: "keys_distinct (outbound b)" and tot: "total_bytes b = kv_sum ob_size (outbound b)"
    using assms(1) by (simp_all add: book_wf_def)
  show wf: "book_wf (book_put k t' b)"
    using assms kv_sum_update [OF d assms(2), of ob_size t'] by (simp add: book_wf_def book_put_def)
  have in_m: "map_of (filter (\<lambda>((p, _), _). p = q) (outbound b)) k = (if fst k = q then Some t else None)" for q
    using map_of_filter_distinct [OF d, of "\<lambda>((p, _), _). p = q" k] assms(2) by (cases k) auto
  have flt: "filter (\<lambda>((p, _), _). p = q) (AList.update k t' (outbound b)) =
      (if fst k = q then AList.update k t' else (\<lambda>x. x)) (filter (\<lambda>((p, _), _). p = q) (outbound b))" for q
    using filter_keys_update [OF assms(2), of "\<lambda>(p, _). p = q" t'] by (simp add: case_prod_unfold)
  have cnt: "book_peer_transfer_count q (book_put k t' b) = book_peer_transfer_count q b" for q
    using wf d in_m [of q] by (simp add: book_peer_transfer_count_def book_put_def flt length_update_le)
  have byt: "book_peer_bytes q (book_put k t' b) = book_peer_bytes q b" for q
    using wf d in_m [of q] kv_sum_update [of "filter (\<lambda>((p, _), _). p = q) (outbound b)" k t ob_size t'] assms(3)
    by (simp add: book_peer_bytes_def book_put_def flt)
  show "book_within cfg (book_put k t' b)"
    if "book_within cfg b" "recovery_rounds t' \<le> max_selective_recovery_rounds cfg"
    using that set_update_subset [of k t' "outbound b"] assms(2)
    unfolding book_within_def cnt byt by (fastforce simp: book_put_def length_update_le)
qed

lemma retain_insert_ok:
  assumes "book_wf b" "map_of (outbound b) (p, tid) = None"
  shows "book_wf (retain_insert p tid m now b)"
    "book_within cfg b \<Longrightarrow>
      book_peer_transfer_count p b < max_outbound_recovery_transfers_per_peer cfg \<Longrightarrow>
      length (outbound b) < max_total_outbound_recovery_transfers cfg \<Longrightarrow>
      book_peer_bytes p b + length m \<le> max_outbound_recovery_bytes_per_peer cfg \<Longrightarrow>
      total_bytes b + length m \<le> max_total_outbound_recovery_bytes cfg \<Longrightarrow>
      book_within cfg (retain_insert p tid m now b)"
proof -
  let ?t = "\<lparr>ob_payload = m, ob_last_activity = now, last_full_send = now, recovery_rounds = 0\<rparr>"
  have d: "keys_distinct (outbound b)" using assms(1) by (simp add: book_wf_def)
  show wf: "book_wf (retain_insert p tid m now b)"
    using assms kv_sum_update_new [OF assms(2), of ob_size ?t] by (simp add: book_wf_def retain_insert_def)
  have cnt: "book_peer_transfer_count q (retain_insert p tid m now b) = book_peer_transfer_count q b + of_bool (p = q)" for q
    using d by (simp add: book_peer_transfer_count_def retain_insert_def filter_update_new [OF assms(2)])
  have byt: "book_peer_bytes q (retain_insert p tid m now b) = book_peer_bytes q b + (if p = q then length m else 0)" for q
    using d by (simp add: book_peer_bytes_def retain_insert_def filter_update_new [OF assms(2)])
  show "book_within cfg (retain_insert p tid m now b)"
    if "book_within cfg b" "book_peer_transfer_count p b < max_outbound_recovery_transfers_per_peer cfg"
      "length (outbound b) < max_total_outbound_recovery_transfers cfg"
      "book_peer_bytes p b + length m \<le> max_outbound_recovery_bytes_per_peer cfg"
      "total_bytes b + length m \<le> max_total_outbound_recovery_bytes cfg"
    using that set_update_subset [of "(p, tid)" ?t "outbound b"] assms(2)
    unfolding book_within_def cnt byt by (auto simp: retain_insert_def length_update_le)
qed

section \<open>Operations keep the invariant\<close>

definition book_ok :: "FramingConfig \<Rightarrow> 'p RecoveryBook \<Rightarrow> bool" where
  "book_ok cfg b \<longleftrightarrow> book_wf b \<and> book_within cfg b"

lemma book_okD [dest]: "book_ok cfg b \<Longrightarrow> book_wf b \<and> book_within cfg b"
  by (simp add: book_ok_def)

lemma shrinks_ok: "shrinks b b' \<Longrightarrow> book_ok cfg b \<Longrightarrow> book_wf b' \<Longrightarrow> book_ok cfg b'"
  using shrinks_within [of b b' cfg] by (auto simp: book_ok_def)

lemma book_within_capabilities [simp]: "book_within cfg (b\<lparr>capabilities := caps\<rparr>) = book_within cfg b"
  by (simp add: book_within_def book_peer_transfer_count_def book_peer_bytes_def)

lemma capabilities_ok:
  "book_ok cfg b \<Longrightarrow> keys_distinct caps \<Longrightarrow> book_ok cfg (b\<lparr>capabilities := caps\<rparr>)"
  by (simp add: book_ok_def book_wf_def)

lemma expire_capabilities_ok: "book_ok cfg b \<Longrightarrow> book_ok cfg (expire_capabilities now ttl b)"
  unfolding expire_capabilities_def by (rule capabilities_ok) (auto simp: book_ok_def book_wf_def)

lemma expire_outbound_book_ok:
  "expire_outbound now ttl b = (n, b') \<Longrightarrow> book_ok cfg b \<Longrightarrow> book_ok cfg b'"
  using expire_outbound_ok [of now ttl b n b'] shrinks_ok [of b b' cfg] by auto

lemma book_expire_ok: "book_expire now cfg b = (rep, b') \<Longrightarrow> book_ok cfg b \<Longrightarrow> book_ok cfg b'"
  by (auto simp: book_expire_def Let_def split: prod.splits intro: expire_capabilities_ok expire_outbound_book_ok)

lemma record_capability_ok: "book_ok cfg b \<Longrightarrow> book_ok cfg (record_capability p now cfg n b)"
  using book_expire_ok [of now cfg b "fst (book_expire now cfg b)" "snd (book_expire now cfg b)"]
  by (auto simp: record_capability_def Let_def book_ok_def book_wf_def)

text \<open>The budgets of a configuration leave room below the address space, as every real one does.\<close>

definition recovery_budgets_finite :: "FramingConfig \<Rightarrow> bool" where
  "recovery_budgets_finite cfg \<longleftrightarrow>
    max_outbound_recovery_bytes_per_peer cfg < usize_max \<and> max_total_outbound_recovery_bytes cfg < usize_max"

lemma sat_add_le: "sat_add x n \<le> m \<Longrightarrow> m < usize_max \<Longrightarrow> x + n \<le> m"
  by (auto simp: sat_add_def min_le_iff_disj)

definition room_for :: "'p \<Rightarrow> bytes \<Rightarrow> FramingConfig \<Rightarrow> 'p RecoveryBook \<Rightarrow> bool" where
  "room_for p m cfg b \<longleftrightarrow>
    book_peer_transfer_count p b < max_outbound_recovery_transfers_per_peer cfg \<and>
    length (outbound b) < max_total_outbound_recovery_transfers cfg \<and>
    sat_add (book_peer_bytes p b) (length m) \<le> max_outbound_recovery_bytes_per_peer cfg \<and>
    sat_add (total_bytes b) (length m) \<le> max_total_outbound_recovery_bytes cfg"

lemma retain_fresh_cases:
  assumes "retain_fresh p tid m now cfg ex b = (rep, b')" "book_wf b"
  obtains b4 where "shrinks b b4" "book_wf b4" "\<not> retained rep" "b' = b4"
  | b4 where "shrinks b b4" "book_wf b4" "retained rep" "room_for p m cfg b4" "b' = retain_insert p tid m now b4"
proof -
  obtain ok1 b1 e1 where 1: "evict_while (\<lambda>b. max_outbound_recovery_transfers_per_peer cfg \<le> book_peer_transfer_count p b)
      (Some p) b 0 = (ok1, b1, e1)" by (metis prod_cases3)
  obtain ok2 b2 e2 where 2: "evict_while (\<lambda>b. max_total_outbound_recovery_transfers cfg \<le> length (kv_iter (outbound b)))
      None b1 e1 = (ok2, b2, e2)" by (metis prod_cases3)
  obtain ok3 b3 e3 where 3: "evict_while (\<lambda>b. max_outbound_recovery_bytes_per_peer cfg < sat_add (book_peer_bytes p b) (length m))
      (Some p) b2 e2 = (ok3, b3, e3)" by (metis prod_cases3)
  obtain ok4 b4 e4 where 4: "evict_while (\<lambda>b. max_total_outbound_recovery_bytes cfg < sat_add (total_bytes b) (length m))
      None b3 e3 = (ok4, b4, e4)" by (metis prod_cases3)
  note r1 = evict_while_ok [OF _ 1] and r2 = evict_while_ok [OF _ 2] and r3 = evict_while_ok [OF _ 3] and r4 = evict_while_ok [OF _ 4]
  have wf: "book_wf b1" "book_wf b2" "book_wf b3" "book_wf b4" using assms(2) r1 r2 r3 r4 by auto
  have step: "shrinks b b1" "shrinks b1 b2" "shrinks b2 b3" "shrinks b3 b4" using assms(2) wf r1 r2 r3 r4 by simp_all
  then have sh: "shrinks b b2" "shrinks b b3" "shrinks b b4" by (blast intro: shrinks_trans)+
  note c2 = shrinks_counts [OF step(2) wf(1,2)] and c3 = shrinks_counts [OF step(3) wf(2,3)]
    and c4 = shrinks_counts [OF step(4) wf(3,4)]
  show thesis
  proof (cases "ok1 \<and> ok2 \<and> ok3 \<and> ok4")
    case True
    have "sat_add (book_peer_bytes p b4) (length m) \<le> sat_add (book_peer_bytes p b3) (length m)"
      using c4(3) [of p] by (simp add: sat_add_def min_le_iff_disj min.coboundedI1)
    then have "room_for p m cfg b4"
      using True assms(2) wf r1 r2 r3 r4 c2(1) [of p] c2(2) c3(1) [of p] c3(2) c4(1) [of p] c4(2) kv_iter_distinct [of "outbound b2"]
      by (auto simp: room_for_def book_wf_def not_less not_le)
    moreover have "retained rep" "b' = retain_insert p tid m now b4"
      using assms(1) True 1 2 3 4 by (auto simp: retain_fresh_def Let_def retain_report_def)
    ultimately show thesis using that(2) [OF sh(3) wf(4)] by simp
  next
    case False
    have "\<not> retained rep \<and> b' \<in> {b1, b2, b3, b4}"
      using assms(1) False 1 2 3 4
      by (cases ok1; cases ok2; cases ok3; cases ok4) (auto simp: retain_fresh_def retain_report_def)
    then show thesis using that(1) step(1) sh wf by auto
  qed
qed

lemma retain_fresh_ok:
  assumes "retain_fresh p tid m now cfg ex b = (rep, b')" "book_ok cfg b" "map_of (outbound b) (p, tid) = None"
    "recovery_budgets_finite cfg"
  shows "book_ok cfg b'"
proof -
  from assms(2) have "book_wf b" by blast
  from assms(1) this show ?thesis
  proof (cases rule: retain_fresh_cases)
    case (1 b4)
    then show ?thesis using shrinks_ok [OF _ assms(2)] by simp
  next
    case (2 b4)
    have new: "map_of (outbound b4) (p, tid) = None"
      using assms(3) 2(1) by (auto simp: shrinks_def map_of_eq_None_iff)
    then show ?thesis
      using 2 retain_insert_ok [OF 2(2) new] shrinks_ok [OF 2(1) assms(2)] assms(4)
      by (auto simp: book_ok_def room_for_def recovery_budgets_finite_def sat_add_le)
  qed
qed

lemma retain_existing_ok:
  assumes "retain_existing p tid t now ex b = (rep, b')" "book_ok cfg b" "map_of (outbound b) (p, tid) = Some t"
  shows "book_ok cfg b'"
proof -
  let ?t = "if FULL_RETRY_INTERVAL \<le> now - last_full_send t then t\<lparr>ob_last_activity := now, last_full_send := now\<rparr>
    else t\<lparr>ob_last_activity := now\<rparr>"
  have "b' = book_put (p, tid) ?t b" using assms(1) by (auto simp: retain_existing_def Let_def book_put_def)
  moreover have "recovery_rounds t \<le> max_selective_recovery_rounds cfg"
    using assms(2) map_of_SomeD [OF assms(3)] by (auto simp: book_ok_def book_within_def)
  ultimately show ?thesis
    using book_put_ok [of b "(p, tid)" t ?t] assms(2,3) by (auto simp: book_ok_def)
qed

lemma retain_ok:
  assumes "retain p tid m now cfg b = (rep, b')" "book_ok cfg b" "recovery_budgets_finite cfg"
  shows "book_ok cfg b'"
proof -
  obtain n b1 where e: "expire_outbound now (recovery_ttl cfg) b = (n, b1)" by fastforce
  have b1: "book_ok cfg b1" using expire_outbound_book_ok [OF e assms(2)] .
  show ?thesis
    using assms(1) b1 retain_fresh_ok [OF _ b1 _ assms(3)] retain_existing_ok [OF _ b1]
    by (fastforce simp: retain_def e split: if_splits option.splits)
qed

lemma payload_for_report_ok:
  assumes "payload_for_report p tid now cfg b = (r, b')" "book_ok cfg b"
  shows "book_ok cfg b'"
proof -
  obtain n b1 where e: "expire_outbound now (recovery_ttl cfg) b = (n, b1)" by fastforce
  have b1: "book_ok cfg b1" using expire_outbound_book_ok [OF e assms(2)] .
  show ?thesis
  proof (cases "map_of (outbound b1) (p, tid)")
    case (Some t)
    let ?t = "t\<lparr>recovery_rounds := recovery_rounds t + 1, ob_last_activity := now\<rparr>"
    have "b' = b1 \<or> b' = book_put (p, tid) ?t b1 \<and> recovery_rounds t < max_selective_recovery_rounds cfg"
      using assms(1) e Some by (auto simp: payload_for_report_def Let_def book_put_def split: if_splits)
    then show ?thesis using book_put_ok [OF _ Some, of ?t] b1 by (auto simp: book_ok_def)
  qed (use assms(1) e b1 in \<open>simp add: payload_for_report_def\<close>)
qed

lemma book_remove_book_ok: "book_remove k b = (r, b') \<Longrightarrow> book_ok cfg b \<Longrightarrow> book_ok cfg b'"
  using book_remove_ok [of b k] shrinks_ok [of b b' cfg] by (auto simp: book_ok_def)

section \<open>Eviction always makes room\<close>

lemma book_oldest_Some:
  assumes "book_oldest scope b = Some k"
  shows "map_of (outbound b) k \<noteq> None"
  using assms unfolding book_oldest_def by (fastforce dest: least_Some simp: kv_iter_map_of)

lemma book_oldest_None: "book_oldest scope b = None \<longleftrightarrow> filter (\<lambda>((p, _), _). in_scope scope p) (kv_iter (outbound b)) = []"
  by (simp add: book_oldest_def)

lemma evict_while_succeeds:
  "(\<And>b. book_wf b \<Longrightarrow> over b \<Longrightarrow> book_oldest scope b \<noteq> None) \<Longrightarrow> book_wf b \<Longrightarrow> fst (evict_while over scope b ev)"
proof (induction over scope b ev rule: evict_while.induct)
  case (1 over scope b ev)
  show ?case
  proof (cases "over b")
    case True
    then obtain v where v: "book_oldest scope b = Some v" using "1.prems" by blast
    then obtain t where t: "map_of (outbound b) v = Some t" using book_oldest_Some by fastforce
    obtain b1 where rm: "book_remove v b = (Some t, b1)" using t by (simp add: book_remove_def)
    have "book_wf b1" using book_remove_ok [OF "1.prems"(2), of v] rm by simp
    from "1.IH" [OF True v rm [symmetric] refl "1.prems"(1) this] show ?thesis
      by (simp add: evict_while.simps [of over scope b] True v rm)
  qed (simp add: evict_while.simps)
qed

lemma retain_fresh_succeeds:
  assumes "retain_fresh p tid m now cfg ex b = (rep, b')" "book_wf b" "retainable m cfg"
  shows "retained rep"
proof -
  let ?o1 = "\<lambda>b. max_outbound_recovery_transfers_per_peer cfg \<le> book_peer_transfer_count p b"
  let ?o2 = "\<lambda>b. max_total_outbound_recovery_transfers cfg \<le> length (kv_iter (outbound b))"
  let ?o3 = "\<lambda>b. max_outbound_recovery_bytes_per_peer cfg < sat_add (book_peer_bytes p b) (length m)"
  let ?o4 = "\<lambda>b. max_total_outbound_recovery_bytes cfg < sat_add (total_bytes b) (length m)"
  note none = book_oldest_None in_scope_def retainable_def split_def sat_add_def
  have s1: "fst (evict_while ?o1 (Some p) b ev)" if "book_wf b" for b ev
    by (rule evict_while_succeeds [OF _ that]) (use assms(3) in \<open>auto simp: none book_peer_transfer_count_def\<close>)
  have s2: "fst (evict_while ?o2 None b ev)" if "book_wf b" for b ev
    by (rule evict_while_succeeds [OF _ that]) (use assms(3) in \<open>auto simp: none\<close>)
  have s3: "fst (evict_while ?o3 (Some p) b ev)" if "book_wf b" for b ev
    by (rule evict_while_succeeds [OF _ that]) (use assms(3) in \<open>auto simp: none book_peer_bytes_def\<close>)
  have s4: "fst (evict_while ?o4 None b ev)" if "book_wf b" for b ev
    by (rule evict_while_succeeds [OF _ that]) (use assms(3) in \<open>auto simp: none book_wf_def\<close>)
  obtain ok1 b1 e1 where 1: "evict_while ?o1 (Some p) b 0 = (ok1, b1, e1)" by (metis prod_cases3)
  obtain ok2 b2 e2 where 2: "evict_while ?o2 None b1 e1 = (ok2, b2, e2)" by (metis prod_cases3)
  obtain ok3 b3 e3 where 3: "evict_while ?o3 (Some p) b2 e2 = (ok3, b3, e3)" by (metis prod_cases3)
  obtain ok4 b4 e4 where 4: "evict_while ?o4 None b3 e3 = (ok4, b4, e4)" by (metis prod_cases3)
  have wf: "book_wf b1" "book_wf b2" "book_wf b3"
    using assms(2) evict_while_ok [OF _ 1] evict_while_ok [OF _ 2] evict_while_ok [OF _ 3] by auto
  have "ok1" "ok2" "ok3" "ok4"
    using s1 [OF assms(2), of 0] s2 [OF wf(1), of e1] s3 [OF wf(2), of e2] s4 [OF wf(3), of e3] 1 2 3 4 by simp_all
  then show ?thesis using assms(1) 1 2 3 4 by (auto simp: retain_fresh_def Let_def retain_report_def)
qed

section \<open>Sequences of operations\<close>

datatype 'p book_op =
    OpCapability 'p instant
  | OpSupports 'p instant
  | OpRetain 'p transfer_id bytes instant
  | OpReport 'p transfer_id instant
  | OpComplete 'p transfer_id
  | OpForget 'p transfer_id
  | OpExpire instant

text \<open>An operation leaves a book and may grant the retransmission of a payload.\<close>

fun book_step ::
  "FramingConfig \<Rightarrow> nat \<Rightarrow> 'p::linorder book_op \<Rightarrow> 'p RecoveryBook \<Rightarrow> 'p book_key option \<times> 'p RecoveryBook" where
  "book_step cfg n (OpCapability p now) b = (None, record_capability p now cfg n b)"
| "book_step cfg n (OpSupports p now) b = (None, snd (supports p now cfg b))"
| "book_step cfg n (OpRetain p tid m now) b = (None, snd (retain p tid m now cfg b))"
| "book_step cfg n (OpReport p tid now) b =
    (let (r, b') = payload_for_report p tid now cfg b in (map_option (\<lambda>_. (p, tid)) r, b'))"
| "book_step cfg n (OpComplete p tid) b = (None, snd (book_complete p tid b))"
| "book_step cfg n (OpForget p tid) b = (None, snd (book_forget p tid b))"
| "book_step cfg n (OpExpire now) b = (None, snd (book_expire now cfg b))"

fun book_run ::
  "FramingConfig \<Rightarrow> nat \<Rightarrow> 'p::linorder book_op list \<Rightarrow> 'p RecoveryBook \<Rightarrow> 'p book_key option list \<times> 'p RecoveryBook" where
  "book_run cfg n [] b = ([], b)"
| "book_run cfg n (op # ops) b =
    (let (g, b') = book_step cfg n op b; (gs, b'') = book_run cfg n ops b' in (g # gs, b''))"

lemma book_step_ok:
  assumes "book_ok cfg b" "recovery_budgets_finite cfg"
  shows "book_ok cfg (snd (book_step cfg n op b))"
proof (cases op)
  case (OpSupports p now)
  then show ?thesis using assms by (simp add: supports_def Let_def expire_capabilities_ok)
next
  case (OpRetain p tid m now)
  then show ?thesis using retain_ok [OF prod.collapse [symmetric] assms] by simp
next
  case (OpReport p tid now)
  then show ?thesis using payload_for_report_ok [OF prod.collapse [symmetric] assms(1), of p tid now]
    by (simp add: Let_def case_prod_unfold)
next
  case (OpComplete p tid)
  then show ?thesis using book_remove_book_ok [OF prod.collapse [symmetric] assms(1)]
    by (simp add: book_complete_def Let_def case_prod_unfold)
next
  case (OpForget p tid)
  then show ?thesis using book_remove_book_ok [OF prod.collapse [symmetric] assms(1)]
    by (simp add: book_forget_def Let_def case_prod_unfold)
next
  case (OpExpire now)
  then show ?thesis using book_expire_ok [OF prod.collapse [symmetric] assms(1)] by simp
qed (use assms(1) record_capability_ok in auto)

lemma book_run_ok: "book_ok cfg b \<Longrightarrow> recovery_budgets_finite cfg \<Longrightarrow> book_ok cfg (snd (book_run cfg n ops b))"
  by (induction ops arbitrary: b) (auto simp: Let_def case_prod_unfold book_step_ok)

section \<open>Bounded retransmission\<close>

text \<open>The rounds a book may still grant for a transfer.\<close>

definition rounds_left :: "FramingConfig \<Rightarrow> 'p book_key \<Rightarrow> 'p RecoveryBook \<Rightarrow> nat" where
  "rounds_left cfg k b =
    (case map_of (outbound b) k of None \<Rightarrow> 0 | Some t \<Rightarrow> max_selective_recovery_rounds cfg - recovery_rounds t)"

lemma shrinks_rounds_left: "shrinks b b' \<Longrightarrow> book_wf b \<Longrightarrow> rounds_left cfg k b' \<le> rounds_left cfg k b"
  by (auto simp: shrinks_def rounds_left_def book_wf_def map_of_filter_distinct split: option.splits if_splits)

lemma rounds_left_update [simp]:
  "rounds_left cfg k (b\<lparr>outbound := AList.update k' t m\<rparr>) =
    (if k = k' then max_selective_recovery_rounds cfg - recovery_rounds t else rounds_left cfg k (b\<lparr>outbound := m\<rparr>))"
  "rounds_left cfg k (b\<lparr>total_bytes := n\<rparr>) = rounds_left cfg k b"
  "rounds_left cfg k (b\<lparr>capabilities := cs\<rparr>) = rounds_left cfg k b"
  by (auto simp: rounds_left_def)

lemma retain_rounds_left:
  assumes "retain p tid m now cfg b = (rep, b')" "book_wf b" "k \<noteq> (p, tid)"
  shows "rounds_left cfg k b' \<le> rounds_left cfg k b"
proof -
  obtain n b1 where e: "expire_outbound now (recovery_ttl cfg) b = (n, b1)" by fastforce
  note b1 = expire_outbound_ok [OF e assms(2)]
  have "rounds_left cfg k b' \<le> rounds_left cfg k b1"
  proof (cases "retainable m cfg \<and> map_of (outbound b1) (p, tid) = None")
    case True
    then have "retain_fresh p tid m now cfg n b1 = (rep, b')" using assms(1) e by (simp add: retain_def)
    from this b1(1) show ?thesis
    proof (cases rule: retain_fresh_cases)
      case (2 b4)
      then show ?thesis using shrinks_rounds_left [OF 2(1) b1(1), of cfg k] assms(3)
        by (simp add: retain_insert_def rounds_left_def)
    qed (use shrinks_rounds_left b1(1) in blast)
  next
    case False
    then show ?thesis using assms(1,3) e
      by (auto simp: retain_def retain_existing_def Let_def rounds_left_def split: if_splits option.splits)
  qed
  then show ?thesis using shrinks_rounds_left [OF b1(2) assms(2), of cfg k] by simp
qed

lemma report_rounds_left:
  assumes "payload_for_report p tid now cfg b = (r, b')" "book_wf b"
  shows "rounds_left cfg k b' + of_bool (r \<noteq> None \<and> k = (p, tid)) \<le> rounds_left cfg k b"
proof -
  obtain n b1 where e: "expire_outbound now (recovery_ttl cfg) b = (n, b1)" by fastforce
  note b1 = expire_outbound_ok [OF e assms(2)]
  have "rounds_left cfg k b' + of_bool (r \<noteq> None \<and> k = (p, tid)) \<le> rounds_left cfg k b1"
    using assms(1) e by (auto simp: payload_for_report_def Let_def rounds_left_def split: option.splits if_splits)
  then show ?thesis using shrinks_rounds_left [OF b1(2) assms(2), of cfg k] by simp
qed

lemma book_expire_rounds_left:
  assumes "book_wf b"
  shows "rounds_left cfg k (snd (book_expire now cfg b)) \<le> rounds_left cfg k b"
proof -
  let ?b = "expire_capabilities now (recovery_capability_ttl cfg) b"
  have wf: "book_wf ?b" using assms by (simp add: book_wf_def expire_capabilities_def)
  have "rounds_left cfg k ?b = rounds_left cfg k b" by (simp add: expire_capabilities_def)
  then show ?thesis using shrinks_rounds_left [OF expire_outbound_ok(2) [OF prod.collapse [symmetric] wf] wf, of cfg k]
    by (simp add: book_expire_def Let_def case_prod_unfold)
qed

definition retains :: "'p book_key \<Rightarrow> 'p book_op \<Rightarrow> bool" where
  "retains k op \<longleftrightarrow> (case op of OpRetain p tid _ _ \<Rightarrow> k = (p, tid) | _ \<Rightarrow> False)"

lemma step_rounds_left:
  assumes "book_wf b" "\<not> retains k op"
  shows "rounds_left cfg k (snd (book_step cfg n op b)) + of_bool (fst (book_step cfg n op b) = Some k) \<le> rounds_left cfg k b"
proof (cases op)
  case (OpRetain p tid m now)
  then show ?thesis using retain_rounds_left [OF prod.collapse [symmetric] assms(1)] assms(2) by (simp add: retains_def)
next
  case (OpReport p tid now)
  then show ?thesis using report_rounds_left [OF prod.collapse [symmetric] assms(1), where p = p and tid = tid and now = now and cfg = cfg and k = k]
    by (cases "fst (payload_for_report p tid now cfg b)") (auto simp: Let_def case_prod_unfold)
next
  case (OpCapability p now)
  then show ?thesis using book_expire_rounds_left [OF assms(1), of cfg k now]
    by (simp add: record_capability_def Let_def)
qed (use assms(1) in
    \<open>auto simp: supports_def Let_def expire_capabilities_def book_complete_def book_forget_def case_prod_unfold
      intro: book_expire_rounds_left shrinks_rounds_left [OF book_remove_ok(2)]\<close>)

lemma run_rounds_left:
  assumes "recovery_budgets_finite cfg" "list_all (\<lambda>op. \<not> retains k op) ops" "book_ok cfg b"
  shows "length (filter (\<lambda>g. g = Some k) (fst (book_run cfg n ops b))) \<le> rounds_left cfg k b"
  using assms(2,3)
proof (induction ops arbitrary: b)
  case (Cons op ops)
  let ?b = "snd (book_step cfg n op b)"
  have "book_ok cfg ?b" using book_step_ok [OF Cons.prems(2) assms(1)] .
  then show ?case
    using Cons.IH [of ?b] Cons.prems step_rounds_left [of b k op cfg n] by (auto simp: Let_def case_prod_unfold)
qed simp

section \<open>Properties\<close>

text \<open>C29: after any sequence of operations on a new book, the retained payloads are within the
  per-peer and global bounds on transfers and bytes, the running total is the number of bytes
  retained, and no transfer has used more rounds than configured.\<close>

theorem recovery_book_bounded:
  assumes "recovery_budgets_finite cfg"
  shows "book_ok cfg (snd (book_run cfg n ops book_for_identity))"
  by (rule book_run_ok [OF _ assms])
    (simp add: book_ok_def book_wf_def book_within_def book_for_identity_def book_peer_transfer_count_def
      book_peer_bytes_def kv_iter_def)

lemma default_budgets_finite: "recovery_budgets_finite framing_default"
  by (simp add: recovery_budgets_finite_def framing_default_def usize_max_def)

theorem recovery_book_bounded_witness:
  "book_ok framing_default (snd (book_run framing_default 4
     [OpCapability (1 :: nat) 5, OpRetain 1 arr_zero [1, 2, 3] 6, OpReport 1 arr_zero 7] book_for_identity))"
  by (rule recovery_book_bounded [OF default_budgets_finite])

text \<open>C30: a payload is retained exactly when selective recovery is on, it fits the byte budgets and
  the transfer budgets are positive; eviction always makes the room, so the defensive exits of the
  four loops are never taken.\<close>

theorem retain_succeeds_iff:
  assumes "book_wf b"
  shows "retained (fst (retain p tid m now cfg b)) \<longleftrightarrow> retainable m cfg"
proof -
  obtain n b1 where e: "expire_outbound now (recovery_ttl cfg) b = (n, b1)" by fastforce
  show ?thesis
    using retain_fresh_succeeds [OF prod.collapse [symmetric] expire_outbound_ok(1) [OF e assms]]
    by (auto simp: retain_def e retain_existing_def retain_report_def Let_def split: option.splits)
qed

theorem retain_succeeds_iff_witness:
  "retained (fst (retain (7 :: nat) arr_zero [1, 2, 3] 6 framing_default book_for_identity))"
  using retain_succeeds_iff [of book_for_identity "7 :: nat" arr_zero "[1, 2, 3]" 6 framing_default]
  by (simp add: book_wf_def book_for_identity_def retainable_def framing_default_def)



end
