(* ===== verification/Protocol.thy ===== *)
theory Protocol
  imports Delivery FragRecovery RecoveryBook
begin

text \<open>
  What a node does with an inbound datagram before it reaches the store: the common admission gate
  (\<open>src/replica/inbound.rs\<close>), the application frame gate (\<open>src/framing.rs\<close>), the message stream codec
  (\<open>gossip/src/bincode.rs\<close>) and the sorting of decoded messages (\<open>src/replica/dispatch.rs\<close>,
  \<open>decode_datagram\<close>), with the message type of \<open>src/replica.rs\<close>. Metrics and log lines are left out.
  The serializer is third-party code: \<open>enc\<close> and \<open>dec\<close> are parameters, and so are the range
  aggregates of the comparison protocol and the entry types.
\<close>

section \<open>Messages\<close>

definition BUFFER_SIZE :: nat where "BUFFER_SIZE = 65507"
definition MAX_MESSAGES_PER_DATAGRAM :: nat where "MAX_MESSAGES_PER_DATAGRAM = BUFFER_SIZE"

datatype ('agg, 'k, 'v, 's) Message =
    EntryFingerprint 'agg
  | EntryUpdate 'k 'v
  | TombstoneAck 'k "64 word"
  | StateFingerprint 'agg
  | StateUpdate 'k 's
  | ConvergenceAck
  | Reserved6 bytes

section \<open>The stream codec\<close>

text \<open>One deserialization: a value and the rest of the input, the end of the input inside a value
  (or before one), or an error.\<close>

datatype 'm decoded = Value 'm bytes | UnexpectedEof | Malformed

fun decode_stream :: "(bytes \<Rightarrow> 'm decoded) \<Rightarrow> nat \<Rightarrow> bytes \<Rightarrow> unit + 'm list" where
  "decode_stream dec 0 bs = Inr []"
| "decode_stream dec (Suc max_items) bs =
    (case dec bs of
       Value m rest \<Rightarrow> map_sum id ((#) m) (decode_stream dec max_items rest)
     | UnexpectedEof \<Rightarrow> Inr []
     | Malformed \<Rightarrow> Inl ())"

section \<open>Admission\<close>

text \<open>\<open>PeerCap\<close> is the number it wraps.\<close>

definition admits :: "nat \<Rightarrow> bool \<Rightarrow> nat \<Rightarrow> bool" where
  "admits cap known current_len \<longleftrightarrow> known \<or> current_len < cap"

datatype InboundRejection =
    Authentication
  | Version byte
  | PeerCap nat nat
  | Replayed Seq Stamp

definition admit_inbound ::
  "Crypto \<Rightarrow> Authenticator \<Rightarrow> 'k ReplayFilter \<Rightarrow> nat \<Rightarrow> 'k \<Rightarrow> bytes \<Rightarrow> bool \<times> nat \<Rightarrow> Stamp \<Rightarrow>
    (InboundRejection + Payload) \<times> 'k ReplayFilter" where
  "admit_inbound c a f cap sender datagram peer_state now =
    (case open_datagram c a datagram of
       None \<Rightarrow> (Inl Authentication, f)
     | Some p \<Rightarrow>
        (case check_version p of
           Inl v \<Rightarrow> (Inl (Version v), f)
         | Inr payload \<Rightarrow>
            let (known, current_len) = peer_state
            in if \<not> admits cap known current_len then (Inl (PeerCap current_len cap), f)
               else case verify_replay f payload sender now of
                 (None, f') \<Rightarrow> (Inl (Replayed (pl_seq payload) (pl_stamp payload)), f')
               | (Some verified, f') \<Rightarrow> (Inr verified, f')))"

section \<open>Application frames\<close>

datatype FrameEvent =
    EvLogical bytes "transfer_id option"
  | EvRequestMissing transfer_id "byte_range list"
  | EvMissing transfer_id "byte_range list"
  | EvCompleteAck transfer_id
  | EvPending

definition pending_fragment_event ::
  "'p Reassembler \<Rightarrow> 'p \<Rightarrow> FragmentMetadata option \<Rightarrow> nat \<Rightarrow> instant \<Rightarrow> FrameEvent \<times> 'p Reassembler" where
  "pending_fragment_event r peer fragment max_missing_ranges now =
    (case fragment of
       None \<Rightarrow> (EvPending, r)
     | Some metadata \<Rightarrow>
        if \<not> is_terminal metadata then (EvPending, r)
        else let (ranges, r') = missing_ranges_if_due r peer (fm_transfer_id metadata) now (from_secs 3) max_missing_ranges
             in (if ranges = [] then EvPending else EvRequestMissing (fm_transfer_id metadata) ranges, r'))"

text \<open>The two clock reads are \<open>now\<close> and \<open>now'\<close>.\<close>

definition accept_frame ::
  "(bytes \<Rightarrow> 32 arr) \<Rightarrow> 'p::linorder Reassembler \<Rightarrow> 'p \<Rightarrow> Payload \<Rightarrow> nat \<Rightarrow> instant \<Rightarrow> instant \<Rightarrow>
    FrameEvent \<times> 'p Reassembler" where
  "accept_frame hash r peer payload max_missing_ranges now now' =
    (case parse_recovery_control (pl_bytes payload) max_missing_ranges of
       Inr (Some (Missing tid ranges)) \<Rightarrow> (EvMissing tid ranges, r)
     | Inr (Some (CompleteAck tid)) \<Rightarrow> (EvCompleteAck tid, r)
     | Inl _ \<Rightarrow> (EvPending, r)
     | Inr None \<Rightarrow>
        let fragment = fragment_metadata (pl_bytes payload);
            (report, r') = reasm_accept hash r peer payload now
        in case outcome report of
             Inr (Complete bs) \<Rightarrow> (EvLogical bs (map_option fm_transfer_id fragment), r')
           | Inr Pending \<Rightarrow> pending_fragment_event r' peer fragment max_missing_ranges now'
           | Inr Duplicate \<Rightarrow> pending_fragment_event r' peer fragment max_missing_ranges now'
           | Inl _ \<Rightarrow> (EvPending, r'))"

definition expire_reassembly :: "'p::linorder Reassembler \<Rightarrow> instant \<Rightarrow> 'p Reassembler" where
  "expire_reassembly r now = snd (expire r now)"

section \<open>Decoded datagrams\<close>

record ('agg, 'k, 'v) DecodedDatagram =
  dated_ranges :: "'agg list"
  dated_updates :: "('k \<times> 'v) list"
  tombstone_acks :: "('k \<times> 64 word) list"
  saw_convergence_ack :: bool
  selective_recovery_capability :: bool
  value_ranges :: "'agg list"

definition empty_batch :: "('agg, 'k, 'v) DecodedDatagram" where
  "empty_batch = \<lparr>dated_ranges = [], dated_updates = [], tombstone_acks = [], saw_convergence_ack = False,
    selective_recovery_capability = False, value_ranges = []\<rparr>"

definition spoke_dated :: "('agg, 'k, 'v) DecodedDatagram \<Rightarrow> bool" where
  "spoke_dated b \<longleftrightarrow> dated_ranges b \<noteq> [] \<or> dated_updates b \<noteq> [] \<or> tombstone_acks b \<noteq> [] \<or> saw_convergence_ack b"

fun sort_message :: "('agg, 'k, 'v) DecodedDatagram \<Rightarrow> ('agg, 'k, 'v, 's) Message \<Rightarrow> ('agg, 'k, 'v) DecodedDatagram" where
  "sort_message b (EntryFingerprint seg) = b\<lparr>dated_ranges := dated_ranges b @ [seg]\<rparr>"
| "sort_message b (EntryUpdate k v) = b\<lparr>dated_updates := dated_updates b @ [(k, v)]\<rparr>"
| "sort_message b (TombstoneAck k ver) = b\<lparr>tombstone_acks := tombstone_acks b @ [(k, ver)]\<rparr>"
| "sort_message b (StateFingerprint seg) = b\<lparr>value_ranges := value_ranges b @ [seg]\<rparr>"
| "sort_message b (StateUpdate k s) = b"
| "sort_message b ConvergenceAck = b\<lparr>saw_convergence_ack := True\<rparr>"
| "sort_message b (Reserved6 p) =
    (if is_selective_recovery_capability p then b\<lparr>selective_recovery_capability := True\<rparr> else b)"

definition decode_datagram ::
  "(bytes \<Rightarrow> ('agg, 'k, 'v, 's) Message decoded) \<Rightarrow> bytes \<Rightarrow> ('agg, 'k, 'v) DecodedDatagram option" where
  "decode_datagram dec payload =
    (case decode_stream dec MAX_MESSAGES_PER_DATAGRAM payload of
       Inl _ \<Rightarrow> None
     | Inr messages \<Rightarrow> Some (foldl sort_message empty_batch messages))"

definition comparison_fingerprint :: "(bytes \<Rightarrow> 32 arr) \<Rightarrow> ('agg list \<Rightarrow> bytes) \<Rightarrow> 'agg list \<Rightarrow> 32 arr" where
  "comparison_fingerprint hash serialize ranges = hash (serialize ranges)"

section \<open>The codec\<close>

text \<open>What the sources rely on of the serializer: a value is read back with the bytes after it
  untouched, and an empty input is an end of input.\<close>

definition codec_ok :: "('m \<Rightarrow> bytes) \<Rightarrow> (bytes \<Rightarrow> 'm decoded) \<Rightarrow> bool" where
  "codec_ok enc dec \<longleftrightarrow> (\<forall>m rest. dec (enc m @ rest) = Value m rest) \<and> dec [] = UnexpectedEof"

lemma decode_stream_append:
  assumes "codec_ok enc dec"
  shows "decode_stream dec (length ms + n) (concat (map enc ms) @ rest) = map_sum id ((@) ms) (decode_stream dec n rest)"
  using assms
proof (induction ms)
  case Nil
  show ?case by (cases "decode_stream dec n rest") auto
next
  case (Cons m ms)
  then show ?case by (cases "decode_stream dec n rest") (auto simp: codec_ok_def)
qed

lemma codec_nonempty: "codec_ok enc dec \<Longrightarrow> enc m \<noteq> []"
  unfolding codec_ok_def by (metis append.left_neutral decoded.distinct(1))

lemma decode_stream_mono:
  assumes "codec_ok enc dec" "length ms \<le> n"
  shows "decode_stream dec n (concat (map enc ms)) = Inr ms"
proof -
  obtain k where n: "n = length ms + k" using assms(2) le_Suc_ex by blast
  have "decode_stream dec k [] = Inr []" using assms(1) by (cases k) (auto simp: codec_ok_def)
  then show ?thesis using decode_stream_append [OF assms(1), of ms k "[]"] by (simp add: n)
qed

lemma length_concat_enc: "codec_ok enc dec \<Longrightarrow> length ms \<le> length (concat (map enc ms))"
proof (induction ms)
  case (Cons m ms)
  then show ?case using codec_nonempty [OF Cons.prems, of m] by (cases "enc m") auto
qed simp

text \<open>A codec that satisfies the hypothesis, for messages over one key and one value.\<close>

type_synonym demo_message = "(unit, unit, unit, unit) Message"

fun demo_enc :: "demo_message \<Rightarrow> bytes" where
  "demo_enc (EntryFingerprint _) = [0]"
| "demo_enc (EntryUpdate _ _) = [1]"
| "demo_enc (TombstoneAck _ v) = 2 # u64_to_le v"
| "demo_enc (StateFingerprint _) = [3]"
| "demo_enc (StateUpdate _ _) = [4]"
| "demo_enc ConvergenceAck = [5]"
| "demo_enc (Reserved6 p) = 6 # replicate (length p) 1 @ [0] @ p"

definition demo_reserved :: "bytes \<Rightarrow> demo_message decoded" where
  "demo_reserved bs =
    (let n = length (takeWhile (\<lambda>b. b = 1) bs); rest = drop (n + 1) bs
     in if length rest < n then UnexpectedEof else Value (Reserved6 (take n rest)) (drop n rest))"

definition demo_dec :: "bytes \<Rightarrow> demo_message decoded" where
  "demo_dec bs =
    (case bs of
       [] \<Rightarrow> UnexpectedEof
     | b # r \<Rightarrow>
        if b = 0 then Value (EntryFingerprint ()) r
        else if b = 1 then Value (EntryUpdate () ()) r
        else if b = 2 then (if length r < 8 then UnexpectedEof else Value (TombstoneAck () (u64_of_le (take 8 r))) (drop 8 r))
        else if b = 3 then Value (StateFingerprint ()) r
        else if b = 4 then Value (StateUpdate () ()) r
        else if b = 5 then Value ConvergenceAck r
        else if b = 6 then demo_reserved r else Malformed)"

lemma takeWhile_replicate_stop: "takeWhile (\<lambda>b. b = x) (replicate n x @ y # ys) = (if y = x then replicate n x @ x # takeWhile (\<lambda>b. b = x) ys else replicate n x)"
  by (induction n) auto

lemma demo_codec_ok: "codec_ok demo_enc demo_dec"
  unfolding codec_ok_def
proof (intro conjI allI)
  fix m :: demo_message and rest
  show "demo_dec (demo_enc m @ rest) = Value m rest"
    by (cases m) (simp_all add: demo_dec_def demo_reserved_def takeWhile_replicate_stop Let_def)
qed (simp add: demo_dec_def)

section \<open>Reassembly stays bounded\<close>

lemma missing_ranges_if_due_ok:
  assumes "missing_ranges_if_due r p tid now d n = (rs, r')" "reasm_ok r"
  shows "reasm_ok r' \<and> limits r' = limits r"
  using assms set_missing_request_ok [OF assms(2)]
  by (auto simp: missing_ranges_if_due_def Let_def split: if_splits option.splits)

lemma pending_fragment_event_ok:
  assumes "pending_fragment_event r p fr n now = (ev, r')" "reasm_ok r"
  shows "reasm_ok r' \<and> limits r' = limits r"
  using assms missing_ranges_if_due_ok [OF _ assms(2)]
  by (auto simp: pending_fragment_event_def Let_def split: option.splits if_splits prod.splits)

lemma accept_frame_ok:
  assumes "accept_frame hash r p payload n now now' = (ev, r')" "reasm_ok r"
  shows "reasm_ok r' \<and> limits r' = limits r"
proof -
  obtain rep r1 where acc: "reasm_accept hash r p payload now = (rep, r1)" by fastforce
  note ok = reasm_accept_ok [OF assms(2) acc]
  have "r' = r \<or> r' = r1 \<or> (\<exists>fr. pending_fragment_event r1 p fr n now' = (ev, r'))"
    using assms(1) unfolding accept_frame_def acc
    by (auto simp: Let_def split: sum.splits option.splits RecoveryControl.splits ReceiveOutcome.splits)
  then show ?thesis using assms(2) ok pending_fragment_event_ok [of r1 p _ n now' ev r'] by auto
qed

text \<open>Everything that touches the reassembler of a running node: inbound frames, the expiry tick
  and the idle poll.\<close>

datatype 'p ingress =
    InFrame 'p Payload instant instant
  | InExpire instant
  | InPoll instant duration duration nat nat

fun ingress_step :: "(bytes \<Rightarrow> 32 arr) \<Rightarrow> nat \<Rightarrow> 'p::linorder Reassembler \<Rightarrow> 'p ingress \<Rightarrow> 'p Reassembler" where
  "ingress_step hash n r (InFrame p payload now now') = snd (accept_frame hash r p payload n now now')"
| "ingress_step hash n r (InExpire now) = expire_reassembly r now"
| "ingress_step hash n r (InPoll now idle retry k m) = snd (poll_idle_missing r now idle retry k m)"

lemma ingress_step_ok:
  assumes "reasm_ok r"
  shows "reasm_ok (ingress_step hash n r e) \<and> limits (ingress_step hash n r e) = limits r"
proof (cases e)
  case (InFrame p payload now now')
  then show ?thesis using accept_frame_ok [OF prod.collapse [symmetric] assms, of hash p payload n now now'] by simp
next
  case (InExpire now)
  then show ?thesis using expire_ok [OF assms prod.collapse [symmetric]] by (simp add: expire_reassembly_def)
next
  case (InPoll now idle retry k m)
  then show ?thesis using poll_ok [OF prod.collapse [symmetric] assms, of now idle retry k m] by simp
qed

lemma ingress_run_ok:
  "reasm_ok r \<Longrightarrow> reasm_ok (foldl (ingress_step hash n) r es) \<and> limits (foldl (ingress_step hash n) r es) = limits r"
  by (induction es arbitrary: r) (auto simp: ingress_step_ok)

section \<open>Properties\<close>

text \<open>A batch of messages within the item cap is decoded to itself, whatever the messages.\<close>

theorem decode_stream_roundtrip:
  assumes "codec_ok enc dec" "length ms \<le> n"
  shows "decode_stream dec n (concat (map enc ms)) = Inr ms"
  using assms by (rule decode_stream_mono)

theorem decode_stream_roundtrip_witness:
  "decode_stream demo_dec 5 (concat (map demo_enc [ConvergenceAck, Reserved6 [9, 9]])) = Inr [ConvergenceAck, Reserved6 [9, 9]]"
  by (rule decode_stream_roundtrip [OF demo_codec_ok]) simp

text \<open>A datagram cut inside its last message is not rejected: the messages before the cut are
  returned as if the sender had sent only those, while a datagram with a malformed message is
  rejected as a whole.\<close>

theorem decode_stream_truncated_and_malformed:
  assumes "codec_ok enc dec" "length ms < n"
  shows "(dec rest = UnexpectedEof \<longrightarrow> decode_stream dec n (concat (map enc ms) @ rest) = Inr ms) \<and>
    (dec rest = Malformed \<longrightarrow> decode_stream dec n (concat (map enc ms) @ rest) = Inl ())"
proof -
  obtain k where n: "n = length ms + Suc k" using assms(2) less_iff_Suc_add by auto
  show ?thesis using decode_stream_append [OF assms(1), of ms "Suc k" rest] by (auto simp: n)
qed

theorem decode_stream_truncated_and_malformed_witness:
  "decode_stream demo_dec 5 (concat (map demo_enc [ConvergenceAck]) @ [2, 0, 0]) = Inr [ConvergenceAck] \<and>
   decode_stream demo_dec 5 (concat (map demo_enc [ConvergenceAck]) @ [7]) = Inl ()"
  using decode_stream_truncated_and_malformed [OF demo_codec_ok, of "[ConvergenceAck]" 5 "[2, 0, 0]"]
    decode_stream_truncated_and_malformed [OF demo_codec_ok, of "[ConvergenceAck]" 5 "[7]"]
  by (simp add: demo_dec_def)

text \<open>C32: the gate admits exactly the datagrams that open, carry the wire version, come from a known
  peer or find room for a new one, and pass the replay filter; a datagram refused before the
  replay check leaves the filter as it was.\<close>

theorem admit_inbound_exact:
  "(fst (admit_inbound c a f cap sender d (known, len) now) = Inr q \<longleftrightarrow>
     (\<exists>p. open_datagram c a d = Some p \<and> check_version p = Inr q) \<and> (known \<or> len < cap) \<and>
     fst (check_and_record f sender (pl_seq q) (pl_stamp q) now)) \<and>
   (snd (admit_inbound c a f cap sender d (known, len) now) = f \<or>
     (\<exists>q. snd (admit_inbound c a f cap sender d (known, len) now) =
        snd (check_and_record f sender (pl_seq q) (pl_stamp q) now) \<and>
        (\<exists>p. open_datagram c a d = Some p \<and> check_version p = Inr q) \<and> (known \<or> len < cap)))"
proof (cases "\<exists>p q. open_datagram c a d = Some p \<and> check_version p = Inr q \<and> (known \<or> len < cap)")
  case True
  then obtain p q' where "open_datagram c a d = Some p" "check_version p = Inr q'" "known \<or> len < cap" by blast
  then show ?thesis
    by (auto simp: admit_inbound_def admits_def verify_replay_def Let_def split: prod.splits if_splits)
next
  case False
  then show ?thesis by (auto simp: admit_inbound_def admits_def split: option.splits sum.splits)
qed

text \<open>C33: whatever frames, expiry ticks and idle polls reach it in whatever order, the reassembler
  of a running node stays within its per-peer and global byte and transfer bounds.\<close>

theorem ingress_bounded:
  assumes "budgets_finite lim" "r = foldl (ingress_step hash n) (for_identity lim) es"
  shows "total_retained_bytes r \<le> max_total_reassembly_bytes lim \<and> peer_bytes r p \<le> max_reassembly_bytes_per_peer lim \<and>
    peer_transfer_count r p \<le> max_incomplete_transfers_per_peer lim"
  using reasm_bounds(1) [of r p] reasm_bounds(2) [of r p] reasm_bounds(3) [of r] ingress_run_ok [OF reasm_ok_init [OF assms(1)], of hash n es] assms(2)
  by (simp add: for_identity_def)

theorem ingress_bounded_witness:
  "total_retained_bytes (foldl (ingress_step (\<lambda>m. arr_zero) 4) (for_identity demo_limits)
     [InFrame (1 :: nat) (frame_payload [7]) 0 0, InExpire 3, InPoll 4 1 2 3 4]) \<le> 8"
proof -
  have "budgets_finite demo_limits" "max_total_reassembly_bytes demo_limits = 8"
    by (simp_all add: budgets_finite_def demo_limits_def usize_max_def)
  then show ?thesis using ingress_bounded [OF _ refl, THEN conjunct1] by metis
qed

end
