(* ===== verification/Sending.thy ===== *)
theory Sending
  imports Protocol
begin

text \<open>
  The outbound path (\<open>src/replica/framed_send.rs\<close> and \<open>src/replica/recovery_send.rs\<close>): packing of
  encoded messages into logical payloads, complete and fragmented frames, sealing, the retry loop
  around the transport, retention for selective recovery and retransmission of missing ranges.
  The transport, the clocks and the nonces are the environment of a send and are parameters; the
  pacing delays, which only sleep, and the metrics are left out.
\<close>

section \<open>Ports and state\<close>

definition MAX_SENDTO_RETRIES :: nat where "MAX_SENDTO_RETRIES = 4"

text \<open>The environment answers the \<open>k\<close>-th transport call, the \<open>k\<close>-th wall-clock read and nonce of a
  sealed datagram, and the monotonic clock between calls.\<close>

record 'p SendEnv =
  se_crypto :: Crypto
  se_hash :: "bytes \<Rightarrow> 32 arr"
  se_nonce :: "nat \<Rightarrow> 24 arr"
  se_clock_ms :: "nat \<Rightarrow> 64 word"
  se_instant :: "nat \<Rightarrow> instant"
  se_transport :: "nat \<Rightarrow> bytes \<Rightarrow> 'p \<Rightarrow> nat option"

record SendPorts =
  sp_authenticator :: Authenticator
  sp_framing :: FramingConfig

record 'p SendState =
  sender_counter :: SenderCounter
  recovery :: "'p RecoveryBook"
  sealed_count :: nat
  send_calls :: nat
  wire_log :: "('p \<times> bytes) list"

section \<open>One datagram\<close>

fun send_attempts ::
  "'p SendEnv \<Rightarrow> nat \<Rightarrow> bytes \<Rightarrow> 'p \<Rightarrow> unit + nat \<Rightarrow> 'p SendState \<Rightarrow> (unit + nat) \<times> 'p SendState" where
  "send_attempts env 0 wire target result st = (result, st)"
| "send_attempts env (Suc n) wire target result st =
    (case se_transport env (send_calls st) wire target of
       Some sent \<Rightarrow> (Inr sent, st\<lparr>send_calls := send_calls st + 1, wire_log := wire_log st @ [(target, wire)]\<rparr>)
     | None \<Rightarrow> send_attempts env n wire target (Inl ()) (st\<lparr>send_calls := send_calls st + 1\<rparr>))"

definition send_frame_to_retry ::
  "'p SendEnv \<Rightarrow> Authenticator \<Rightarrow> bytes \<Rightarrow> 'p \<Rightarrow> 'p SendState \<Rightarrow> (unit + nat) \<times> 'p SendState" where
  "send_frame_to_retry env a frame target st =
    (let (seq, c1) = next_seq (sender_counter st);
         (stamp, c2) = next_stamp_at c1 (se_clock_ms env (sealed_count st));
         wire = seal (se_crypto env) (se_nonce env (sealed_count st)) a seq stamp frame
     in send_attempts env MAX_SENDTO_RETRIES wire target (Inr 0)
          (st\<lparr>sender_counter := c2, sealed_count := sealed_count st + 1\<rparr>))"

section \<open>One logical payload\<close>

definition capacities :: "Authenticator \<Rightarrow> FramingConfig \<Rightarrow> (nat \<times> nat) option" where
  "capacities a cfg =
    (case complete_payload_capacity (datagram_payload_budget cfg) (overhead a) of
       None \<Rightarrow> None
     | Some complete \<Rightarrow>
        (case fragment_payload_capacity (datagram_payload_budget cfg) (overhead a) of
           None \<Rightarrow> None
         | Some fragment \<Rightarrow> Some (min complete (max_logical_message_size cfg), fragment)))"

definition chunks :: "nat \<Rightarrow> bytes \<Rightarrow> bytes list" where
  "chunks cap m = map (chunk cap m) [0..<chunk_count cap m]"

fun send_fragments ::
  "'p SendEnv \<Rightarrow> SendPorts \<Rightarrow> 'p \<Rightarrow> transfer_id \<Rightarrow> nat \<Rightarrow> nat \<Rightarrow> nat \<Rightarrow> bytes list \<Rightarrow> nat \<Rightarrow> 'p SendState \<Rightarrow> nat \<times> 'p SendState" where
  "send_fragments env ports peer tid len cap index [] sent_bytes st = (sent_bytes, st)"
| "send_fragments env ports peer tid len cap index (c # cs) sent_bytes st =
    (let frame = projr (write_fragment tid len (index * cap) c);
         (res, st') = send_frame_to_retry env (sp_authenticator ports) frame peer st;
         sent_bytes' = (case res of Inr sent \<Rightarrow> sat_add sent_bytes sent | Inl _ \<Rightarrow> sent_bytes)
     in send_fragments env ports peer tid len cap (index + 1) cs sent_bytes' st')"

definition retain_for_recovery ::
  "'p::linorder SendEnv \<Rightarrow> FramingConfig \<Rightarrow> 'p \<Rightarrow> transfer_id \<Rightarrow> bytes \<Rightarrow> 'p SendState \<Rightarrow> RetainReport option \<times> 'p SendState" where
  "retain_for_recovery env cfg peer tid payload st =
    (let now = se_instant env (send_calls st);
         (ok, b) = supports peer now cfg (recovery st)
     in if ok then let (rep, b') = retain peer tid payload now cfg b in (Some rep, st\<lparr>recovery := b'\<rparr>)
        else (None, st\<lparr>recovery := b\<rparr>))"

definition send_fragmented ::
  "'p::linorder SendEnv \<Rightarrow> SendPorts \<Rightarrow> 'p \<Rightarrow> bytes \<Rightarrow> nat \<Rightarrow> 'p SendState \<Rightarrow> (unit + nat) \<times> 'p SendState" where
  "send_fragmented env ports peer payload cap st =
    (let tid = transfer_id (se_hash env) payload;
         (report, st1) = retain_for_recovery env (sp_framing ports) peer tid payload st
     in if (case report of Some rep \<Rightarrow> retained rep \<and> skip_full_send rep | None \<Rightarrow> False) then (Inr 0, st1)
        else let (sent_bytes, st2) = send_fragments env ports peer tid (length payload) cap 0 (chunks cap payload) 0 st1
             in (Inr sent_bytes, st2))"

definition send_logical_payload ::
  "'p::linorder SendEnv \<Rightarrow> SendPorts \<Rightarrow> 'p \<Rightarrow> bytes \<Rightarrow> 'p SendState \<Rightarrow> (unit + nat) \<times> 'p SendState" where
  "send_logical_payload env ports peer payload st =
    (case capacities (sp_authenticator ports) (sp_framing ports) of
       None \<Rightarrow> (Inr 0, st)
     | Some (complete_capacity, fragment_capacity) \<Rightarrow>
        if max_logical_message_size (sp_framing ports) < length payload then (Inr 0, st)
        else if length payload \<le> complete_capacity
        then send_frame_to_retry env (sp_authenticator ports) (write_complete payload) peer st
        else if fragment_capacity = 0 then (Inr 0, st)
        else if max_fragments_per_message (sp_framing ports) < chunk_count fragment_capacity payload then (Inr 0, st)
        else send_fragmented env ports peer payload fragment_capacity st)"

section \<open>Batches of messages\<close>

definition append_capability :: "(('agg, 'k, 'v, 's) Message \<Rightarrow> bytes) \<Rightarrow> FramingConfig \<Rightarrow> bytes \<Rightarrow> bytes" where
  "append_capability enc cfg out =
    (if selective_recovery cfg then out @ enc (Reserved6 SELECTIVE_RECOVERY_CAPABILITY) else out)"

definition send_to_retry ::
  "'p::linorder SendEnv \<Rightarrow> SendPorts \<Rightarrow> 'p \<Rightarrow> bytes \<Rightarrow> 'p SendState \<Rightarrow> (unit + nat) \<times> 'p SendState" where
  "send_to_retry env ports target payload st =
    (let (res, st') = send_logical_payload env ports target payload (st\<lparr>recovery := book_for_identity\<rparr>)
     in (res, st'\<lparr>recovery := recovery st\<rparr>))"

text \<open>The loop over the messages; it returns the unsent rest of the buffer.\<close>

fun paced_loop ::
  "'p::linorder SendEnv \<Rightarrow> SendPorts \<Rightarrow> 'p \<Rightarrow> ('m \<Rightarrow> bytes) \<Rightarrow> nat \<Rightarrow> 'm list \<Rightarrow> bytes \<Rightarrow> 'p SendState \<Rightarrow> bytes \<times> 'p SendState" where
  "paced_loop env ports peer enc cap [] buf st = (buf, st)"
| "paced_loop env ports peer enc cap (m # ms) buf st =
    (let batch_len = length buf; buf' = buf @ enc m; message_len = length buf' - batch_len
     in if length buf' \<le> cap then paced_loop env ports peer enc cap ms buf' st
        else let st1 = (if 0 < batch_len then snd (send_logical_payload env ports peer (take batch_len buf') st) else st);
                 encoded_message = drop batch_len buf'
             in if message_len \<le> cap then paced_loop env ports peer enc cap ms encoded_message st1
                else paced_loop env ports peer enc cap ms [] (snd (send_logical_payload env ports peer encoded_message st1)))"

definition send_messages_paced ::
  "'p::linorder SendEnv \<Rightarrow> SendPorts \<Rightarrow> 'p \<Rightarrow> (('agg, 'k, 'v, 's) Message \<Rightarrow> bytes) \<Rightarrow> ('agg, 'k, 'v, 's) Message list \<Rightarrow>
    'p SendState \<Rightarrow> 'p SendState" where
  "send_messages_paced env ports peer enc ms st =
    (case capacities (sp_authenticator ports) (sp_framing ports) of
       None \<Rightarrow> st
     | Some (cap, _) \<Rightarrow>
        let (buf, st') = paced_loop env ports peer enc cap ms (append_capability enc (sp_framing ports) []) st
        in if buf \<noteq> [] then snd (send_logical_payload env ports peer buf st') else st')"

definition send_messages_to ::
  "'p::linorder SendEnv \<Rightarrow> SendPorts \<Rightarrow> 'p \<Rightarrow> (('agg, 'k, 'v, 's) Message \<Rightarrow> bytes) \<Rightarrow> ('agg, 'k, 'v, 's) Message list \<Rightarrow>
    'p SendState \<Rightarrow> 'p SendState" where
  "send_messages_to env ports peer enc ms st = send_messages_paced env ports peer enc ms st"

definition send_control_batch_to ::
  "'p::linorder SendEnv \<Rightarrow> SendPorts \<Rightarrow> 'p \<Rightarrow> (('agg, 'k, 'v, 's) Message \<Rightarrow> bytes) \<Rightarrow> ('agg, 'k, 'v, 's) Message list \<Rightarrow>
    'p SendState \<Rightarrow> 'p SendState" where
  "send_control_batch_to env ports peer enc ms st =
    (let buf = append_capability enc (sp_framing ports) [] @ concat (map enc ms)
     in if buf = [] then st else snd (send_logical_payload env ports peer buf st))"

section \<open>Selective recovery\<close>

definition send_recovery_control_to ::
  "'p SendEnv \<Rightarrow> SendPorts \<Rightarrow> 'p \<Rightarrow> bytes \<Rightarrow> 'p SendState \<Rightarrow> (unit + nat) \<times> 'p SendState" where
  "send_recovery_control_to env ports peer frame st = send_frame_to_retry env (sp_authenticator ports) frame peer st"

fun report_valid :: "nat \<Rightarrow> nat \<Rightarrow> byte_range list \<Rightarrow> bool" where
  "report_valid len previous_end [] \<longleftrightarrow> True"
| "report_valid len previous_end ((start, n) # rs) \<longleftrightarrow>
    (case checked_add start n of
       None \<Rightarrow> False
     | Some stop \<Rightarrow> \<not> (n = 0 \<or> len < stop \<or> start < previous_end) \<and> report_valid len stop rs)"

text \<open>The frames of one range, in order; sending stops at the first failure.\<close>

fun retransmit_chunks ::
  "'p SendEnv \<Rightarrow> SendPorts \<Rightarrow> 'p \<Rightarrow> transfer_id \<Rightarrow> nat \<Rightarrow> nat \<Rightarrow> nat \<Rightarrow> nat \<Rightarrow> bytes list \<Rightarrow> 'p SendState \<Rightarrow> bool \<times> 'p SendState" where
  "retransmit_chunks env ports peer tid len cap start relative [] st = (True, st)"
| "retransmit_chunks env ports peer tid len cap start relative (c # cs) st =
    (case write_fragment tid len (start + relative * cap) c of
       Inl _ \<Rightarrow> (False, st)
     | Inr frame \<Rightarrow>
        (case send_frame_to_retry env (sp_authenticator ports) frame peer st of
           (Inl _, st') \<Rightarrow> (False, st')
         | (Inr _, st') \<Rightarrow> retransmit_chunks env ports peer tid len cap start (relative + 1) cs st'))"

fun retransmit_ranges ::
  "'p SendEnv \<Rightarrow> SendPorts \<Rightarrow> 'p \<Rightarrow> transfer_id \<Rightarrow> bytes \<Rightarrow> nat \<Rightarrow> byte_range list \<Rightarrow> 'p SendState \<Rightarrow> bool \<times> 'p SendState" where
  "retransmit_ranges env ports peer tid payload cap [] st = (True, st)"
| "retransmit_ranges env ports peer tid payload cap ((start, n) # rs) st =
    (case retransmit_chunks env ports peer tid (length payload) cap start 0 (chunks cap (take n (drop start payload))) st of
       (False, st') \<Rightarrow> (False, st')
     | (True, st') \<Rightarrow> retransmit_ranges env ports peer tid payload cap rs st')"

definition retransmit_missing_to ::
  "'p SendEnv \<Rightarrow> SendPorts \<Rightarrow> 'p \<Rightarrow> transfer_id \<Rightarrow> byte_range list \<Rightarrow> 'p SendState \<Rightarrow> bool \<times> 'p SendState" where
  "retransmit_missing_to env ports peer tid ranges st =
    (if \<not> selective_recovery (sp_framing ports) then (False, st)
     else let now = se_instant env (send_calls st);
              (ok, b) = supports peer now (sp_framing ports) (recovery st);
              (rp, b') = (if ok then payload_for_report peer tid now (sp_framing ports) b else (None, b));
              st1 = st\<lparr>recovery := b'\<rparr>
          in case rp of
               None \<Rightarrow> (False, st1)
             | Some granted \<Rightarrow>
                let cap = (case fragment_payload_capacity (datagram_payload_budget (sp_framing ports)) (overhead (sp_authenticator ports)) of
                             None \<Rightarrow> 0 | Some n \<Rightarrow> n)
                in if cap = 0 \<or> \<not> report_valid (length (rp_payload granted)) 0 ranges then (False, st1)
                   else case retransmit_ranges env ports peer tid (rp_payload granted) cap ranges st1 of
                     (False, st2) \<Rightarrow> (False, st2)
                   | (True, st2) \<Rightarrow>
                      (True, if exhausted_after_this_round granted
                             then st2\<lparr>recovery := snd (book_forget peer tid (recovery st2))\<rparr> else st2))"

definition complete_recovery :: "'p \<Rightarrow> transfer_id \<Rightarrow> 'p SendState \<Rightarrow> 'p SendState" where
  "complete_recovery peer tid st = st\<lparr>recovery := snd (book_complete peer tid (recovery st))\<rparr>"

definition expire_recovery_state :: "'p SendEnv \<Rightarrow> SendPorts \<Rightarrow> 'p SendState \<Rightarrow> 'p SendState" where
  "expire_recovery_state env ports st =
    st\<lparr>recovery := snd (book_expire (se_instant env (send_calls st)) (sp_framing ports) (recovery st))\<rparr>"

fun request_missing ::
  "'p SendEnv \<Rightarrow> SendPorts \<Rightarrow> 'p MissingRequest list \<Rightarrow> 'p SendState \<Rightarrow> 'p SendState" where
  "request_missing env ports [] st = st"
| "request_missing env ports (q # qs) st =
    (let (ok, b) = supports (mr_peer q) (se_instant env (send_calls st)) (sp_framing ports) (recovery st);
         st1 = st\<lparr>recovery := b\<rparr>
     in if \<not> ok then request_missing env ports qs st1
        else case write_missing_report (mr_transfer_id q) (mr_ranges q) of
          Inl _ \<Rightarrow> request_missing env ports qs st1
        | Inr frame \<Rightarrow> request_missing env ports qs (snd (send_recovery_control_to env ports (mr_peer q) frame st1)))"

definition retry_idle_incomplete ::
  "'p::linorder SendEnv \<Rightarrow> SendPorts \<Rightarrow> instant \<Rightarrow> instant \<Rightarrow> 'p Reassembler \<Rightarrow> 'p SendState \<Rightarrow> 'p Reassembler \<times> 'p SendState" where
  "retry_idle_incomplete env ports now now' r st =
    (if \<not> selective_recovery (sp_framing ports) then (r, st)
     else let limit = max_missing_ranges_for_budget (datagram_payload_budget (sp_framing ports))
                        (overhead (sp_authenticator ports)) (max_missing_ranges_per_report (sp_framing ports));
              (requests, r') = poll_idle_missing (expire_reassembly r now) now' (from_secs 1) (from_secs 3) limit 32
          in (r', request_missing env ports requests st))"

section \<open>What reaches the wire\<close>

text \<open>A send appends to the log datagrams to its target only, each within a length bound.\<close>

definition appends :: "'p \<Rightarrow> nat \<Rightarrow> 'p SendState \<Rightarrow> 'p SendState \<Rightarrow> bool" where
  "appends peer n st st' \<longleftrightarrow>
    (\<exists>ds. wire_log st' = wire_log st @ map (Pair peer) ds \<and> list_all (\<lambda>d. length d \<le> n) ds)"

lemma appends_refl [simp]: "appends p n st st"
  unfolding appends_def by (rule exI [of _ "[]"]) simp

lemma appends_trans: "appends p n a b \<Longrightarrow> appends p n b c \<Longrightarrow> appends p n a c"
proof -
  assume "appends p n a b" "appends p n b c"
  then obtain ds es where "wire_log b = wire_log a @ map (Pair p) ds" "list_all (\<lambda>d. length d \<le> n) ds"
    "wire_log c = wire_log b @ map (Pair p) es" "list_all (\<lambda>d. length d \<le> n) es"
    unfolding appends_def by blast
  then show "appends p n a c" unfolding appends_def by (intro exI [of _ "ds @ es"]) simp
qed

lemma appends_recovery [simp]:
  "appends p n (st\<lparr>recovery := b\<rparr>) st' = appends p n st st'" "appends p n st (st'\<lparr>recovery := b\<rparr>) = appends p n st st'"
  by (simp_all add: appends_def)

lemma send_attempts_appends:
  assumes "length wire \<le> n"
  shows "appends target n st (snd (send_attempts env k wire target res st))"
proof (induction k arbitrary: res st)
  case (Suc k)
  show ?case
  proof (cases "se_transport env (send_calls st) wire target")
    case None
    then show ?thesis using Suc [of "st\<lparr>send_calls := send_calls st + 1\<rparr>" "Inl ()"] by (simp add: appends_def)
  next
    case (Some sent)
    then show ?thesis using assms unfolding appends_def by (intro exI [of _ "[wire]"]) simp
  qed
qed simp

definition tag_sized :: "'p SendEnv \<Rightarrow> Authenticator \<Rightarrow> bool" where
  "tag_sized env a \<longleftrightarrow> (\<forall>ks. a = Encrypted ks \<longrightarrow> aead_tag_length (se_crypto env))"

lemma send_frame_appends:
  assumes "tag_sized env a" "length frame + overhead a \<le> n"
  shows "appends target n st (snd (send_frame_to_retry env a frame target st))"
proof -
  let ?i = "sealed_count st"
  obtain seq c1 where seq: "next_seq (sender_counter st) = (seq, c1)" by fastforce
  obtain stamp c2 where stamp: "next_stamp_at c1 (se_clock_ms env ?i) = (stamp, c2)" by fastforce
  have "length (seal (se_crypto env) (se_nonce env ?i) a seq stamp frame) \<le> n"
    using assms by (subst length_seal) (auto simp: tag_sized_def)
  from send_attempts_appends [OF this, of target "st\<lparr>sender_counter := c2, sealed_count := ?i + 1\<rparr>" env MAX_SENDTO_RETRIES "Inr 0"]
  show ?thesis by (simp add: send_frame_to_retry_def seq stamp appends_def)
qed

lemma capacities_Some:
  assumes "capacities a cfg = Some (cap, fcap)"
  shows "cap + COMPLETE_HEADER_LEN + overhead a \<le> datagram_payload_budget cfg"
    "fcap + FRAGMENT_HEADER_LEN + overhead a = datagram_payload_budget cfg" "cap \<le> max_logical_message_size cfg"
  using assms
  by (auto simp: capacities_def complete_payload_capacity_def fragment_payload_capacity_def checked_sub_def
      split: option.splits if_splits)

lemma length_write_fragment: "write_fragment tid len off bs = Inr frame \<Longrightarrow> length frame = FRAGMENT_HEADER_LEN + length bs"
  by (auto simp: write_fragment_def frame_consts split: if_splits)

lemma write_fragment_ok: "len < 2 ^ 32 \<Longrightarrow> off < 2 ^ 32 \<Longrightarrow> \<exists>frame. write_fragment tid len off bs = Inr frame"
  by (simp add: write_fragment_def)

lemma send_fragments_appends:
  assumes "tag_sized env (sp_authenticator ports)" "len < 2 ^ 32"
    and "cap + FRAGMENT_HEADER_LEN + overhead (sp_authenticator ports) \<le> n"
  shows "list_all (\<lambda>c. length c \<le> cap) cs \<Longrightarrow> (cs \<noteq> [] \<longrightarrow> (index + length cs - 1) * cap < len) \<Longrightarrow>
    appends peer n st (snd (send_fragments env ports peer tid len cap index cs tot st))"
proof (induction cs arbitrary: index tot st)
  case (Cons c cs)
  have "index * cap \<le> (index + length cs) * cap" by (rule mult_le_mono1) simp
  moreover have "(index + length cs) * cap < len" using Cons.prems(2) by simp
  ultimately have off: "index * cap < 2 ^ 32" using assms(2) by (meson le_less_trans less_trans)
  obtain frame where frame: "write_fragment tid len (index * cap) c = Inr frame"
    using write_fragment_ok [OF assms(2) off] by blast
  obtain res st1 where send: "send_frame_to_retry env (sp_authenticator ports) frame peer st = (res, st1)" by fastforce
  have "appends peer n st st1"
    using send_frame_appends [OF assms(1), of frame n peer st] send length_write_fragment [OF frame] Cons.prems(1) assms(3)
    by simp
  moreover have "appends peer n st1 (snd (send_fragments env ports peer tid len cap (index + 1) cs tot' st1))" for tot'
    using Cons.prems by (intro Cons.IH) auto
  ultimately show ?case by (auto simp: frame send intro: appends_trans)
qed simp

lemma chunks_props:
  assumes "0 < cap"
  shows "list_all (\<lambda>c. length c \<le> cap) (chunks cap m)"
    "chunks cap m \<noteq> [] \<longrightarrow> (length (chunks cap m) - 1) * cap < length m" "concat (chunks cap m) = m"
proof -
  show "list_all (\<lambda>c. length c \<le> cap) (chunks cap m)" by (auto simp: chunks_def chunk_def list_all_iff)
  show "chunks cap m \<noteq> [] \<longrightarrow> (length (chunks cap m) - 1) * cap < length m"
    using chunk_nonempty [OF assms, of "chunk_count cap m - 1" m] by (auto simp: chunks_def)
  show "concat (chunks cap m) = m"
    using concat_chunks [of cap m "chunk_count cap m"] chunk_count_covers [OF assms, of m] by (simp add: chunks_def)
qed

lemma send_logical_appends:
  assumes "tag_sized env (sp_authenticator ports)" "max_logical_message_size (sp_framing ports) < 2 ^ 32"
  shows "appends peer (datagram_payload_budget (sp_framing ports)) st (snd (send_logical_payload env ports peer payload st))"
proof (cases "capacities (sp_authenticator ports) (sp_framing ports)")
  case (Some cc)
  obtain cap fcap where cc: "cc = (cap, fcap)" by (cases cc)
  note caps = capacities_Some [OF Some [unfolded cc]]
  let ?n = "datagram_payload_budget (sp_framing ports)"
  let ?tid = "transfer_id (se_hash env) payload"
  obtain rep st1 where ret: "retain_for_recovery env (sp_framing ports) peer ?tid payload st = (rep, st1)" by fastforce
  have st1: "\<exists>b. st1 = st\<lparr>recovery := b\<rparr>"
    using ret by (auto simp: retain_for_recovery_def Let_def split: prod.splits if_splits)
  have frags: "appends peer ?n st1 (snd (send_fragments env ports peer ?tid (length payload) fcap 0 (chunks fcap payload) 0 st1))"
    if "0 < fcap" "length payload < 2 ^ 32"
    using send_fragments_appends [OF assms(1) that(2), of fcap ?n "chunks fcap payload" 0] caps(2)
      chunks_props [OF that(1), of payload] by simp
  have fragmented: "appends peer ?n st (snd (send_fragmented env ports peer payload fcap st))"
    if "0 < fcap" "length payload < 2 ^ 32"
    using frags [OF that] st1 by (auto simp: send_fragmented_def ret split: prod.splits option.splits)
  have complete: "appends peer ?n st (snd (send_frame_to_retry env (sp_authenticator ports) (write_complete payload) peer st))"
    if "length payload \<le> cap"
    using send_frame_appends [OF assms(1), of "write_complete payload" ?n peer st] caps(1) that
    by (simp add: write_complete_def COMPLETE_HEADER_LEN_def)
  let ?send = "send_logical_payload env ports peer payload st"
  have "?send = (Inr 0, st) \<or>
      length payload \<le> cap \<and> ?send = send_frame_to_retry env (sp_authenticator ports) (write_complete payload) peer st \<or>
      0 < fcap \<and> length payload \<le> max_logical_message_size (sp_framing ports) \<and> ?send = send_fragmented env ports peer payload fcap st"
    unfolding send_logical_payload_def Some cc by simp
  then show ?thesis
  proof (elim disjE conjE)
    assume "?send = (Inr 0, st)"
    then show ?thesis by (metis appends_refl snd_conv)
  next
    assume "length payload \<le> cap" "?send = send_frame_to_retry env (sp_authenticator ports) (write_complete payload) peer st"
    then show ?thesis using complete by metis
  next
    assume "0 < fcap" "length payload \<le> max_logical_message_size (sp_framing ports)"
      "?send = send_fragmented env ports peer payload fcap st"
    then show ?thesis using fragmented assms(2) by (metis le_less_trans)
  qed
qed (simp add: send_logical_payload_def)

section \<open>Packing\<close>

text \<open>The payloads a batch is cut into, as a function of the encodings.\<close>

fun pack :: "nat \<Rightarrow> bytes \<Rightarrow> bytes list \<Rightarrow> bytes list" where
  "pack cap buf [] = (if buf = [] then [] else [buf])"
| "pack cap buf (e # es) =
    (if length (buf @ e) \<le> cap then pack cap (buf @ e) es
     else (if buf = [] then [] else [buf]) @ (if length e \<le> cap then pack cap e es else e # pack cap [] es))"

lemma concat_pack: "concat (pack cap buf es) = buf @ concat es"
  by (induction cap buf es rule: pack.induct) auto

lemma pack_pieces: "p \<in> set (pack cap buf es) \<Longrightarrow> p \<noteq> [] \<and> (length p \<le> cap \<or> p \<in> set es \<or> p = buf)"
  by (induction cap buf es rule: pack.induct) (auto split: if_splits)

definition send_each :: "'p::linorder SendEnv \<Rightarrow> SendPorts \<Rightarrow> 'p \<Rightarrow> bytes list \<Rightarrow> 'p SendState \<Rightarrow> 'p SendState" where
  "send_each env ports peer ps st = foldl (\<lambda>st p. snd (send_logical_payload env ports peer p st)) st ps"

lemma send_each_simps [simp]:
  "send_each env ports peer [] st = st"
  "send_each env ports peer (p # ps) st = send_each env ports peer ps (snd (send_logical_payload env ports peer p st))"
  by (simp_all add: send_each_def)

definition flush :: "'p::linorder SendEnv \<Rightarrow> SendPorts \<Rightarrow> 'p \<Rightarrow> bytes \<times> 'p SendState \<Rightarrow> 'p SendState" where
  "flush env ports peer bs =
    (if fst bs \<noteq> [] then snd (send_logical_payload env ports peer (fst bs) (snd bs)) else snd bs)"

lemma paced_loop_pack:
  "flush env ports peer (paced_loop env ports peer enc cap ms buf st) =
   send_each env ports peer (pack cap buf (map enc ms)) st"
proof (induction ms arbitrary: buf st)
  case Nil
  show ?case by (simp add: flush_def)
next
  case (Cons m ms)
  show ?case
    by (cases "buf = []"; cases "length (buf @ enc m) \<le> cap"; cases "length (enc m) \<le> cap")
      (simp_all add: Let_def Cons.IH)
qed

lemma send_messages_pack:
  "capacities (sp_authenticator ports) (sp_framing ports) = Some (cap, fcap) \<Longrightarrow>
    send_messages_paced env ports peer enc ms st =
    send_each env ports peer (pack cap (append_capability enc (sp_framing ports) []) (map enc ms)) st"
  by (simp add: send_messages_paced_def split_beta flip: paced_loop_pack) (simp add: flush_def Let_def)

lemma send_each_appends:
  assumes "tag_sized env (sp_authenticator ports)" "max_logical_message_size (sp_framing ports) < 2 ^ 32"
  shows "appends peer (datagram_payload_budget (sp_framing ports)) st (send_each env ports peer ps st)"
proof (induction ps arbitrary: st)
  case (Cons p ps)
  show ?case using appends_trans [OF send_logical_appends [OF assms] Cons.IH] by simp
qed simp

section \<open>Sealed frames on the wire\<close>

text \<open>The datagrams of a list of frames, with the sender's counter after them.\<close>

fun seal_all :: "'p SendEnv \<Rightarrow> Authenticator \<Rightarrow> nat \<Rightarrow> SenderCounter \<Rightarrow> bytes list \<Rightarrow> bytes list \<times> SenderCounter" where
  "seal_all env a i c [] = ([], c)"
| "seal_all env a i c (f # fs) =
    (let (seq, c1) = next_seq c; (stamp, c2) = next_stamp_at c1 (se_clock_ms env i);
         (ws, c') = seal_all env a (i + 1) c2 fs
     in (seal (se_crypto env) (se_nonce env i) a seq stamp f # ws, c'))"

lemma seal_all_append:
  "seal_all env a i c (fs @ gs) =
    (let (ws, c1) = seal_all env a i c fs; (vs, c2) = seal_all env a (i + length fs) c1 gs in (ws @ vs, c2))"
  by (induction fs arbitrary: i c) (auto simp: Let_def split_beta)

lemma length_seal_all [simp]: "length (fst (seal_all env a i c fs)) = length fs"
  by (induction fs arbitrary: i c) (auto simp: Let_def split_beta)

definition sent :: "'p SendEnv \<Rightarrow> Authenticator \<Rightarrow> 'p \<Rightarrow> bytes list \<Rightarrow> 'p SendState \<Rightarrow> 'p SendState \<Rightarrow> bool" where
  "sent env a peer fs st st' \<longleftrightarrow>
    wire_log st' = wire_log st @ map (Pair peer) (fst (seal_all env a (sealed_count st) (sender_counter st) fs)) \<and>
    sender_counter st' = snd (seal_all env a (sealed_count st) (sender_counter st) fs) \<and>
    sealed_count st' = sealed_count st + length fs"

lemma sent_refl [simp]: "sent env a peer [] st st"
  by (simp add: sent_def)

lemma sent_trans: "sent env a peer fs st st1 \<Longrightarrow> sent env a peer gs st1 st2 \<Longrightarrow> sent env a peer (fs @ gs) st st2"
  by (simp add: sent_def seal_all_append Let_def split_beta)

lemma sent_recovery [simp]:
  "sent env a peer fs (st\<lparr>recovery := b\<rparr>) st' = sent env a peer fs st st'" "sent env a peer fs st (st'\<lparr>recovery := b\<rparr>) = sent env a peer fs st st'"
  by (simp_all add: sent_def)

definition wire_sent :: "'p SendState \<Rightarrow> 'p SendState \<Rightarrow> bytes list" where
  "wire_sent st st' = map snd (drop (length (wire_log st)) (wire_log st'))"

lemma sent_wire: "sent env a peer fs st st' \<Longrightarrow> wire_sent st st' = fst (seal_all env a (sealed_count st) (sender_counter st) fs)"
  by (simp add: sent_def wire_sent_def comp_def)

text \<open>The retry loop reports success only after the transport took the datagram.\<close>

lemma send_attempts_ok:
  "send_attempts env k w p res st = (Inr n, st') \<Longrightarrow> 0 < k \<Longrightarrow>
    \<exists>calls. st' = st\<lparr>send_calls := calls, wire_log := wire_log st @ [(p, w)]\<rparr>"
proof (induction k arbitrary: res st)
  case (Suc k)
  then show ?case
  proof (cases "se_transport env (send_calls st) w p")
    case None
    then have "0 < k" using Suc.prems(1) by (cases k) auto
    then show ?thesis using Suc.IH [of "Inl ()" "st\<lparr>send_calls := send_calls st + 1\<rparr>"] None Suc.prems(1) by auto
  qed auto
qed simp

lemma send_attempts_recovery: "recovery (snd (send_attempts env k w p res st)) = recovery st"
  by (induction k arbitrary: res st) (auto split: option.split)

lemma send_frame_recovery: "recovery (snd (send_frame_to_retry env a f peer st)) = recovery st"
  by (simp add: send_frame_to_retry_def send_attempts_recovery Let_def split_beta)

lemma sent_frame:
  assumes "send_frame_to_retry env a f peer st = (Inr n, st')"
  shows "sent env a peer [f] st st'"
proof -
  obtain seq c1 where seq: "next_seq (sender_counter st) = (seq, c1)" by fastforce
  obtain stamp c2 where stamp: "next_stamp_at c1 (se_clock_ms env (sealed_count st)) = (stamp, c2)" by fastforce
  have "0 < MAX_SENDTO_RETRIES" by (simp add: MAX_SENDTO_RETRIES_def)
  from send_attempts_ok [OF _ this] assms show ?thesis
    by (fastforce simp: send_frame_to_retry_def seq stamp sent_def)
qed

text \<open>A transport on which every call succeeds.\<close>

definition transport_up :: "'p SendEnv \<Rightarrow> bool" where
  "transport_up env \<longleftrightarrow> (\<forall>k w p. se_transport env k w p \<noteq> None)"

lemma send_frame_ok:
  assumes "transport_up env"
  shows "\<exists>n st'. send_frame_to_retry env a f peer st = (Inr n, st')"
proof -
  have retries: "MAX_SENDTO_RETRIES = Suc 3" by (simp add: MAX_SENDTO_RETRIES_def)
  have "\<exists>n. fst (send_attempts env MAX_SENDTO_RETRIES w peer res st') = Inr n" for w res st'
  proof -
    obtain y where "se_transport env (send_calls st') w peer = Some y" using assms unfolding transport_up_def by fastforce
    then show ?thesis unfolding retries send_attempts.simps(2) by simp
  qed
  then have "\<exists>n. fst (send_frame_to_retry env a f peer st) = Inr n"
    by (simp add: send_frame_to_retry_def Let_def split_beta)
  then show "\<exists>n st'. send_frame_to_retry env a f peer st = (Inr n, st')" by (metis prod.collapse)
qed

lemma send_frame_up:
  assumes "transport_up env"
  shows "sent env a peer [f] st (snd (send_frame_to_retry env a f peer st))"
    "recovery (snd (send_frame_to_retry env a f peer st)) = recovery st"
  using send_frame_ok [OF assms, of a f peer st] sent_frame send_frame_recovery by fastforce+

section \<open>Retransmission\<close>

text \<open>A frame that carries a slice of a message of a transfer.\<close>

definition slice_of :: "transfer_id \<Rightarrow> bytes \<Rightarrow> nat \<Rightarrow> bytes \<Rightarrow> bool" where
  "slice_of tid m cap f \<longleftrightarrow>
    (let i = parse_fragment f
     in fi_id i = tid \<and> fi_total_len i = length m \<and> fi_bytes i \<noteq> [] \<and> length (fi_bytes i) \<le> cap \<and>
        fi_bytes i = take (length (fi_bytes i)) (drop (fi_offset i) m))"

definition positions :: "bytes list \<Rightarrow> nat set" where
  "positions fs = (\<Union>f\<in>set fs. {fi_offset (parse_fragment f)..<fi_offset (parse_fragment f) + length (fi_bytes (parse_fragment f))})"

lemma positions_simps [simp]: "positions [] = {}" "positions (fs @ gs) = positions fs \<union> positions gs"
  by (auto simp: positions_def)

lemma range_step: "n < cap + k \<Longrightarrow> k \<le> n \<Longrightarrow> {s + k..<s + k + min cap (n - k)} = {s + k..<s + (n :: nat)}"
  "cap + k \<le> n \<Longrightarrow> {s + k..<s + k + min cap (n - k)} \<union> {s + (cap + k)..<s + n} = {s + k..<s + n}"
  by auto

lemma retransmit_chunks_exact:
  assumes "0 < cap" "bs = take n (drop start m)" "start + n \<le> length m"
  shows "relative \<le> chunk_count cap bs \<Longrightarrow>
    retransmit_chunks env ports peer tid (length m) cap start relative (map (chunk cap bs) [relative..<chunk_count cap bs]) st = (True, st') \<Longrightarrow>
    \<exists>fs. sent env (sp_authenticator ports) peer fs st st' \<and> recovery st' = recovery st \<and>
      list_all (slice_of tid m cap) fs \<and> positions fs = {start + relative * cap..<start + n}"
proof (induction "chunk_count cap bs - relative" arbitrary: relative st)
  case 0
  then have "relative = chunk_count cap bs" by simp
  moreover have "n \<le> chunk_count cap bs * cap" using chunk_count_covers [OF assms(1), of bs] assms(2,3) by simp
  ultimately show ?case using 0 by (intro exI [of _ "[]"]) simp
next
  case (Suc k)
  then have split: "[relative..<chunk_count cap bs] = relative # [Suc relative..<chunk_count cap bs]" by (simp add: upt_conv_Cons)
  let ?c = "chunk cap bs relative" and ?off = "start + relative * cap"
  obtain frame where frame: "write_fragment tid (length m) ?off ?c = Inr frame"
    using Suc.prems(2) by (auto simp: split split: sum.splits)
  obtain x st1 where send: "send_frame_to_retry env (sp_authenticator ports) frame peer st = (Inr x, st1)"
    "retransmit_chunks env ports peer tid (length m) cap start (Suc relative) (map (chunk cap bs) [Suc relative..<chunk_count cap bs]) st1 = (True, st')"
    using Suc.prems(2) frame by (auto simp: split split: prod.splits sum.splits)
  have more: "k = chunk_count cap bs - Suc relative" "Suc relative \<le> chunk_count cap bs" using Suc.hyps(2) by simp_all
  from Suc.hyps(1) [OF this send(2)] obtain fs where fs: "sent env (sp_authenticator ports) peer fs st1 st'"
    "recovery st' = recovery st1" "list_all (slice_of tid m cap) fs" "positions fs = {start + Suc relative * cap..<start + n}" by blast
  note parsed = parse_write_fragment(3) [OF frame]
  have inside: "relative * cap < n" using chunk_nonempty [OF assms(1), of relative bs] more(2) assms(2) by simp
  have c: "?c = take (min cap (n - relative * cap)) (drop ?off m)"
    using assms(2) by (simp add: chunk_def drop_take add.commute)
  then have len: "length ?c = min cap (n - relative * cap)" using assms(3) by simp
  then have "?c = take (length ?c) (drop ?off m)" using c by simp
  moreover have "?c \<noteq> []" using len inside assms(1) by auto
  ultimately have slice: "slice_of tid m cap frame" by (simp add: slice_of_def parsed) (simp add: len)
  have "positions [frame] \<union> positions fs = {?off..<start + n}"
    using range_step [of n cap "relative * cap" start] inside by (auto simp: positions_def [of "[frame]"] parsed len fs(4))
  then show ?case using sent_trans [OF sent_frame [OF send(1)] fs(1)] fs(2,3) slice send_frame_recovery [of env "sp_authenticator ports" frame peer st] send(1)
    by (intro exI [of _ "frame # fs"]) (simp add: positions_simps(2) [of "[frame]" fs, simplified])
qed

lemma report_valid_inside: "report_valid len prev rs \<Longrightarrow> (start, n) \<in> set rs \<Longrightarrow> start + n \<le> len"
  by (induction len prev rs rule: report_valid.induct) (auto simp: checked_add_def split: option.splits if_splits)

lemma retransmit_ranges_exact:
  assumes "0 < cap"
  shows "\<forall>(start, n)\<in>set rs. start + n \<le> length m \<Longrightarrow> retransmit_ranges env ports peer tid m cap rs st = (True, st') \<Longrightarrow>
    \<exists>fs. sent env (sp_authenticator ports) peer fs st st' \<and> recovery st' = recovery st \<and>
      list_all (slice_of tid m cap) fs \<and> positions fs = range_set rs"
proof (induction rs arbitrary: st)
  case Nil
  then show ?case by (intro exI [of _ "[]"]) simp
next
  case (Cons r rs)
  obtain start n where r: "r = (start, n)" by (cases r)
  have fit: "start + n \<le> length m" using Cons.prems(1) by (simp add: r)
  obtain st1 where one: "retransmit_chunks env ports peer tid (length m) cap start 0 (chunks cap (take n (drop start m))) st = (True, st1)"
    and rest: "retransmit_ranges env ports peer tid m cap rs st1 = (True, st')"
    using Cons.prems(2) by (auto simp: r split: prod.splits bool.splits)
  obtain fs where fs: "sent env (sp_authenticator ports) peer fs st st1" "recovery st1 = recovery st"
    "list_all (slice_of tid m cap) fs" "positions fs = {start..<start + n}"
    using retransmit_chunks_exact [OF assms refl fit, of 0 env ports peer tid st st1] one by (auto simp: chunks_def)
  obtain gs where gs: "sent env (sp_authenticator ports) peer gs st1 st'" "recovery st' = recovery st1"
    "list_all (slice_of tid m cap) gs" "positions gs = range_set rs"
    using Cons.IH [OF _ rest] Cons.prems(1) by auto
  then show ?case using sent_trans [OF fs(1) gs(1)] fs by (intro exI [of _ "fs @ gs"]) (simp add: r)
qed

lemma payload_for_report_retained:
  assumes "payload_for_report peer tid now cfg b = (Some granted, b')" "book_wf b"
  shows "\<exists>t. map_of (outbound b) (peer, tid) = Some t \<and> rp_payload granted = ob_payload t"
proof -
  obtain n b1 where e: "expire_outbound now (recovery_ttl cfg) b = (n, b1)" by fastforce
  obtain P where P: "outbound b1 = filter P (outbound b)" using expire_outbound_ok(2) [OF e assms(2)] by (auto simp: shrinks_def)
  have "keys_distinct (outbound b)" using assms(2) by (simp add: book_wf_def)
  from map_of_filter_distinct [OF this, of P "(peer, tid)"] show ?thesis
    using assms(1) by (auto simp: payload_for_report_def e P Let_def split: option.splits if_splits)
qed

lemma supports_outbound: "outbound (snd (supports peer now cfg b)) = outbound b" "book_wf b \<Longrightarrow> book_wf (snd (supports peer now cfg b))"
  by (auto simp: supports_def expire_capabilities_def Let_def book_wf_def keys_distinct_filter)

section \<open>An authenticated sender with the default policy\<close>

definition demo_env :: "nat SendEnv" where
  "demo_env = \<lparr>se_crypto = demo_crypto, se_hash = \<lambda>m. arr_zero, se_nonce = \<lambda>i. arr_zero, se_clock_ms = \<lambda>i. 1000,
     se_instant = \<lambda>k. k, se_transport = \<lambda>k w p. Some (length w)\<rparr>"

definition demo_ports :: SendPorts where
  "demo_ports = \<lparr>sp_authenticator = Enabled (keys_single (demo_key 1)), sp_framing = framing_default\<rparr>"

definition demo_send :: "nat SendState" where
  "demo_send = \<lparr>sender_counter = sender_counter_new, recovery = book_for_identity, sealed_count = 0, send_calls = 0, wire_log = []\<rparr>"

lemma demo_policy: "framing_validate (sp_framing demo_ports) (overhead (sp_authenticator demo_ports)) = Inr ()"
  by (simp add: demo_ports_def framing_validate_def framing_default_def DEFAULT_DATAGRAM_PAYLOAD_BUDGET_def usize_max_def sat_add_def
      auth_consts frame_consts MAX_UDP_PAYLOAD_def)

lemma demo_capacities: "capacities (sp_authenticator demo_ports) (sp_framing demo_ports) = Some (1150, 1110)"
  by (simp add: demo_ports_def capacities_def complete_payload_capacity_def fragment_payload_capacity_def checked_sub_def
      framing_default_def DEFAULT_DATAGRAM_PAYLOAD_BUDGET_def auth_consts frame_consts)

lemma demo_transport: "transport_up demo_env"
  by (simp add: transport_up_def demo_env_def)

section \<open>Properties\<close>

text \<open>C34: under a validated framing policy every datagram a batch of messages puts on the wire goes to
  its peer and stays, sealed, within the configured budget and the UDP maximum, whatever the
  messages are and however often the transport fails.\<close>

theorem datagrams_fit_budget:
  assumes "framing_validate (sp_framing ports) (overhead (sp_authenticator ports)) = Inr ()"
    and "tag_sized env (sp_authenticator ports)"
  shows "appends peer (datagram_payload_budget (sp_framing ports)) st (send_messages_paced env ports peer enc ms st) \<and>
    datagram_payload_budget (sp_framing ports) \<le> MAX_UDP_PAYLOAD"
proof (cases "capacities (sp_authenticator ports) (sp_framing ports)")
  case None
  then show ?thesis using framing_validate_ok(2) [OF assms(1)] by (simp add: send_messages_paced_def)
next
  case (Some cc)
  obtain cap fcap where "cc = (cap, fcap)" by (cases cc)
  then show ?thesis
    using send_each_appends [OF assms(2) framing_validate_ok(3) [OF assms(1)]] send_messages_pack [of ports cap fcap env peer enc ms st]
      framing_validate_ok(2) [OF assms(1)] Some by simp
qed

text \<open>A sender with the default policy, over a transport that fails on every third call.\<close>

theorem datagrams_fit_budget_witness:
  "appends 2 (datagram_payload_budget framing_default) demo_send
    (send_messages_paced (demo_env\<lparr>se_transport := \<lambda>k w p. if k mod 3 = 0 then None else Some (length w)\<rparr>) demo_ports 2 demo_enc
      [ConvergenceAck, Reserved6 [9]] demo_send)"
  using datagrams_fit_budget [OF demo_policy, of "demo_env\<lparr>se_transport := \<lambda>k w p. if k mod 3 = 0 then None else Some (length w)\<rparr>" 2
      demo_send demo_enc "[ConvergenceAck, Reserved6 [9]]"]
  by (simp add: tag_sized_def demo_ports_def)

text \<open>C16: the loop that accumulates encoded messages sends exactly the payloads of a pure packing
  function: nothing is lost, reordered or split between messages, and a payload exceeds the
  one-datagram capacity only if it is a single message or the capability announcement.\<close>

theorem batch_packing_exact:
  assumes "capacities (sp_authenticator ports) (sp_framing ports) = Some (cap, fcap)"
    and "ps = pack cap (append_capability enc (sp_framing ports) []) (map enc ms)"
  shows "send_messages_paced env ports peer enc ms st = send_each env ports peer ps st \<and>
    concat ps = append_capability enc (sp_framing ports) [] @ concat (map enc ms) \<and>
    (\<forall>p\<in>set ps. p \<noteq> [] \<and> (length p \<le> cap \<or> p \<in> enc ` set ms \<or> p = append_capability enc (sp_framing ports) []))"
  using send_messages_pack [OF assms(1)] assms(2) pack_pieces [of _ cap "append_capability enc (sp_framing ports) []" "map enc ms"]
  by (auto simp: concat_pack)

theorem batch_packing_exact_witness:
  "send_messages_paced demo_env demo_ports 2 demo_enc [ConvergenceAck] demo_send =
    send_each demo_env demo_ports 2 [demo_enc (Reserved6 SELECTIVE_RECOVERY_CAPABILITY) @ [5]] demo_send"
  using batch_packing_exact [OF demo_capacities refl, of demo_env 2 demo_enc "[ConvergenceAck]" demo_send]
  by (simp add: append_capability_def SELECTIVE_RECOVERY_CAPABILITY_def demo_ports_def framing_default_def)

text \<open>C35: a missing-range report that is answered is answered exactly: the transfer is one the node
  retained for that peer, every retransmitted frame carries a slice of its payload at the right
  offset within the fragment capacity, and together the frames cover the reported ranges and
  nothing else.\<close>

theorem retransmission_exact:
  assumes "retransmit_missing_to env ports peer tid ranges st = (True, st')" "book_wf (recovery st)"
  shows "\<exists>t cap fs. map_of (outbound (recovery st)) (peer, tid) = Some t \<and>
    fragment_payload_capacity (datagram_payload_budget (sp_framing ports)) (overhead (sp_authenticator ports)) = Some cap \<and>
    sent env (sp_authenticator ports) peer fs st st' \<and> list_all (slice_of tid (ob_payload t) cap) fs \<and> positions fs = range_set ranges"
proof -
  let ?now = "se_instant env (send_calls st)" and ?cfg = "sp_framing ports"
  let ?cap = "fragment_payload_capacity (datagram_payload_budget ?cfg) (overhead (sp_authenticator ports))"
  obtain ok b where sup: "supports peer ?now ?cfg (recovery st) = (ok, b)" by fastforce
  obtain granted b' where granted: "ok" "payload_for_report peer tid ?now ?cfg b = (Some granted, b')"
    using assms(1) by (auto simp: retransmit_missing_to_def sup Let_def split: if_splits prod.splits option.splits)
  obtain cap where cap: "?cap = Some cap" "0 < cap" and valid: "report_valid (length (rp_payload granted)) 0 ranges"
    using assms(1) granted
    by (cases ?cap) (auto simp: retransmit_missing_to_def sup Let_def split: if_splits)
  obtain st2 where run: "retransmit_ranges env ports peer tid (rp_payload granted) cap ranges (st\<lparr>recovery := b'\<rparr>) = (True, st2)"
    and st': "st' = st2 \<or> (\<exists>b. st' = st2\<lparr>recovery := b\<rparr>)"
    using assms(1) granted cap valid
    by (auto simp: retransmit_missing_to_def sup Let_def split: if_splits prod.splits bool.splits)
  obtain t where t: "map_of (outbound (recovery st)) (peer, tid) = Some t" "rp_payload granted = ob_payload t"
    using payload_for_report_retained [OF granted(2)] supports_outbound [where peer = peer and now = ?now and cfg = ?cfg and b = "recovery st"] sup assms(2) by auto
  have "\<forall>(start, n)\<in>set ranges. start + n \<le> length (rp_payload granted)" using report_valid_inside [OF valid] by auto
  from retransmit_ranges_exact [OF cap(2) this run] t st' cap(1) show ?thesis by fastforce
qed

text \<open>A transfer of three bytes is retained for a capable peer that misses the first two.\<close>

theorem retransmission_exact_witness:
  "\<exists>fs. sent demo_env (sp_authenticator demo_ports) 2 fs
      (demo_send\<lparr>recovery := \<lparr>capabilities = [(2, 0)], outbound = [((2, arr_zero), \<lparr>ob_payload = [5, 6, 7], ob_last_activity = 0,
         last_full_send = 0, recovery_rounds = 0\<rparr>)], total_bytes = 3\<rparr>\<rparr>)
      (snd (retransmit_missing_to demo_env demo_ports 2 arr_zero [(0, 2)]
        (demo_send\<lparr>recovery := \<lparr>capabilities = [(2, 0)], outbound = [((2, arr_zero), \<lparr>ob_payload = [5, 6, 7], ob_last_activity = 0,
           last_full_send = 0, recovery_rounds = 0\<rparr>)], total_bytes = 3\<rparr>\<rparr>))) \<and>
    list_all (slice_of arr_zero [5, 6, 7] 1110) fs \<and> positions fs = {0..<2}"
proof -
  let ?t = "\<lparr>ob_payload = [5, 6, 7], ob_last_activity = 0, last_full_send = 0, recovery_rounds = 0\<rparr>"
  let ?st = "demo_send\<lparr>recovery := \<lparr>capabilities = [(2, 0)], outbound = [((2, arr_zero), ?t)], total_bytes = 3\<rparr>\<rparr>"
  have cap: "fragment_payload_capacity (datagram_payload_budget (sp_framing demo_ports)) (overhead (sp_authenticator demo_ports)) = Some 1110"
    by (simp add: demo_ports_def fragment_payload_capacity_def checked_sub_def framing_default_def
        DEFAULT_DATAGRAM_PAYLOAD_BUDGET_def auth_consts frame_consts)
  have chunks: "chunks 1110 [5, 6 :: byte] = [[5, 6]]" by (simp add: chunks_def chunk_count_def chunk_def)
  obtain frame where frame: "write_fragment arr_zero (Suc (Suc (Suc 0))) 0 [5, 6] = Inr frame"
    using write_fragment_ok [of "Suc (Suc (Suc 0))" 0] by auto
  have sel: "selective_recovery (sp_framing demo_ports)" "recovery_capability_ttl (sp_framing demo_ports) > 0" "recovery_ttl (sp_framing demo_ports) > 0"
    "max_selective_recovery_rounds (sp_framing demo_ports) = 4" "se_instant demo_env (send_calls ?st) = 0"
    by (simp_all add: demo_ports_def framing_default_def from_secs_def demo_env_def demo_send_def)
  have run: "fst (retransmit_ranges demo_env demo_ports 2 arr_zero [5, 6, 7] 1110 [(0, 2)] st)" for st
    using send_frame_ok [OF demo_transport, of "sp_authenticator demo_ports" frame 2 st]
    by (auto simp: chunks frame)
  have "fst (retransmit_missing_to demo_env demo_ports 2 arr_zero [(0, 2)] ?st)"
    using sel run cap unfolding retransmit_missing_to_def
    by (auto simp: supports_def expire_capabilities_def payload_for_report_def expire_outbound_def checked_add_def usize_max_def
        Let_def split_beta split: prod.split bool.split)
  then have "retransmit_missing_to demo_env demo_ports 2 arr_zero [(0, 2)] ?st =
      (True, snd (retransmit_missing_to demo_env demo_ports 2 arr_zero [(0, 2)] ?st))" by (simp add: prod_eq_iff)
  from retransmission_exact [OF this] cap show ?thesis by (simp add: book_wf_def numeral_2_eq_2)
qed

end
