(* ===== verification/Ingress.thy ===== *)
theory Ingress
  imports Sending
begin

text \<open>
  The receive loop of a node (\<open>src/replica/run.rs\<close>): one inbound datagram, from the admission gate
  through reassembly to the logical payload handed to the message handler, with the recovery
  traffic it triggers, and the repair timers (\<open>src/replica/repair.rs\<close>). The second half proves that
  what the outbound path sends, this path delivers.
\<close>

section \<open>Repair timers\<close>

definition MAX_REPAIR_ATTEMPTS :: nat where "MAX_REPAIR_ATTEMPTS = 4"

record PendingRepair =
  deadline :: instant
  attempts :: nat

definition note_pending_repair :: "'p \<Rightarrow> instant \<Rightarrow> duration \<Rightarrow> ('p, PendingRepair) kv \<Rightarrow> ('p, PendingRepair) kv" where
  "note_pending_repair peer now interval m =
    (case map_of m peer of
       None \<Rightarrow> AList.update peer \<lparr>deadline = now + interval, attempts = 0\<rparr> m
     | Some _ \<Rightarrow> m)"

text \<open>\<open>retain\<close> with its side effects: the peers due for a retry and the entries kept.\<close>

fun retry_due_repairs ::
  "instant \<Rightarrow> duration \<Rightarrow> ('p, PendingRepair) kv \<Rightarrow> 'p list \<times> ('p, PendingRepair) kv" where
  "retry_due_repairs now interval [] = ([], [])"
| "retry_due_repairs now interval ((peer, r) # m) =
    (let (due, m') = retry_due_repairs now interval m
     in if now < deadline r then (due, (peer, r) # m')
        else if MAX_REPAIR_ATTEMPTS < attempts r + 1 then (due, m')
        else (peer # due, (peer, \<lparr>deadline = now + interval, attempts = attempts r + 1\<rparr>) # m'))"

section \<open>The receive loop\<close>

record 'p NetState =
  net_filter :: "'p ReplayFilter"
  net_reasm :: "'p Reassembler"
  net_send :: "'p SendState"
  net_members :: "'p list"
  net_peers :: "('p, instant) kv"
  net_repairs :: "('p, PendingRepair) kv"

text \<open>The clock readings of one iteration: the wall clock of the replay check and three monotonic
  readings.\<close>

record RxClock =
  rx_wall :: Stamp
  rx_accept :: instant
  rx_event :: instant
  rx_support :: instant

definition rx_supports :: "SendPorts \<Rightarrow> 'p \<Rightarrow> instant \<Rightarrow> 'p NetState \<Rightarrow> bool \<times> 'p NetState" where
  "rx_supports ports sender now st =
    (let (ok, b) = supports sender now (sp_framing ports) (recovery (net_send st))
     in (ok, st\<lparr>net_send := (net_send st)\<lparr>recovery := b\<rparr>\<rparr>))"

definition rx_control :: "'p SendEnv \<Rightarrow> SendPorts \<Rightarrow> 'p \<Rightarrow> bytes \<Rightarrow> 'p NetState \<Rightarrow> 'p NetState" where
  "rx_control env ports sender frame st =
    st\<lparr>net_send := snd (send_recovery_control_to env ports sender frame (net_send st))\<rparr>"

definition handle_event ::
  "'p SendEnv \<Rightarrow> SendPorts \<Rightarrow> 'p \<Rightarrow> instant \<Rightarrow> FrameEvent \<Rightarrow> 'p NetState \<Rightarrow> bytes option \<times> 'p NetState" where
  "handle_event env ports sender now ev st =
    (case ev of
       EvLogical payload completed_transfer \<Rightarrow>
        let st1 = (case completed_transfer of
                     None \<Rightarrow> st
                   | Some tid \<Rightarrow>
                      let (ok, st') = rx_supports ports sender now st
                      in if ok then rx_control env ports sender (write_completion_ack tid) st' else st')
        in (Some payload, st1\<lparr>net_repairs := AList.delete sender (net_repairs st1)\<rparr>)
     | EvRequestMissing tid ranges \<Rightarrow>
        let (ok, st') = rx_supports ports sender now st
        in (None, if \<not> ok then st'
                  else case write_missing_report tid ranges of
                    Inl _ \<Rightarrow> st' | Inr frame \<Rightarrow> rx_control env ports sender frame st')
     | EvMissing tid ranges \<Rightarrow>
        (None, st\<lparr>net_send := snd (retransmit_missing_to env ports sender tid ranges (net_send st))\<rparr>)
     | EvCompleteAck tid \<Rightarrow> (None, st\<lparr>net_send := complete_recovery sender tid (net_send st)\<rparr>)
     | EvPending \<Rightarrow> (None, st))"

text \<open>One iteration of the loop on a received datagram; the result is the logical payload that goes
  to the message handler. A datagram that fills the receive buffer is discarded.\<close>

definition recv_datagram ::
  "'p::linorder SendEnv \<Rightarrow> SendPorts \<Rightarrow> nat \<Rightarrow> 'p \<Rightarrow> RxClock \<Rightarrow> bytes \<Rightarrow> 'p NetState \<Rightarrow> bytes option \<times> 'p NetState" where
  "recv_datagram env ports max_peers sender clk datagram st =
    (if BUFFER_SIZE + 1 \<le> length datagram then (None, st)
     else case admit_inbound (se_crypto env) (sp_authenticator ports) (net_filter st) max_peers sender datagram
                 (sender \<in> set (net_members st), length (net_members st)) (rx_wall clk) of
       (Inl _, f) \<Rightarrow> (None, st\<lparr>net_filter := f\<rparr>)
     | (Inr payload, f) \<Rightarrow>
        let max_missing_ranges = max_missing_ranges_for_budget (datagram_payload_budget (sp_framing ports))
              (overhead (sp_authenticator ports)) (max_missing_ranges_per_report (sp_framing ports));
            (ev, r) = accept_frame (se_hash env) (net_reasm st) sender payload max_missing_ranges (rx_accept clk) (rx_event clk)
        in handle_event env ports sender (rx_support clk) ev (st\<lparr>net_filter := f, net_reasm := r\<rparr>))"

text \<open>A sender that spoke the dated channel becomes a peer and a member.\<close>

definition note_dated_sender :: "'p \<Rightarrow> instant \<Rightarrow> 'p NetState \<Rightarrow> 'p NetState" where
  "note_dated_sender sender now st =
    st\<lparr>net_peers := AList.update sender now (net_peers st), net_members := List.insert sender (net_members st)\<rparr>"

text \<open>The idle branch of the loop, before the next comparison round.\<close>

definition idle_tick :: "'p::linorder SendEnv \<Rightarrow> SendPorts \<Rightarrow> instant \<Rightarrow> 'p NetState \<Rightarrow> 'p NetState" where
  "idle_tick env ports now st =
    st\<lparr>net_reasm := expire_reassembly (net_reasm st) now, net_send := expire_recovery_state env ports (net_send st)\<rparr>"

section \<open>What a working transport carries\<close>

text \<open>The peer has not advertised selective recovery, so nothing is withheld.\<close>

definition uncapable :: "'p \<Rightarrow> 'p SendState \<Rightarrow> bool" where
  "uncapable peer st \<longleftrightarrow> keys_distinct (capabilities (recovery st)) \<and> map_of (capabilities (recovery st)) peer = None"

definition frames_of :: "Authenticator \<Rightarrow> FramingConfig \<Rightarrow> (bytes \<Rightarrow> 32 arr) \<Rightarrow> bytes \<Rightarrow> bytes list" where
  "frames_of a cfg hash m =
    (case capacities a cfg of
       None \<Rightarrow> []
     | Some (cap, fcap) \<Rightarrow>
        if max_logical_message_size cfg < length m then []
        else if length m \<le> cap then [write_complete m]
        else if fcap = 0 \<or> max_fragments_per_message cfg < chunk_count fcap m then []
        else map (\<lambda>i. projr (chunk_frame hash fcap m i)) [0..<chunk_count fcap m])"

lemma sent_fragments:
  assumes "transport_up env"
  shows "sent env (sp_authenticator ports) peer (map (\<lambda>i. projr (chunk_frame (se_hash env) cap m i)) [index..<n]) st
      (snd (send_fragments env ports peer (transfer_id (se_hash env) m) (length m) cap index (map (chunk cap m) [index..<n]) tot st)) \<and>
    recovery (snd (send_fragments env ports peer (transfer_id (se_hash env) m) (length m) cap index (map (chunk cap m) [index..<n]) tot st)) =
      recovery st"
proof (induction "n - index" arbitrary: index tot st)
  case (Suc k)
  then have split: "[index..<n] = index # [Suc index..<n]" by (simp add: upt_conv_Cons)
  note one = send_frame_up [OF assms, where a = "sp_authenticator ports" and peer = peer and f = "projr (chunk_frame (se_hash env) cap m index)" and st = st]
  from sent_trans [OF one(1) Suc.hyps(1) [of "Suc index", THEN conjunct1]] Suc.hyps(1) [of "Suc index", THEN conjunct2] one(2) Suc.hyps(2)
  show ?case unfolding split by (simp add: Let_def split_beta chunk_frame_def)
qed simp

lemma retain_for_recovery_uncapable:
  assumes "uncapable peer st" "st' = st\<lparr>recovery := snd (supports peer (se_instant env (send_calls st)) cfg (recovery st))\<rparr>"
  shows "retain_for_recovery env cfg peer tid m st = (None, st')" "uncapable peer st'"
  using assms map_of_filter_distinct [of "capabilities (recovery st)" _ peer]
  by (auto simp: uncapable_def retain_for_recovery_def supports_def expire_capabilities_def Let_def)

lemma sent_logical:
  assumes "transport_up env" "uncapable peer st"
  shows "sent env (sp_authenticator ports) peer (frames_of (sp_authenticator ports) (sp_framing ports) (se_hash env) m) st
      (snd (send_logical_payload env ports peer m st)) \<and> uncapable peer (snd (send_logical_payload env ports peer m st))"
proof (cases "capacities (sp_authenticator ports) (sp_framing ports)")
  case (Some cc)
  obtain cap fcap where cc: "cc = (cap, fcap)" by (cases cc)
  define st' where "st' = st\<lparr>recovery := snd (supports peer (se_instant env (send_calls st)) (sp_framing ports) (recovery st))\<rparr>"
  note ret = retain_for_recovery_uncapable [OF assms(2) st'_def]
  let ?fs = "map (\<lambda>i. projr (chunk_frame (se_hash env) fcap m i)) [0..<chunk_count fcap m]"
  have frag: "sent env (sp_authenticator ports) peer ?fs st (snd (send_fragmented env ports peer m fcap st)) \<and>
      uncapable peer (snd (send_fragmented env ports peer m fcap st))"
    using sent_fragments [OF assms(1), of ports peer fcap m 0 "chunk_count fcap m" st' 0] ret(2)
    by (simp add: send_fragmented_def ret(1) chunks_def Let_def split_beta uncapable_def) (simp add: sent_def st'_def)
  have complete: "sent env (sp_authenticator ports) peer [write_complete m] st
        (snd (send_frame_to_retry env (sp_authenticator ports) (write_complete m) peer st)) \<and>
      uncapable peer (snd (send_frame_to_retry env (sp_authenticator ports) (write_complete m) peer st))"
    using send_frame_up [OF assms(1), where a = "sp_authenticator ports" and peer = peer and f = "write_complete m" and st = st] assms(2) by (simp add: uncapable_def)
  let ?send = "send_logical_payload env ports peer m st" and ?frames = "frames_of (sp_authenticator ports) (sp_framing ports) (se_hash env) m"
  have "?send = (Inr 0, st) \<and> ?frames = [] \<or>
      ?send = send_frame_to_retry env (sp_authenticator ports) (write_complete m) peer st \<and> ?frames = [write_complete m] \<or>
      ?send = send_fragmented env ports peer m fcap st \<and> ?frames = ?fs"
    unfolding send_logical_payload_def frames_of_def Some cc by simp
  then show ?thesis using frag complete assms(2) by (elim disjE conjE) simp_all
qed (simp add: send_logical_payload_def frames_of_def assms(2))

lemma sent_each:
  assumes "transport_up env"
  shows "uncapable peer st \<Longrightarrow>
    sent env (sp_authenticator ports) peer (concat (map (frames_of (sp_authenticator ports) (sp_framing ports) (se_hash env)) ms)) st
      (send_each env ports peer ms st)"
proof (induction ms arbitrary: st)
  case (Cons m ms)
  note one = sent_logical [OF assms Cons.prems, of ports m]
  from sent_trans [OF one [THEN conjunct1] Cons.IH [OF one [THEN conjunct2]]] show ?case by simp
qed simp

section \<open>The replay filter follows the sender\<close>

text \<open>A filter is ready for a sender whose counter is \<open>c\<close>: it is off, it has room for a new sender,
  or it knows the sender with an older number and stamp.\<close>

definition ready :: "'p ReplayFilter \<Rightarrow> 'p \<Rightarrow> SenderCounter \<Rightarrow> Stamp \<Rightarrow> Stamp \<Rightarrow> bool" where
  "ready f sender c lo hi \<longleftrightarrow>
    stamp_floor c \<le> hi \<and>
    (enabled f \<longrightarrow>
      (case map_of (peers f) sender of
         None \<Rightarrow> length (peers f) < max_senders f
       | Some s \<Rightarrow> max_seq s < seq_ctr c \<and> max_stamp_seen s \<le> stamp_floor c \<and> lo \<le> stamp_at_max s \<and> stamp_at_max s \<le> hi))"

text \<open>Stamps between \<open>lo\<close> and \<open>hi\<close> are fresh at a reading of the receiver's clock.\<close>

definition all_fresh :: "Stamp \<Rightarrow> Stamp \<Rightarrow> 64 word \<Rightarrow> Stamp \<Rightarrow> bool" where
  "all_fresh lo hi window now \<longleftrightarrow> (\<forall>t. lo \<le> t \<and> t \<le> hi \<longrightarrow> is_fresh t now window)"

lemma u64_Suc_less: "unat (x :: 64 word) + 1 < 2 ^ 64 \<Longrightarrow> x < x + 1 \<and> unat (x + 1) = unat x + 1"
  by (simp add: word_less_nat_alt unat_word_ariths)

lemma accept_next:
  assumes "max_seq s < seq" "max_stamp_seen s \<le> stamp"
  shows "\<exists>s'. accept s seq stamp = (True, s') \<and> max_seq s' = seq \<and> stamp_at_max s' = stamp \<and> max_stamp_seen s' = stamp"
  using assms by (simp add: Replay.accept_def max_absorb2)

lemma ready_step:
  assumes "ready f sender c lo hi" "all_fresh lo hi (freshness_window f) now" "unat (seq_ctr c) + 1 < 2 ^ 64"
    and "lo \<le> ms" "ms \<le> hi" "next_seq c = (seq, c1)" "next_stamp_at c1 ms = (stamp, c2)"
  shows "\<exists>f'. check_and_record f sender seq stamp now = (True, f') \<and> ready f' sender c2 lo hi \<and>
    freshness_window f' = freshness_window f"
proof (cases "enabled f")
  case True
  have c: "seq = seq_ctr c" "stamp = max (stamp_floor c) ms" "seq_ctr c2 = seq_ctr c + 1" "stamp_floor c2 = stamp"
    using assms(6,7) by (auto simp: next_seq_def next_stamp_at_def)
  have st: "lo \<le> stamp" "stamp \<le> hi" "stamp_floor c \<le> stamp"
    using assms(1,4,5) by (auto simp: c ready_def max_def)
  have fresh: "is_fresh stamp now (freshness_window f)" using assms(2) st by (simp add: all_fresh_def)
  have seq: "seq < seq_ctr c2" using u64_Suc_less [OF assms(3)] by (simp add: c)
  show ?thesis
  proof (cases "map_of (peers f) sender")
    case None
    then have room: "length (peers f) < max_senders f" using assms(1) True by (simp add: ready_def)
    then show ?thesis using fresh None True st seq
      by (simp add: check_and_record_def check_and_record_at_def check_and_record_sender_def admit_new_sender_def ready_def
          peer_state_new_def c(4))
  next
    case (Some s)
    then have old: "max_seq s < seq" "max_stamp_seen s \<le> stamp" "lo \<le> stamp_at_max s" "stamp_at_max s \<le> hi"
      using assms(1) True st(3) by (auto simp: ready_def c(1))
    obtain s' where s': "accept s seq stamp = (True, s')" "max_seq s' = seq" "stamp_at_max s' = stamp" "max_stamp_seen s' = stamp"
      using accept_next [OF old(1,2)] by blast
    have "entry_live now (freshness_window f) s"
      using assms(2) old(3,4) by (simp add: all_fresh_def is_fresh_def entry_live_def)
    then show ?thesis using fresh Some True st seq s'
      by (simp add: check_and_record_def check_and_record_at_def check_and_record_sender_def ready_def c(4))
  qed
next
  case False
  have "stamp_floor c2 = max (stamp_floor c) ms" using assms(6,7) by (auto simp: next_seq_def next_stamp_at_def)
  then show ?thesis using False assms(1,5) by (auto simp: check_and_record_def ready_def)
qed

section \<open>One sealed frame\<close>

definition event_payload :: "FrameEvent \<Rightarrow> bytes option" where
  "event_payload ev = (case ev of EvLogical m _ \<Rightarrow> Some m | _ \<Rightarrow> None)"

lemma handle_event_frame:
  assumes "handle_event env ports sender now ev st = (out, st')"
  shows "out = event_payload ev" "net_filter st' = net_filter st" "net_reasm st' = net_reasm st" "net_members st' = net_members st"
  using assms
  by (auto simp: handle_event_def event_payload_def rx_supports_def rx_control_def Let_def
      split: FrameEvent.splits option.splits prod.splits if_splits sum.splits)

lemma accept_frame_bytes:
  "accept_frame hash r p \<lparr>pl_bytes = bs, pl_seq = s, pl_stamp = t\<rparr> n now now' = accept_frame hash r p (frame_payload bs) n now now'"
proof -
  have "reasm_accept hash r p \<lparr>pl_bytes = bs, pl_seq = s, pl_stamp = t\<rparr> now = reasm_accept hash r p (frame_payload bs) now"
    by (simp add: reasm_accept_def frame_payload_def)
  moreover have "pl_bytes (frame_payload bs) = bs" by (simp add: frame_payload_def)
  ultimately show ?thesis by (simp add: accept_frame_def split: sum.split option.split RecoveryControl.split)
qed

text \<open>What the two ends of a channel agree on.\<close>

definition channel_ok :: "Crypto \<Rightarrow> Authenticator \<Rightarrow> Authenticator \<Rightarrow> bool" where
  "channel_ok c a b \<longleftrightarrow> same_mode a b \<and> (\<forall>ks. b = Encrypted ks \<longrightarrow> aead_inverse c \<and> aead_tag_length c \<and> aead_key_bound c (set (keys_iter ks)))"

definition rx_ranges :: "SendPorts \<Rightarrow> nat" where
  "rx_ranges ports = max_missing_ranges_for_budget (datagram_payload_budget (sp_framing ports))
     (overhead (sp_authenticator ports)) (max_missing_ranges_per_report (sp_framing ports))"

lemma recv_sealed:
  assumes "channel_ok (se_crypto env) a (sp_authenticator ports)" "ready (net_filter st) sender c lo hi"
    and "all_fresh lo hi (freshness_window (net_filter st)) (rx_wall clk)" "unat (seq_ctr c) + 1 < 2 ^ 64"
    and "lo \<le> ms" "ms \<le> hi" "next_seq c = (seq, c1)" "next_stamp_at c1 ms = (stamp, c2)"
    and "sender \<in> set (net_members st) \<or> length (net_members st) < max_peers"
    and "enabled (net_filter st) \<longleftrightarrow> a \<noteq> Disabled"
    and "length (seal (se_crypto env) nonce a seq stamp frame) \<le> BUFFER_SIZE"
    and "accept_frame (se_hash env) (net_reasm st) sender (frame_payload frame) (rx_ranges ports) (rx_accept clk) (rx_event clk) = (ev, r)"
  shows "\<exists>st'. recv_datagram env ports max_peers sender clk (seal (se_crypto env) nonce a seq stamp frame) st = (event_payload ev, st') \<and>
    net_reasm st' = r \<and> net_members st' = net_members st \<and> ready (net_filter st') sender c2 lo hi \<and>
    freshness_window (net_filter st') = freshness_window (net_filter st) \<and> (enabled (net_filter st') \<longleftrightarrow> a \<noteq> Disabled)"
proof -
  let ?d = "seal (se_crypto env) nonce a seq stamp frame"
  have "map_option check_version (open_datagram (se_crypto env) (sp_authenticator ports) ?d) = Some (Inr (stamped a seq stamp frame))"
    using assms(1) by (intro open_seal) (auto simp: channel_ok_def)
  then obtain p where p: "open_datagram (se_crypto env) (sp_authenticator ports) ?d = Some p"
    "check_version p = Inr (stamped a seq stamp frame)" by auto
  obtain f' where f': "check_and_record (net_filter st) sender seq stamp (rx_wall clk) = (True, f')"
    "ready f' sender c2 lo hi" "freshness_window f' = freshness_window (net_filter st)"
    using ready_step [OF assms(2-8)] by blast
  have en: "enabled f' = enabled (net_filter st)" "\<not> enabled (net_filter st) \<Longrightarrow> f' = net_filter st"
    using f'(1) by (auto simp: check_and_record_def check_and_record_at_def Let_def split: if_splits prod.splits)
  have rep: "verify_replay (net_filter st) (stamped a seq stamp frame) sender (rx_wall clk) = (Some (stamped a seq stamp frame), f')"
    using f'(1) assms(10) en(2)
    by (cases "a = Disabled") (auto simp: verify_replay_def stamped_def check_and_record_def)
  have acc: "accept_frame (se_hash env) (net_reasm st) sender (stamped a seq stamp frame) (rx_ranges ports) (rx_accept clk) (rx_event clk) = (ev, r)"
    using assms(12) by (simp add: stamped_def accept_frame_bytes)
  let ?st = "st\<lparr>net_filter := f', net_reasm := r\<rparr>"
  obtain out st' where h: "handle_event env ports sender (rx_support clk) ev ?st = (out, st')" by fastforce
  have "recv_datagram env ports max_peers sender clk ?d st = (out, st')"
    using assms(9,11) h by (auto simp: recv_datagram_def admit_inbound_def p admits_def rep acc [unfolded rx_ranges_def])
  then show ?thesis using handle_event_frame [OF h] f' en assms(10) by auto
qed

section \<open>Sequences of frames\<close>

fun recv_all ::
  "'p::linorder SendEnv \<Rightarrow> SendPorts \<Rightarrow> nat \<Rightarrow> 'p \<Rightarrow> (RxClock \<times> bytes) list \<Rightarrow> 'p NetState \<Rightarrow> bytes option list \<times> 'p NetState" where
  "recv_all env ports max_peers sender [] st = ([], st)"
| "recv_all env ports max_peers sender ((clk, d) # ds) st =
    (let (out, st') = recv_datagram env ports max_peers sender clk d st;
         (outs, st'') = recv_all env ports max_peers sender ds st'
     in (out # outs, st''))"

fun accept_all ::
  "(bytes \<Rightarrow> 32 arr) \<Rightarrow> 'p::linorder \<Rightarrow> nat \<Rightarrow> (RxClock \<times> bytes) list \<Rightarrow> 'p Reassembler \<Rightarrow> FrameEvent list \<times> 'p Reassembler" where
  "accept_all hash p n [] r = ([], r)"
| "accept_all hash p n ((clk, f) # fs) r =
    (let (ev, r') = accept_frame hash r p (frame_payload f) n (rx_accept clk) (rx_event clk);
         (evs, r'') = accept_all hash p n fs r'
     in (ev # evs, r''))"

lemma accept_all_append:
  "accept_all hash p n (xs @ ys) r =
    (let (evs, r1) = accept_all hash p n xs r; (evs', r2) = accept_all hash p n ys r1 in (evs @ evs', r2))"
  by (induction xs arbitrary: r) (auto simp: Let_def split_beta)

lemma recv_all_sealed:
  assumes "channel_ok (se_crypto env) a (sp_authenticator ports)" "tag_sized tx a" "se_crypto tx = se_crypto env"
    and "\<And>i. lo \<le> se_clock_ms tx i \<and> se_clock_ms tx i \<le> hi"
  shows "length clks = length fs \<Longrightarrow> ready (net_filter st) sender c lo hi \<Longrightarrow>
    list_all (\<lambda>clk. all_fresh lo hi (freshness_window (net_filter st)) (rx_wall clk)) clks \<Longrightarrow>
    unat (seq_ctr c) + length fs < 2 ^ 64 \<Longrightarrow> sender \<in> set (net_members st) \<or> length (net_members st) < max_peers \<Longrightarrow>
    (enabled (net_filter st) \<longleftrightarrow> a \<noteq> Disabled) \<Longrightarrow> list_all (\<lambda>f. length f + overhead a \<le> BUFFER_SIZE) fs \<Longrightarrow>
    fst (recv_all env ports max_peers sender (zip clks (fst (seal_all tx a i c fs))) st) =
      map event_payload (fst (accept_all (se_hash env) sender (rx_ranges ports) (zip clks fs) (net_reasm st)))"
proof (induction fs arbitrary: clks c i st)
  case (Cons f fs)
  obtain clk clks' where clks: "clks = clk # clks'" using Cons.prems(1) by (cases clks) auto
  obtain seq c1 where seq: "next_seq c = (seq, c1)" by fastforce
  obtain stamp c2 where stamp: "next_stamp_at c1 (se_clock_ms tx i) = (stamp, c2)" by fastforce
  obtain ev r where ev: "accept_frame (se_hash env) (net_reasm st) sender (frame_payload f) (rx_ranges ports) (rx_accept clk) (rx_event clk) = (ev, r)"
    by fastforce
  have fresh: "all_fresh lo hi (freshness_window (net_filter st)) (rx_wall clk)" using Cons.prems(3) by (simp add: clks)
  have room: "unat (seq_ctr c) + 1 < 2 ^ 64" using Cons.prems(4) by simp
  have fit: "length (seal (se_crypto env) (se_nonce tx i) a seq stamp f) \<le> BUFFER_SIZE"
    using assms(2,3) Cons.prems(7) by (subst length_seal) (auto simp: tag_sized_def)
  obtain st' where st': "recv_datagram env ports max_peers sender clk (seal (se_crypto env) (se_nonce tx i) a seq stamp f) st = (event_payload ev, st')"
    "net_reasm st' = r" "net_members st' = net_members st" "ready (net_filter st') sender c2 lo hi"
    "freshness_window (net_filter st') = freshness_window (net_filter st)" "enabled (net_filter st') \<longleftrightarrow> a \<noteq> Disabled"
    using recv_sealed [OF assms(1) Cons.prems(2) fresh room _ _ seq stamp Cons.prems(5,6) fit ev] assms(4) by blast
  have "seq_ctr c2 = seq_ctr c + 1" using seq stamp by (auto simp: next_seq_def next_stamp_at_def)
  then have "unat (seq_ctr c2) + length fs < 2 ^ 64" using u64_Suc_less [OF room] Cons.prems(4) by simp
  then have "fst (recv_all env ports max_peers sender (zip clks' (fst (seal_all tx a (i + 1) c2 fs))) st') =
      map event_payload (fst (accept_all (se_hash env) sender (rx_ranges ports) (zip clks' fs) r))"
    using Cons.prems st' by (subst Cons.IH) (simp_all add: clks)
  then show ?case by (simp add: clks seq stamp ev st'(1) assms(3) Let_def split_beta)
qed simp

section \<open>The frames of one payload\<close>

lemma frame_not_control: "parse_recovery_control (FRAGMENT_TAG # rest) n = Inr None" "parse_recovery_control (COMPLETE_TAG # rest) n = Inr None"
  by (simp_all add: parse_recovery_control_def frame_consts MISSING_REPORT_TAG_def COMPLETION_ACK_TAG_def)

lemma accept_complete:
  fixes p :: "'p::linorder"
  assumes "length m \<le> max_logical_message_size lim"
  shows "accept_frame hash (for_identity lim) p (frame_payload (write_complete m)) n now now' = (EvLogical m None, for_identity lim)"
proof -
  have "reasm_accept hash (for_identity lim) p (frame_payload (write_complete m)) now =
      (reasm_report (for_identity lim :: 'p Reassembler) (Inr (Complete m)) 0 0 False, for_identity lim)"
    using assms by (simp add: reasm_accept_def expire_empty frame_payload_def write_complete_def COMPLETE_HEADER_LEN_def)
      (simp add: for_identity_def)
  moreover have "fragment_metadata (write_complete m) = None" by (simp add: fragment_metadata_def write_complete_def frame_consts)
  ultimately show ?thesis
    by (simp add: accept_frame_def frame_payload_def) (simp add: write_complete_def frame_not_control reasm_report_def)
qed

definition generous :: "ReassemblyLimits \<Rightarrow> bool" where
  "generous lim \<longleftrightarrow>
    1 \<le> max_incomplete_transfers_per_peer lim \<and> max_logical_message_size lim \<le> max_reassembly_bytes_per_peer lim \<and>
    max_logical_message_size lim \<le> max_total_reassembly_bytes lim \<and> max_logical_message_size lim < 2 ^ 32"

lemma chunk_metadata:
  assumes "0 < cap" "i < chunk_count cap m" "length m < 2 ^ 32" "chunk_frame hash cap m i = Inr frame"
  shows "fragment_metadata frame = Some \<lparr>fm_transfer_id = hash m, fm_total_len = length m, fm_offset = i * cap,
    fm_payload_len = length (chunk cap m i)\<rparr>"
proof -
  note pw = parse_write_fragment [OF assms(4) [unfolded chunk_frame_def]]
  have "length frame = FRAGMENT_HEADER_LEN + length (chunk cap m i)"
    using length_write_fragment [OF assms(4) [unfolded chunk_frame_def]] .
  moreover have "chunk cap m i \<noteq> []" using chunk_nonempty [OF assms(1), of i m] assms(1,2) by (simp add: chunk_def)
  ultimately show ?thesis using pw(2,3) by (auto simp: fragment_metadata_def parse_fragment_def transfer_id_def)
qed

lemma chunk_not_terminal:
  assumes "0 < cap" "Suc i < chunk_count cap m"
  shows "\<not> is_terminal \<lparr>fm_transfer_id = tid, fm_total_len = length m, fm_offset = i * cap, fm_payload_len = length (chunk cap m i)\<rparr>"
proof -
  have "Suc i * cap < length m" using chunk_nonempty [OF assms(1), of "Suc i" m] assms(2) by simp
  then have "i * cap + length (chunk cap m i) < length m" by (simp add: chunk_def)
  then show ?thesis by (auto simp: is_terminal_def checked_add_def)
qed

lemma accept_frame_chunk:
  fixes p :: "'p::linorder"
  assumes "0 < cap" "i < chunk_count cap m" "length m < 2 ^ 32" "chunk_frame hash cap m i = Inr frame"
    and "reasm_accept hash r p (frame_payload frame) now = (let (res, r') = fk in (reasm_report (r' :: 'p Reassembler) res 0 0 True, r'))"
  shows "fk = (Inr (Complete m), r1) \<Longrightarrow> accept_frame hash r p (frame_payload frame) n now now' = (EvLogical m (Some (hash m)), r1)"
    "fk = (Inr Pending, r1) \<Longrightarrow> Suc i < chunk_count cap m \<Longrightarrow> accept_frame hash r p (frame_payload frame) n now now' = (EvPending, r1)"
proof -
  obtain rest where "frame = FRAGMENT_TAG # rest" using parse_write_fragment(2) [OF assms(4) [unfolded chunk_frame_def]] by blast
  then have ctl: "parse_recovery_control frame n = Inr None" by (simp add: frame_not_control)
  have bs: "pl_bytes (frame_payload frame) = frame" by (simp add: frame_payload_def)
  show "fk = (Inr (Complete m), r1) \<Longrightarrow> accept_frame hash r p (frame_payload frame) n now now' = (EvLogical m (Some (hash m)), r1)"
    using assms(5) by (simp add: accept_frame_def bs ctl chunk_metadata [OF assms(1-4)] reasm_report_def)
  show "accept_frame hash r p (frame_payload frame) n now now' = (EvPending, r1)" if "fk = (Inr Pending, r1)" "Suc i < chunk_count cap m"
    using assms(5) that chunk_not_terminal [OF assms(1) that(2)]
    by (simp add: accept_frame_def bs ctl chunk_metadata [OF assms(1-4)] reasm_report_def pending_fragment_event_def)
qed

text \<open>The clocks of the frames of one payload lie within the inactivity time-to-live.\<close>

definition timely :: "instant \<Rightarrow> duration \<Rightarrow> RxClock \<Rightarrow> bool" where
  "timely t0 ttl clk \<longleftrightarrow> t0 \<le> rx_accept clk \<and> rx_accept clk < t0 + ttl"

lemma finish_cases:
  assumes "holds_chunks lim cap m {..<Suc i} t'" "0 < cap" "i < chunk_count cap m"
  shows "Suc i = chunk_count cap m \<Longrightarrow> finish_or_keep hash lim p (hash m) t' = (Inr (Complete m), for_identity lim)"
    "Suc i < chunk_count cap m \<Longrightarrow> finish_or_keep hash lim p (hash m) t' = (Inr Pending, single lim p (hash m) t')"
proof -
  have len: "total_len t' = length m" using assms(1) by (simp add: holds_chunks_def)
  show "finish_or_keep hash lim p (hash m) t' = (Inr (Complete m), for_identity lim)" if "Suc i = chunk_count cap m"
    using holds_full [OF assms(1,2)] assembled_full [of lim cap m t'] assms(1,2) that by (simp add: finish_or_keep_def len)
  show "finish_or_keep hash lim p (hash m) t' = (Inr Pending, single lim p (hash m) t')" if "Suc i < chunk_count cap m"
    using holds_full [OF assms(1,2)] that by (auto simp: finish_or_keep_def len)
qed

lemma accept_rest:
  fixes p :: "'p::linorder"
  assumes "0 < cap" "roomy lim cap m"
  shows "holds_chunks lim cap m {..<i} t \<Longrightarrow> t0 \<le> last_activity t \<Longrightarrow> i < chunk_count cap m \<Longrightarrow>
    length clks = chunk_count cap m - i \<Longrightarrow> list_all (timely t0 (reassembly_ttl lim)) clks \<Longrightarrow>
    accept_all hash p n (zip clks (map (\<lambda>i. projr (chunk_frame hash cap m i)) [i..<chunk_count cap m])) (single lim p (hash m) t) =
      (replicate (chunk_count cap m - Suc i) EvPending @ [EvLogical m (Some (hash m))], for_identity lim)"
proof (induction "chunk_count cap m - i" arbitrary: i t clks)
  case (Suc k)
  obtain clk clks' where clks: "clks = clk # clks'" using Suc.prems(3,4) by (cases clks) auto
  have upt: "[i..<chunk_count cap m] = i # [Suc i..<chunk_count cap m]" using Suc.prems(3) by (simp add: upt_conv_Cons)
  obtain frame where frame: "chunk_frame hash cap m i = Inr frame"
    using chunk_frame_ok [OF assms(1) Suc.prems(3)] assms(2) by (auto simp: roomy_def)
  define t' where "t' = transfer_insert t (chunk_fragment hash cap m i) (rx_accept clk)"
  have tm: "t0 \<le> rx_accept clk" "rx_accept clk - last_activity t < reassembly_ttl lim"
    using Suc.prems(2,5) by (auto simp: clks timely_def)
  have bs: "pl_bytes (frame_payload frame) = projr (chunk_frame hash cap m i)" by (simp add: frame_payload_def frame)
  note acc = reasm_accept_more [OF assms Suc.prems(1,3) _ tm(2) t'_def bs]
  have h: "holds_chunks lim cap m {..<Suc i} t'" using acc(2) by (simp add: lessThan_Suc)
  have small: "length m < 2 ^ 32" using assms(2) by (simp add: roomy_def)
  note step = accept_frame_chunk [OF assms(1) Suc.prems(3) small frame acc(1) [of p]]
  show ?case
  proof (cases "Suc i = chunk_count cap m")
    case True
    then have "chunk_count cap m - i = 1" by arith
    then have "clks' = []" using Suc.prems(4) by (simp add: clks)
    then show ?thesis using step(1) [OF _ finish_cases(1) [OF h assms(1) Suc.prems(3) True]] True
      by (simp add: clks upt frame)
  next
    case False
    then have less: "Suc i < chunk_count cap m" using Suc.prems(3) by simp
    have "last_activity t' = rx_accept clk" by (simp add: t'_def transfer_insert_def)
    then have IH: "accept_all hash p n (zip clks' (map (\<lambda>i. projr (chunk_frame hash cap m i)) [Suc i..<chunk_count cap m])) (single lim p (hash m) t') =
        (replicate (chunk_count cap m - Suc (Suc i)) EvPending @ [EvLogical m (Some (hash m))], for_identity lim)"
      using Suc.hyps(2) Suc.prems(4,5) less tm(1) by (intro Suc.hyps(1) [OF _ h]) (auto simp: clks)
    have "chunk_count cap m - Suc i = Suc (chunk_count cap m - Suc (Suc i))" using less by simp
    then show ?thesis using step(2) [OF _ finish_cases(2) [OF h assms(1) Suc.prems(3) less] less] IH
      by (simp add: clks upt frame)
  qed
qed simp

lemma accept_chunks:
  fixes p :: "'p::linorder"
  assumes "0 < cap" "roomy lim cap m" "m \<noteq> []" "length clks = chunk_count cap m"
    and "list_all (timely t0 (reassembly_ttl lim)) clks"
  shows "accept_all hash p n (zip clks (map (\<lambda>i. projr (chunk_frame hash cap m i)) [0..<chunk_count cap m])) (for_identity lim) =
      (replicate (chunk_count cap m - 1) EvPending @ [EvLogical m (Some (hash m))], for_identity lim)"
proof -
  have pos: "0 < chunk_count cap m" using chunk_nonempty [OF assms(1), of 0 m] assms(3) by simp
  obtain clk clks' where clks: "clks = clk # clks'" using pos assms(4) by (cases clks) auto
  have upt: "[0..<chunk_count cap m] = 0 # [1..<chunk_count cap m]" using pos by (simp add: upt_conv_Cons)
  obtain frame where frame: "chunk_frame hash cap m 0 = Inr frame"
    using chunk_frame_ok [OF assms(1) pos] assms(2) by (auto simp: roomy_def)
  define t' where "t' = transfer_insert (transfer_new (length m) (rx_accept clk)) (chunk_fragment hash cap m 0) (rx_accept clk)"
  have bs: "pl_bytes (frame_payload frame) = projr (chunk_frame hash cap m 0)" by (simp add: frame_payload_def frame)
  note acc = reasm_accept_first [OF assms(1,2) pos t'_def bs]
  have h: "holds_chunks lim cap m {..<Suc 0} t'" using acc(2) by (simp add: lessThan_Suc)
  have small: "length m < 2 ^ 32" using assms(2) by (simp add: roomy_def)
  note step = accept_frame_chunk [OF assms(1) pos small frame acc(1) [of p]]
  show ?thesis
  proof (cases "Suc 0 = chunk_count cap m")
    case True
    then have one: "chunk_count cap m = 1" by simp
    then have "clks' = []" using assms(4) by (simp add: clks)
    then show ?thesis using step(1) [OF finish_cases(1) [OF h assms(1) pos True]] one by (simp add: clks frame)
  next
    case False
    then have less: "Suc 0 < chunk_count cap m" using pos by simp
    have len: "length clks' = chunk_count cap m - Suc 0" using assms(4) by (simp add: clks)
    have "last_activity t' = rx_accept clk" by (simp add: t'_def transfer_insert_def)
    then have rest: "accept_all hash p n (zip clks' (map (\<lambda>i. projr (chunk_frame hash cap m i)) [1..<chunk_count cap m])) (single lim p (hash m) t') =
        (replicate (chunk_count cap m - 2) EvPending @ [EvLogical m (Some (hash m))], for_identity lim)"
      using accept_rest [OF assms(1,2) h, of t0 clks'] less len assms(5) by (simp add: clks timely_def numeral_2_eq_2)
    have "chunk_count cap m - 1 = Suc (chunk_count cap m - 2)" using less by simp
    then show ?thesis using step(2) [OF finish_cases(2) [OF h assms(1) pos less] less] rest
      by (simp add: clks upt frame)
  qed
qed

text \<open>A payload the sender can carry: it is not empty and passes the length and fragment-count checks.\<close>

definition carried :: "Authenticator \<Rightarrow> FramingConfig \<Rightarrow> bytes \<Rightarrow> bool" where
  "carried a cfg m \<longleftrightarrow> m \<noteq> [] \<and> length m \<le> max_logical_message_size cfg \<and>
    (\<forall>cap fcap. capacities a cfg = Some (cap, fcap) \<longrightarrow> length m \<le> cap \<or> chunk_count fcap m \<le> max_fragments_per_message cfg)"

lemma accept_payload:
  fixes p :: "'p::linorder"
  assumes "capacities a cfg = Some (cap, fcap)" "0 < fcap" "generous (reassembly_limits cfg)" "carried a cfg m"
    and "length clks = length (frames_of a cfg hash m)" "list_all (timely t0 (reassembly_ttl cfg)) clks"
  shows "\<exists>tid. accept_all hash p n (zip clks (frames_of a cfg hash m)) (for_identity (reassembly_limits cfg)) =
    (replicate (length (frames_of a cfg hash m) - 1) EvPending @ [EvLogical m tid], for_identity (reassembly_limits cfg))"
proof (cases "length m \<le> cap")
  case True
  then have fs: "frames_of a cfg hash m = [write_complete m]" using assms(1,4) by (simp add: frames_of_def carried_def)
  then obtain clk where "clks = [clk]" using assms(5) by (auto simp: length_Suc_conv)
  moreover have "length m \<le> max_logical_message_size (reassembly_limits cfg)"
    using assms(4) by (simp add: carried_def reassembly_limits_def)
  ultimately show ?thesis by (simp add: fs accept_complete)
next
  case False
  then have count: "chunk_count fcap m \<le> max_fragments_per_message cfg" using assms(1,4) by (simp add: carried_def)
  then have fs: "frames_of a cfg hash m = map (\<lambda>i. projr (chunk_frame hash fcap m i)) [0..<chunk_count fcap m]"
    using False assms(1,2,4) by (simp add: frames_of_def carried_def)
  have "roomy (reassembly_limits cfg) fcap m"
    using assms(3,4) count by (auto simp: roomy_def generous_def carried_def reassembly_limits_def)
  from accept_chunks [OF assms(2) this, of clks t0 hash p n] assms(4-6) fs
  show ?thesis by (auto simp: carried_def reassembly_limits_def)
qed

definition payloads_of :: "FrameEvent list \<Rightarrow> bytes list" where
  "payloads_of evs = List.map_filter event_payload evs"

lemma payloads_of_simps [simp]:
  "payloads_of [] = []" "payloads_of (xs @ ys) = payloads_of xs @ payloads_of ys"
  "payloads_of (EvLogical m tid # evs) = m # payloads_of evs" "payloads_of (replicate k EvPending) = []"
  by (auto simp: payloads_of_def List.map_filter_def event_payload_def)

lemma accept_payloads:
  fixes p :: "'p::linorder"
  assumes "capacities a cfg = Some (cap, fcap)" "0 < fcap" "generous (reassembly_limits cfg)"
  shows "list_all (carried a cfg) ms \<Longrightarrow> length clks = length (concat (map (frames_of a cfg hash) ms)) \<Longrightarrow>
    list_all (timely t0 (reassembly_ttl cfg)) clks \<Longrightarrow>
    \<exists>evs. accept_all hash p n (zip clks (concat (map (frames_of a cfg hash) ms))) (for_identity (reassembly_limits cfg)) =
      (evs, for_identity (reassembly_limits cfg)) \<and> payloads_of evs = ms"
proof (induction ms arbitrary: clks)
  case (Cons m ms)
  let ?k = "length (frames_of a cfg hash m)"
  obtain tid where one: "accept_all hash p n (zip (take ?k clks) (frames_of a cfg hash m)) (for_identity (reassembly_limits cfg)) =
      (replicate (?k - 1) EvPending @ [EvLogical m tid], for_identity (reassembly_limits cfg))"
    using accept_payload [OF assms, of m "take ?k clks" hash t0 p n] Cons.prems by (auto simp: list_all_iff dest: in_set_takeD)
  obtain evs where rest: "accept_all hash p n (zip (drop ?k clks) (concat (map (frames_of a cfg hash) ms))) (for_identity (reassembly_limits cfg)) =
      (evs, for_identity (reassembly_limits cfg))" "payloads_of evs = ms"
    using Cons.IH [of "drop ?k clks"] Cons.prems by (auto simp: list_all_iff dest: in_set_dropD)
  have "zip clks (concat (map (frames_of a cfg hash) (m # ms))) =
      zip (take ?k clks) (frames_of a cfg hash m) @ zip (drop ?k clks) (concat (map (frames_of a cfg hash) ms))"
    by (simp add: zip_append2)
  then show ?case by (simp add: accept_all_append one rest)
qed simp

section \<open>The messages of a batch\<close>

text \<open>A batch is cut between messages: each payload is a group of whole messages, within the capacity
  of one datagram or a single message.\<close>

definition group_ok :: "('m \<Rightarrow> bytes) \<Rightarrow> nat \<Rightarrow> 'm list \<Rightarrow> 'm list \<Rightarrow> bool" where
  "group_ok enc cap ms g \<longleftrightarrow> g \<noteq> [] \<and> set g \<subseteq> set ms \<and> (length (concat (map enc g)) \<le> cap \<or> length g = 1)"

lemma group_ok_mono: "group_ok enc cap ms g \<Longrightarrow> set ms \<subseteq> set ns \<Longrightarrow> group_ok enc cap ns g"
  by (auto simp: group_ok_def)

lemma pack_groups:
  assumes "\<And>m. enc m \<noteq> []"
  shows "pre = [] \<or> group_ok enc cap pre pre \<Longrightarrow>
    \<exists>gs. pack cap (concat (map enc pre)) (map enc ms) = map (\<lambda>g. concat (map enc g)) gs \<and> concat gs = pre @ ms \<and>
      list_all (group_ok enc cap (pre @ ms)) gs"
proof (induction ms arbitrary: pre)
  case Nil
  show ?case
  proof (cases "pre = []")
    case False
    then have "concat (map enc pre) \<noteq> []" using assms by (cases pre) auto
    then show ?thesis using Nil False by (intro exI [of _ "[pre]"]) simp
  qed simp
next
  case (Cons m ms)
  let ?flushed = "if concat (map enc pre) = [] then [] else [concat (map enc pre)]"
  have flushed: "?flushed = map (\<lambda>g. concat (map enc g)) (if pre = [] then [] else [pre])" using assms by (cases pre) auto
  have pre: "list_all (group_ok enc cap (pre @ m # ms)) (if pre = [] then [] else [pre])"
    using Cons.prems group_ok_mono [of enc cap pre pre "pre @ m # ms"] by auto
  have one: "group_ok enc cap (pre @ m # ms) [m]" by (simp add: group_ok_def)
  show ?case
  proof (cases "length (concat (map enc pre) @ enc m) \<le> cap")
    case True
    then have "group_ok enc cap (pre @ [m]) (pre @ [m])" by (simp add: group_ok_def)
    with Cons.IH [of "pre @ [m]"] True show ?thesis by simp
  next
    case False
    define next_pre where "next_pre = (if length (enc m) \<le> cap then [m] else [])"
    have "next_pre = [] \<or> group_ok enc cap next_pre next_pre" by (simp add: next_pre_def group_ok_def)
    from Cons.IH [OF this] obtain gs where gs: "pack cap (concat (map enc next_pre)) (map enc ms) = map (\<lambda>g. concat (map enc g)) gs"
      "concat gs = next_pre @ ms" "list_all (group_ok enc cap (next_pre @ ms)) gs" by blast
    have sub: "set (next_pre @ ms) \<subseteq> set (pre @ m # ms)" by (auto simp: next_pre_def)
    have "list_all (group_ok enc cap (pre @ m # ms)) gs"
      using gs(3) group_ok_mono [OF _ sub] by (auto simp: list_all_iff)
    then show ?thesis using False gs(1,2) flushed pre one
      by (intro exI [of _ "(if pre = [] then [] else [pre]) @ (if length (enc m) \<le> cap then [] else [[m]]) @ gs"])
        (auto simp: next_pre_def)
  qed
qed

definition announced :: "FramingConfig \<Rightarrow> ('agg, 'k, 'v, 's) Message list" where
  "announced cfg = (if selective_recovery cfg then [Reserved6 SELECTIVE_RECOVERY_CAPABILITY] else [])"

lemma append_capability_announced: "append_capability enc cfg [] = concat (map enc (announced cfg))"
  by (simp add: append_capability_def announced_def)

lemma batch_groups:
  assumes "codec_ok enc dec" "capacities (sp_authenticator ports) (sp_framing ports) = Some (cap, fcap)"
  shows "\<exists>gs. send_messages_paced env ports peer enc ms st = send_each env ports peer (map (\<lambda>g. concat (map enc g)) gs) st \<and>
    concat gs = announced (sp_framing ports) @ ms \<and> list_all (group_ok enc cap (announced (sp_framing ports) @ ms)) gs"
proof -
  let ?pre = "announced (sp_framing ports)"
  have "?pre = [] \<or> group_ok enc cap ?pre ?pre" by (simp add: announced_def group_ok_def)
  from pack_groups [OF codec_nonempty [OF assms(1)] this, of ms] send_messages_pack [OF assms(2), of env peer enc ms st]
  show ?thesis by (auto simp: append_capability_announced)
qed

lemma group_carried:
  assumes "codec_ok enc dec" "capacities a cfg = Some (cap, fcap)" "group_ok enc cap ms g"
    and "list_all (\<lambda>m. carried a cfg (enc m)) ms"
  shows "carried a cfg (concat (map enc g))"
proof -
  have ne: "concat (map enc g) \<noteq> []" using codec_nonempty [OF assms(1)] assms(3) by (cases g) (auto simp: group_ok_def)
  show ?thesis
  proof (cases "length (concat (map enc g)) \<le> cap")
    case True
    then show ?thesis using ne assms(2) capacities_Some(3) [OF assms(2)] by (simp add: carried_def)
  next
    case False
    then have "length g = 1" using assms(3) by (simp add: group_ok_def)
    then obtain m where "g = [m]" by (auto simp: length_Suc_conv)
    then show ?thesis using assms(3,4) by (auto simp: group_ok_def list_all_iff)
  qed
qed

lemma group_decodes:
  assumes "codec_ok enc dec" "group_ok enc cap ms g" "cap \<le> BUFFER_SIZE"
  shows "decode_stream dec MAX_MESSAGES_PER_DATAGRAM (concat (map enc g)) = Inr g"
proof (rule decode_stream_mono [OF assms(1)])
  show "length g \<le> MAX_MESSAGES_PER_DATAGRAM"
    using assms(2,3) length_concat_enc [OF assms(1), of g] by (auto simp: group_ok_def MAX_MESSAGES_PER_DATAGRAM_def BUFFER_SIZE_def)
qed

lemma frames_fit:
  assumes "framing_validate cfg (overhead a) = Inr ()" "f \<in> set (frames_of a cfg hash m)"
  shows "length f + overhead a \<le> datagram_payload_budget cfg"
proof -
  obtain cap fcap where caps: "capacities a cfg = Some (cap, fcap)"
    using assms(2) by (cases "capacities a cfg") (auto simp: frames_of_def)
  have small: "max_logical_message_size cfg < 2 ^ 32" using framing_validate_ok(3) [OF assms(1)] .
  note fit = capacities_Some [OF caps]
  consider "f = write_complete m" "length m \<le> cap"
    | i where "f = projr (chunk_frame hash fcap m i)" "i < chunk_count fcap m" "0 < fcap" "length m \<le> max_logical_message_size cfg"
    using assms(2) caps by (auto simp: frames_of_def split: if_splits)
  then show ?thesis
  proof cases
    case 1
    then show ?thesis using fit(1) by (simp add: write_complete_def COMPLETE_HEADER_LEN_def)
  next
    case 2
    obtain frame where frame: "chunk_frame hash fcap m i = Inr frame"
      using chunk_frame_ok [OF 2(3,2), of hash] 2(4) small by auto
    then show ?thesis using length_write_fragment [OF frame [unfolded chunk_frame_def]] fit(2) 2(1) by (simp add: chunk_def)
  qed
qed

section \<open>A link\<close>

text \<open>What a sender and a receiver need of each other: matching keys, a validated framing policy whose
  budgets leave room for one message, a working transport, a replay filter that is on exactly when
  the channel is authenticated and that has room for the sender or knows only older numbers.\<close>

definition link_ok ::
  "'p SendEnv \<Rightarrow> SendPorts \<Rightarrow> 'p SendState \<Rightarrow> 'p \<Rightarrow> 'p SendEnv \<Rightarrow> SendPorts \<Rightarrow> nat \<Rightarrow> 'p NetState \<Rightarrow> 'p \<Rightarrow> Stamp \<Rightarrow> Stamp \<Rightarrow> bool" where
  "link_ok env ports st peer renv rports max_peers rst sender lo hi \<longleftrightarrow>
    se_crypto env = se_crypto renv \<and> se_hash env = se_hash renv \<and>
    channel_ok (se_crypto renv) (sp_authenticator ports) (sp_authenticator rports) \<and> tag_sized env (sp_authenticator ports) \<and>
    framing_validate (sp_framing ports) (overhead (sp_authenticator ports)) = Inr () \<and>
    generous (reassembly_limits (sp_framing ports)) \<and> net_reasm rst = for_identity (reassembly_limits (sp_framing ports)) \<and>
    transport_up env \<and> uncapable peer st \<and> (\<forall>i. lo \<le> se_clock_ms env i \<and> se_clock_ms env i \<le> hi) \<and>
    ready (net_filter rst) sender (sender_counter st) lo hi \<and>
    (enabled (net_filter rst) \<longleftrightarrow> sp_authenticator ports \<noteq> Disabled) \<and>
    (sender \<in> set (net_members rst) \<or> length (net_members rst) < max_peers)"

definition delivered ::
  "'p::linorder SendEnv \<Rightarrow> SendPorts \<Rightarrow> nat \<Rightarrow> 'p \<Rightarrow> RxClock list \<Rightarrow> bytes list \<Rightarrow> 'p NetState \<Rightarrow> bytes list" where
  "delivered env ports max_peers sender clks ds st =
    List.map_filter id (fst (recv_all env ports max_peers sender (zip clks ds) st))"

lemma validated_capacities:
  assumes "framing_validate cfg (overhead a) = Inr ()"
  shows "\<exists>cap fcap. capacities a cfg = Some (cap, fcap) \<and> 0 < fcap \<and> cap \<le> BUFFER_SIZE"
  using framing_validate_ok [OF assms]
  by (auto simp: capacities_def complete_payload_capacity_def fragment_payload_capacity_def checked_sub_def frame_consts
      BUFFER_SIZE_def MAX_UDP_PAYLOAD_def)

lemma map_filter_event: "List.map_filter id (map event_payload evs) = payloads_of evs"
  by (induction evs) (auto simp: payloads_of_def List.map_filter_def)

lemma payloads_delivered:
  assumes "link_ok env ports st peer renv rports max_peers rst sender lo hi" "st' = send_each env ports peer ps st"
    and "list_all (carried (sp_authenticator ports) (sp_framing ports)) ps"
    and "length clks = length (wire_sent st st')" "unat (seq_ctr (sender_counter st)) + length (wire_sent st st') < 2 ^ 64"
    and "list_all (\<lambda>clk. all_fresh lo hi (freshness_window (net_filter rst)) (rx_wall clk)) clks"
    and "list_all (timely t0 (reassembly_ttl (sp_framing ports))) clks"
  shows "delivered renv rports max_peers sender clks (wire_sent st st') rst = ps"
proof -
  note link = assms(1) [unfolded link_ok_def]
  let ?fs = "concat (map (frames_of (sp_authenticator ports) (sp_framing ports) (se_hash env)) ps)"
  have wire: "wire_sent st st' = fst (seal_all env (sp_authenticator ports) (sealed_count st) (sender_counter st) ?fs)"
    using sent_each [of env peer st ports ps] link unfolding assms(2) by (intro sent_wire) simp
  then have len: "length clks = length ?fs" using assms(4) by simp
  obtain cap fcap where caps: "capacities (sp_authenticator ports) (sp_framing ports) = Some (cap, fcap)" "0 < fcap"
    using validated_capacities link by blast
  obtain evs where evs: "accept_all (se_hash env) sender (rx_ranges rports) (zip clks ?fs) (for_identity (reassembly_limits (sp_framing ports))) =
      (evs, for_identity (reassembly_limits (sp_framing ports)))" "payloads_of evs = ps"
    using accept_payloads [OF caps, of ps clks "se_hash env" t0 sender "rx_ranges rports"] link assms(3,7) len by blast
  have fit: "list_all (\<lambda>f. length f + overhead (sp_authenticator ports) \<le> BUFFER_SIZE) ?fs"
    using frames_fit [of "sp_framing ports" "sp_authenticator ports"] framing_validate_ok(2) [of "sp_framing ports"] link
    by (fastforce simp: list_all_iff BUFFER_SIZE_def MAX_UDP_PAYLOAD_def)
  have "fst (recv_all renv rports max_peers sender (zip clks (wire_sent st st')) rst) = map event_payload evs"
    unfolding wire
    using recv_all_sealed [of renv "sp_authenticator ports" rports env lo hi clks ?fs rst sender "sender_counter st" max_peers "sealed_count st"]
      link len assms(5,6) fit evs(1) by (simp add: wire)
  then show ?thesis by (simp add: delivered_def map_filter_event evs(2))
qed

section \<open>Repair retries end\<close>

text \<open>The peers retried at a sequence of ticks with no new repair and no answer in between.\<close>

fun repair_run :: "duration \<Rightarrow> instant list \<Rightarrow> ('p, PendingRepair) kv \<Rightarrow> 'p list \<times> ('p, PendingRepair) kv" where
  "repair_run interval [] m = ([], m)"
| "repair_run interval (now # nows) m =
    (let (due, m1) = retry_due_repairs now interval m; (due', m2) = repair_run interval nows m1 in (due @ due', m2))"

definition retried :: "instant \<Rightarrow> duration \<Rightarrow> PendingRepair \<Rightarrow> nat \<times> PendingRepair option" where
  "retried now interval r =
    (if now < deadline r then (0, Some r)
     else if MAX_REPAIR_ATTEMPTS < attempts r + 1 then (0, None)
     else (1, Some \<lparr>deadline = now + interval, attempts = attempts r + 1\<rparr>))"

lemma retry_due_peer:
  assumes "keys_distinct m" "retry_due_repairs now interval m = (due, m')"
  shows "keys_distinct m'" "set due \<subseteq> fst ` set m" "set (map fst m') \<subseteq> fst ` set m"
    "map_of m' p = (case map_of m p of None \<Rightarrow> None | Some r \<Rightarrow> snd (retried now interval r))"
    "count_list due p = (case map_of m p of None \<Rightarrow> 0 | Some r \<Rightarrow> fst (retried now interval r))"
proof -
  have "keys_distinct m' \<and> set due \<subseteq> fst ` set m \<and> set (map fst m') \<subseteq> fst ` set m \<and>
      map_of m' p = (case map_of m p of None \<Rightarrow> None | Some r \<Rightarrow> snd (retried now interval r)) \<and>
      count_list due p = (case map_of m p of None \<Rightarrow> 0 | Some r \<Rightarrow> fst (retried now interval r))"
    using assms
  proof (induction m arbitrary: due m')
    case (Cons e m)
    obtain q r where e: "e = (q, r)" by (cases e)
    obtain due1 m1 where rest: "retry_due_repairs now interval m = (due1, m1)" by fastforce
    have fresh: "q \<notin> fst ` set m" "keys_distinct m" using Cons.prems(1) by (auto simp: e)
    then have none: "map_of m q = None" by (simp add: map_of_eq_None_iff)
    note IH = Cons.IH [OF fresh(2) rest]
    have "q \<notin> fst ` set m1" "q \<notin> set due1" using IH fresh(1) by auto
    then have absent: "map_of m1 q = None" "count_list due1 q = 0" by (simp_all add: map_of_eq_None_iff)
    consider "now < deadline r" "due = due1" "m' = e # m1"
      | "\<not> now < deadline r" "MAX_REPAIR_ATTEMPTS < attempts r + 1" "due = due1" "m' = m1"
      | "\<not> now < deadline r" "\<not> MAX_REPAIR_ATTEMPTS < attempts r + 1" "due = q # due1"
        "m' = (q, \<lparr>deadline = now + interval, attempts = attempts r + 1\<rparr>) # m1"
      using Cons.prems(2) by (auto simp: e rest split: if_splits)
    then show ?case using IH fresh none absent by cases (auto simp: e retried_def)
  qed simp
  then show "keys_distinct m'" "set due \<subseteq> fst ` set m" "set (map fst m') \<subseteq> fst ` set m"
    "map_of m' p = (case map_of m p of None \<Rightarrow> None | Some r \<Rightarrow> snd (retried now interval r))"
    "count_list due p = (case map_of m p of None \<Rightarrow> 0 | Some r \<Rightarrow> fst (retried now interval r))" by blast+
qed

lemma repair_run_bounded:
  "keys_distinct m \<Longrightarrow>
    count_list (fst (repair_run interval nows m)) p \<le> (case map_of m p of None \<Rightarrow> 0 | Some r \<Rightarrow> MAX_REPAIR_ATTEMPTS - attempts r)"
proof (induction nows arbitrary: m)
  case (Cons now nows)
  obtain due m1 where one: "retry_due_repairs now interval m = (due, m1)" by fastforce
  note step = retry_due_peer(1) [OF Cons.prems one] retry_due_peer(4,5) [OF Cons.prems one, of p]
  show ?case using Cons.IH [OF step(1)] step(2,3)
    by (cases "map_of m p") (auto simp: one Let_def split_beta retried_def split: if_splits)
qed simp

text \<open>Ticks that each come after the deadline the previous one set.\<close>

fun spaced :: "instant \<Rightarrow> duration \<Rightarrow> instant list \<Rightarrow> bool" where
  "spaced d interval [] \<longleftrightarrow> True"
| "spaced d interval (now # nows) \<longleftrightarrow> d \<le> now \<and> spaced (now + interval) interval nows"

lemma repair_run_gone: "keys_distinct m \<Longrightarrow> map_of m p = None \<Longrightarrow>
    map_of (snd (repair_run interval nows m)) p = None \<and> count_list (fst (repair_run interval nows m)) p = 0"
proof (induction nows arbitrary: m)
  case (Cons now nows)
  obtain due m1 where one: "retry_due_repairs now interval m = (due, m1)" by fastforce
  note step = retry_due_peer(1) [OF Cons.prems(1) one] retry_due_peer(4,5) [OF Cons.prems(1) one, of p]
  show ?case using Cons.IH [OF step(1)] step(2,3) Cons.prems(2) by (simp add: one Let_def split_beta)
qed simp

lemma repair_run_spaced:
  "keys_distinct m \<Longrightarrow> map_of m p = Some r \<Longrightarrow> attempts r \<le> MAX_REPAIR_ATTEMPTS \<Longrightarrow> spaced (deadline r) interval nows \<Longrightarrow>
    count_list (fst (repair_run interval nows m)) p = min (length nows) (MAX_REPAIR_ATTEMPTS - attempts r) \<and>
    (MAX_REPAIR_ATTEMPTS - attempts r < length nows \<longrightarrow> map_of (snd (repair_run interval nows m)) p = None)"
proof (induction nows arbitrary: m r)
  case (Cons now nows)
  obtain due m1 where one: "retry_due_repairs now interval m = (due, m1)" by fastforce
  note step = retry_due_peer(1) [OF Cons.prems(1) one] retry_due_peer(4,5) [OF Cons.prems(1) one, of p]
  show ?case
  proof (cases "attempts r = MAX_REPAIR_ATTEMPTS")
    case True
    then show ?thesis using step(2,3) repair_run_gone [OF step(1), of p] Cons.prems(2,4)
      by (simp add: one Let_def split_beta retried_def)
  next
    case False
    then have "map_of m1 p = Some \<lparr>deadline = now + interval, attempts = attempts r + 1\<rparr>" "count_list due p = 1"
      using step(2,3) Cons.prems by (simp_all add: retried_def)
    with Cons.IH [OF step(1), of "\<lparr>deadline = now + interval, attempts = attempts r + 1\<rparr>"] show ?thesis
      using Cons.prems(3,4) False by (auto simp: one Let_def split_beta)
  qed
qed simp

section \<open>Properties\<close>

text \<open>C36: a repair that is never answered is retried at most the configured number of times, whatever
  the tick times are; with ticks that come after each deadline it is retried exactly that often and
  then dropped from the table, so retries always end.\<close>

theorem repair_retries_end:
  assumes "keys_distinct m" "map_of m p = None"
  shows "count_list (fst (repair_run interval nows (note_pending_repair p now interval m))) p \<le> MAX_REPAIR_ATTEMPTS \<and>
    (spaced (now + interval) interval nows \<longrightarrow>
      count_list (fst (repair_run interval nows (note_pending_repair p now interval m))) p = min (length nows) MAX_REPAIR_ATTEMPTS \<and>
      (MAX_REPAIR_ATTEMPTS < length nows \<longrightarrow> map_of (snd (repair_run interval nows (note_pending_repair p now interval m))) p = None))"
proof -
  let ?m = "note_pending_repair p now interval m"
  have m: "keys_distinct ?m" "map_of ?m p = Some \<lparr>deadline = now + interval, attempts = 0\<rparr>"
    using assms by (simp_all add: note_pending_repair_def)
  show ?thesis using repair_run_bounded [OF m(1), of interval nows p] repair_run_spaced [OF m] by (simp add: m(2))
qed

theorem repair_retries_end_witness:
  "count_list (fst (repair_run 10 [25, 40, 55, 70, 85, 100] (note_pending_repair (7 :: nat) 5 10 []))) 7 = 4 \<and>
   map_of (snd (repair_run 10 [25, 40, 55, 70, 85, 100] (note_pending_repair (7 :: nat) 5 10 []))) 7 = None"
  using repair_retries_end [of "[]" "7 :: nat" 10 "[25, 40, 55, 70, 85, 100]" 5] by (simp add: MAX_REPAIR_ATTEMPTS_def)

end
