(* ===== verification/Store.thy ===== *)
theory Store
  imports Wheel Journal Ingress
begin

text \<open>
  The replica's data and every path that writes it (\<open>src/replica/write.rs\<close>, \<open>dispatch.rs\<close>, \<open>gc.rs\<close>,
  \<open>coalesce.rs\<close>, \<open>collision.rs\<close> and the peer tables of \<open>membership.rs\<close>): the dated map, its projection, the
  tombstone index, acknowledgements, membership, the change journal and the broadcast budget. The
  lemmas show that every operation keeps the derived structures exact and records its effect in the
  journal.
\<close>

section \<open>Entries and environment\<close>

text \<open>Entries, their stamps and digests belong to other packages; these are the operations the replica
  calls on them.\<close>

record ('e, 't, 'v, 's) EntryOps =
  en_stamp :: "'e \<Rightarrow> 't"
  en_value :: "'e \<Rightarrow> 'v option"
  en_is_tombstone :: "'e \<Rightarrow> bool"
  en_present :: "'t \<Rightarrow> 'v \<Rightarrow> 'e"
  en_tombstone :: "'t \<Rightarrow> 'e"
  en_set_value :: "'v \<Rightarrow> 'e \<Rightarrow> 'e"
  en_set_stamp :: "'t \<Rightarrow> 'e \<Rightarrow> 'e"
  en_project :: "'e \<Rightarrow> 's"
  en_merge :: "'e \<Rightarrow> 'e \<Rightarrow> 'e"
  en_version :: "'e \<Rightarrow> 64 word"
  en_state_digest :: "'e \<Rightarrow> 64 word list"
  en_physical_millis :: "'e \<Rightarrow> nat"

text \<open>The documented behaviour of an entry: the merge is last-writer-wins, a tombstone is an entry with
  no value, and setting a field sets that field.\<close>

definition entry_laws :: "('e, 't::linorder, 'v, 's) EntryOps \<Rightarrow> bool" where
  "entry_laws ops \<longleftrightarrow>
    (\<forall>a b. en_merge ops a b = (if en_stamp ops a < en_stamp ops b then b else a)) \<and>
    (\<forall>e. en_is_tombstone ops e \<longleftrightarrow> en_value ops e = None) \<and>
    (\<forall>t v. en_stamp ops (en_present ops t v) = t \<and> en_value ops (en_present ops t v) = Some v) \<and>
    (\<forall>t. en_stamp ops (en_tombstone ops t) = t \<and> en_value ops (en_tombstone ops t) = None) \<and>
    (\<forall>t e. en_stamp ops (en_set_stamp ops t e) = t \<and> en_value ops (en_set_stamp ops t e) = en_value ops e) \<and>
    (\<forall>v e. en_stamp ops (en_set_value ops v e) = en_stamp ops e \<and>
      (en_value ops e \<noteq> None \<longrightarrow> en_value ops (en_set_value ops v e) = Some v))"

text \<open>The clock port.\<close>

record ('c, 't) ClockOps =
  ck_now :: "'c \<Rightarrow> 't \<times> 'c"
  ck_observe :: "'t \<Rightarrow> 'c \<Rightarrow> 'c"
  ck_observe_trusted :: "'t \<Rightarrow> 'c \<Rightarrow> 'c"

record ('e, 't, 'v, 's, 'c) ReplicaEnv =
  re_entry :: "('e, 't, 'v, 's) EntryOps"
  re_clock :: "('c, 't) ClockOps"
  re_wall :: WallEnv
  re_drift_budget :: nat
  re_max_broadcasts :: nat
  re_max_value_size :: "nat option"
  re_encode_value :: "'v \<Rightarrow> bytes"

text \<open>The clock readings of one operation.\<close>

record Readings =
  rd_mono :: instant
  rd_phys :: nat
  rd_utc :: datetime

section \<open>State\<close>

text \<open>A detached task: a broadcast of entry updates to the peers known when it was spawned, or a flush of
  the coalescing buffer.\<close>

datatype ('k, 'e, 'p) task = BroadcastTask "'p list" "('k \<times> 'e) list" | FlushTask duration

record ('k, 'e, 's, 'p, 'c) Store =
  st_map :: "('k, 'e) kv"
  st_projection :: "('k, 's) kv"
  live_tombstones :: "'k list"
  tombstone_acks :: "('k, 'p) acks"
  st_members :: "'p list"
  st_peers :: "('p, instant) kv"
  snapshot_generations :: "('k, 'e, 'p) GenerationState"
  changes_since_snapshot :: nat
  broadcasts_in_flight :: nat
  coalesce_window :: duration
  coalesce_pending :: "('k, 'e) kv"
  collision_reported :: bool
  repair_interval :: duration
  pending_repairs :: "('p, PendingRepair) kv"
  receiving_bulk_from :: "('p, instant) kv"
  st_clock :: 'c
  st_tombstones :: "'k TimeoutWheel"
  st_tasks :: "('k, 'e, 'p) task list"

definition PEER_EXPIRATION :: duration where "PEER_EXPIRATION = 60000000000"

section \<open>Local writes\<close>

definition pre_insert :: "('e, 't, 'v, 's, 'c) ReplicaEnv \<Rightarrow> Readings \<Rightarrow> 'k \<Rightarrow> 'e \<Rightarrow> ('k, 'e, 's, 'p, 'c) Store \<Rightarrow> ('k, 'e, 's, 'p, 'c) Store" where
  "pre_insert env rd k e st =
    st\<lparr>st_tombstones :=
      (if en_value (re_entry env) e \<noteq> None then snd (wheel_remove k (st_tombstones st))
       else wheel_insert k (bi_instant (from_stored_stamp (re_wall env) (rd_phys rd) (en_physical_millis (re_entry env) e)
              (rd_utc rd) (re_drift_budget env))) (st_tombstones st))\<rparr>"

definition map_insert ::
  "('e, 't, 'v, 's, 'c) ReplicaEnv \<Rightarrow> 'k::linorder \<Rightarrow> 'e \<Rightarrow> ('k, 'e, 's, 'p, 'c) Store \<Rightarrow> 'e option \<times> ('k, 'e, 's, 'p, 'c) Store" where
  "map_insert env k e st =
    (map_of (st_map st) k,
     st\<lparr>live_tombstones := (if en_is_tombstone (re_entry env) e then List.insert k (live_tombstones st) else removeAll k (live_tombstones st)),
        snapshot_generations := record_entry k e (snapshot_generations st),
        st_projection := bt_insert k (en_project (re_entry env) e) (st_projection st),
        st_map := bt_insert k e (st_map st)\<rparr>)"

definition record_changes :: "nat \<Rightarrow> ('k, 'e, 's, 'p, 'c) Store \<Rightarrow> ('k, 'e, 's, 'p, 'c) Store" where
  "record_changes n st = st\<lparr>changes_since_snapshot := (changes_since_snapshot st + n) mod 2 ^ 64\<rparr>"

definition retire_change_count :: "nat \<Rightarrow> ('k, 'e, 's, 'p, 'c) Store \<Rightarrow> ('k, 'e, 's, 'p, 'c) Store" where
  "retire_change_count counted st = st\<lparr>changes_since_snapshot := changes_since_snapshot st - counted\<rparr>"

definition get_peers :: "Readings \<Rightarrow> ('k, 'e, 's, 'p, 'c) Store \<Rightarrow> 'p list \<times> ('k, 'e, 's, 'p, 'c) Store" where
  "get_peers rd st =
    (let kept = filter (\<lambda>(_, t). rd_mono rd - t < PEER_EXPIRATION) (st_peers st)
     in (map fst (kv_iter kept), st\<lparr>st_peers := kept\<rparr>))"

definition just_insert ::
  "('e, 't, 'v, 's, 'c) ReplicaEnv \<Rightarrow> Readings \<Rightarrow> 'k::linorder \<Rightarrow> 'e \<Rightarrow> ('k, 'e, 's, 'p, 'c) Store \<Rightarrow> 'e option \<times> ('k, 'e, 's, 'p, 'c) Store" where
  "just_insert env rd k e st =
    (let (ret, st1) = map_insert env k e (pre_insert env rd k e st) in (ret, record_changes 1 st1))"

text \<open>Every hook runs before the first entry is written.\<close>

definition just_insert_bulk ::
  "('e, 't, 'v, 's, 'c) ReplicaEnv \<Rightarrow> Readings \<Rightarrow> ('k::linorder \<times> 'e) list \<Rightarrow> ('k, 'e, 's, 'p, 'c) Store \<Rightarrow> ('k, 'e, 's, 'p, 'c) Store" where
  "just_insert_bulk env rd kvs st =
    (let st1 = foldl (\<lambda>s (k, e). pre_insert env rd k e s) st kvs;
         st2 = foldl (\<lambda>s (k, e). snd (map_insert env k e s)) st1 kvs
     in record_changes (length kvs) st2)"

section \<open>Broadcasting\<close>

definition try_claim_broadcast_slot ::
  "('e, 't, 'v, 's, 'c) ReplicaEnv \<Rightarrow> ('k, 'e, 's, 'p, 'c) Store \<Rightarrow> bool \<times> ('k, 'e, 's, 'p, 'c) Store" where
  "try_claim_broadcast_slot env st =
    (if broadcasts_in_flight st < re_max_broadcasts env
     then (True, st\<lparr>broadcasts_in_flight := broadcasts_in_flight st + 1\<rparr>) else (False, st))"

text \<open>Dropping the guard.\<close>

definition release_broadcast_slot :: "('k, 'e, 's, 'p, 'c) Store \<Rightarrow> ('k, 'e, 's, 'p, 'c) Store" where
  "release_broadcast_slot st = st\<lparr>broadcasts_in_flight := (broadcasts_in_flight st + usize_max) mod 2 ^ 64\<rparr>"

definition spawn_broadcast :: "Readings \<Rightarrow> ('k \<times> 'e) list \<Rightarrow> ('k, 'e, 's, 'p, 'c) Store \<Rightarrow> ('k, 'e, 's, 'p, 'c) Store" where
  "spawn_broadcast rd kvs st =
    (let (ps, st1) = get_peers rd st in st1\<lparr>st_tasks := st_tasks st1 @ [BroadcastTask ps kvs]\<rparr>)"

definition broadcast ::
  "('e, 't, 'v, 's, 'c) ReplicaEnv \<Rightarrow> Readings \<Rightarrow> ('k \<times> 'e) list \<Rightarrow> ('k, 'e, 's, 'p, 'c) Store \<Rightarrow> ('k, 'e, 's, 'p, 'c) Store" where
  "broadcast env rd kvs st =
    (let (claimed, st1) = try_claim_broadcast_slot env st in if claimed then spawn_broadcast rd kvs st1 else st1)"

definition coalesce_entry :: "('e, 't, 'v, 's) EntryOps \<Rightarrow> ('k, 'e) kv \<Rightarrow> 'k \<times> 'e \<Rightarrow> ('k, 'e) kv" where
  "coalesce_entry ops m kv =
    (case map_of m (fst kv) of
       None \<Rightarrow> AList.update (fst kv) (snd kv) m
     | Some existing \<Rightarrow> AList.update (fst kv) (en_merge ops existing (snd kv)) m)"

definition queue_broadcast ::
  "('e, 't, 'v, 's, 'c) ReplicaEnv \<Rightarrow> Readings \<Rightarrow> ('k \<times> 'e) list \<Rightarrow> ('k, 'e, 's, 'p, 'c) Store \<Rightarrow> ('k, 'e, 's, 'p, 'c) Store" where
  "queue_broadcast env rd kvs st =
    (if kvs = [] then st
     else if coalesce_window st = 0 then broadcast env rd kvs st
     else let was_empty = (coalesce_pending st = []);
              st1 = st\<lparr>coalesce_pending := foldl (coalesce_entry (re_entry env)) (coalesce_pending st) kvs\<rparr>
          in if was_empty then st1\<lparr>st_tasks := st_tasks st1 @ [FlushTask (coalesce_window st)]\<rparr> else st1)"

text \<open>The body of a flush task after its sleep, and of a broadcast task after its sends.\<close>

definition coalesce_flush ::
  "('e, 't, 'v, 's, 'c) ReplicaEnv \<Rightarrow> Readings \<Rightarrow> ('k, 'e, 's, 'p, 'c) Store \<Rightarrow> ('k, 'e, 's, 'p, 'c) Store" where
  "coalesce_flush env rd st =
    (let batch = kv_iter (coalesce_pending st); st1 = st\<lparr>coalesce_pending := []\<rparr>
     in if batch = [] then st1 else broadcast env rd batch st1)"

definition finish_broadcast :: "Readings \<Rightarrow> 'p list \<Rightarrow> ('k, 'e, 's, 'p, 'c) Store \<Rightarrow> ('k, 'e, 's, 'p, 'c) Store" where
  "finish_broadcast rd ps st =
    release_broadcast_slot (st\<lparr>pending_repairs :=
      foldl (\<lambda>m p. note_pending_repair p (rd_mono rd) (repair_interval st) m) (pending_repairs st) ps\<rparr>)"

definition replica_insert ::
  "('e, 't, 'v, 's, 'c) ReplicaEnv \<Rightarrow> Readings \<Rightarrow> 'k::linorder \<Rightarrow> 'e \<Rightarrow> ('k, 'e, 's, 'p, 'c) Store \<Rightarrow> 'e option \<times> ('k, 'e, 's, 'p, 'c) Store" where
  "replica_insert env rd k e st =
    (let (ret, st1) = just_insert env rd k e st in (ret, queue_broadcast env rd [(k, e)] st1))"

datatype BroadcastBudgetExhausted = BroadcastBudgetExhausted

definition replica_try_insert ::
  "('e, 't, 'v, 's, 'c) ReplicaEnv \<Rightarrow> Readings \<Rightarrow> 'k::linorder \<Rightarrow> 'e \<Rightarrow> ('k, 'e, 's, 'p, 'c) Store \<Rightarrow>
    (BroadcastBudgetExhausted + 'e option) \<times> ('k, 'e, 's, 'p, 'c) Store" where
  "replica_try_insert env rd k e st =
    (let (claimed, st1) = try_claim_broadcast_slot env st
     in if \<not> claimed then (Inl BroadcastBudgetExhausted, st1)
        else let (ret, st2) = just_insert env rd k e st1 in (Inr ret, spawn_broadcast rd [(k, e)] st2))"

definition replica_insert_bulk ::
  "('e, 't, 'v, 's, 'c) ReplicaEnv \<Rightarrow> Readings \<Rightarrow> ('k::linorder \<times> 'e) list \<Rightarrow> ('k, 'e, 's, 'p, 'c) Store \<Rightarrow> ('k, 'e, 's, 'p, 'c) Store" where
  "replica_insert_bulk env rd kvs st = queue_broadcast env rd kvs (just_insert_bulk env rd kvs st)"

section \<open>Remote updates\<close>

text \<open>Acknowledgements are kept for tombstones this node holds.\<close>

definition record_tombstone_ack ::
  "('e, 't, 'v, 's, 'c) ReplicaEnv \<Rightarrow> 'p \<Rightarrow> nat \<times> ('k, 'e, 's, 'p, 'c) Store \<Rightarrow> 'k \<times> 64 word \<Rightarrow> nat \<times> ('k, 'e, 's, 'p, 'c) Store" where
  "record_tombstone_ack env peer acc ack =
    (let (changed, st) = acc; (k, version) = ack
     in case map_of (st_map st) k of
          None \<Rightarrow> (changed, st)
        | Some e \<Rightarrow>
           if \<not> en_is_tombstone (re_entry env) e then (changed, st)
           else let old = key_acks_of (tombstone_acks st) k;
                    st1 = st\<lparr>tombstone_acks := AList.update k (AList.update peer version old) (tombstone_acks st)\<rparr>
                in if map_of old peer \<noteq> Some version
                   then (changed + 1, st1\<lparr>snapshot_generations := record_ack k peer (Some version) (snapshot_generations st1)\<rparr>)
                   else (changed, st1))"

definition record_tombstone_acks ::
  "('e, 't, 'v, 's, 'c) ReplicaEnv \<Rightarrow> ('k \<times> 64 word) list \<Rightarrow> 'p \<Rightarrow> ('k, 'e, 's, 'p, 'c) Store \<Rightarrow> ('k, 'e, 's, 'p, 'c) Store" where
  "record_tombstone_acks env acks peer st =
    (if acks = [] then st
     else let (changed, st1) = foldl (record_tombstone_ack env peer) (0, st) acks in record_changes changed st1)"

definition is_node_id_collision :: "('e, 't, 'v, 's) EntryOps \<Rightarrow> 'e \<Rightarrow> 'e \<Rightarrow> bool" where
  "is_node_id_collision ops local remote \<longleftrightarrow>
    en_stamp ops local = en_stamp ops remote \<and> en_state_digest ops local \<noteq> en_state_digest ops remote"

definition collision_report :: "('k, 'e, 's, 'p, 'c) Store \<Rightarrow> bool \<times> ('k, 'e, 's, 'p, 'c) Store" where
  "collision_report st = (\<not> collision_reported st, st\<lparr>collision_reported := True\<rparr>)"

text \<open>The decision on a read snapshot: what to apply and which acknowledgements to send.\<close>

fun decide_updates ::
  "('e, 't::linorder, 'v, 's) EntryOps \<Rightarrow> ('k, 'e) kv \<Rightarrow> ('k \<times> 'e) list \<Rightarrow> ('k \<times> 'e) list \<times> ('k \<times> 64 word) list" where
  "decide_updates ops m [] = ([], [])"
| "decide_updates ops m ((k, remote) # us) =
    (let (to_apply, acks) = decide_updates ops m us
     in case map_of m k of
          None \<Rightarrow> ((k, remote) # to_apply, acks)
        | Some local \<Rightarrow>
           if en_stamp ops local < en_stamp ops remote then ((k, remote) # to_apply, acks)
           else if en_is_tombstone ops local then (to_apply, (k, en_version ops local) # acks)
           else (to_apply, acks))"

text \<open>The second comparison, under the write lock.\<close>

definition commit_update ::
  "('e, 't, 'v, 's, 'c) ReplicaEnv \<Rightarrow> ('k \<times> 64 word) list \<times> ('k::linorder, 'e, 's, 'p, 'c) Store \<Rightarrow> 'k \<times> 'e \<Rightarrow>
    ('k \<times> 64 word) list \<times> ('k, 'e, 's, 'p, 'c) Store" where
  "commit_update env acc kv =
    (let (acks, st) = acc; (k, v) = kv; ops = re_entry env;
         (merged, st1) =
           (case map_of (st_map st) k of
              None \<Rightarrow> (v, st)
            | Some local \<Rightarrow> (en_merge ops local v, if is_node_id_collision ops local v then snd (collision_report st) else st));
         st2 = snd (map_insert env k merged st1)
     in (if en_is_tombstone ops merged then acks @ [(k, en_version ops merged)] else acks, st2))"

definition commit_updates ::
  "('e, 't, 'v, 's, 'c) ReplicaEnv \<Rightarrow> ('k \<times> 'e) list \<Rightarrow> ('k::linorder, 'e, 's, 'p, 'c) Store \<Rightarrow>
    ('k \<times> 64 word) list \<times> ('k, 'e, 's, 'p, 'c) Store" where
  "commit_updates env to_apply st =
    (if to_apply = [] then ([], st)
     else let (acks, st1) = foldl (commit_update env) ([], st) to_apply in (acks, record_changes (length to_apply) st1))"

text \<open>Everything before the write lock is taken: the timers, the clock, the decision and the hooks.\<close>

definition receive_updates ::
  "('e, 't::linorder, 'v, 's, 'c) ReplicaEnv \<Rightarrow> Readings \<Rightarrow> ('k \<times> 'e) list \<Rightarrow> 'p \<Rightarrow> ('k, 'e, 's, 'p, 'c) Store \<Rightarrow>
    ('k \<times> 'e) list \<times> ('k \<times> 64 word) list \<times> ('k, 'e, 's, 'p, 'c) Store" where
  "receive_updates env rd updates peer st =
    (let st1 = st\<lparr>pending_repairs := note_pending_repair peer (rd_mono rd) (repair_interval st) (pending_repairs st),
                  receiving_bulk_from := AList.update peer (rd_mono rd) (receiving_bulk_from st),
                  st_clock := foldl (\<lambda>c (_, e). ck_observe (re_clock env) (en_stamp (re_entry env) e) c) (st_clock st) updates\<rparr>;
         (to_apply, acks) = decide_updates (re_entry env) (st_map st) updates
     in (to_apply, acks, foldl (\<lambda>s (k, e). pre_insert env rd k e s) st1 to_apply))"

text \<open>The handler when nothing else runs in between; it returns the acknowledgements to send.\<close>

definition apply_dated_updates ::
  "('e, 't::linorder, 'v, 's, 'c) ReplicaEnv \<Rightarrow> Readings \<Rightarrow> ('k::linorder \<times> 'e) list \<Rightarrow> 'p \<Rightarrow> ('k, 'e, 's, 'p, 'c) Store \<Rightarrow>
    ('k \<times> 64 word) list \<times> ('k, 'e, 's, 'p, 'c) Store" where
  "apply_dated_updates env rd updates peer st =
    (if updates = [] then ([], st)
     else let (to_apply, acks, st1) = receive_updates env rd updates peer st;
              (acks', st2) = commit_updates env to_apply st1
          in (acks @ acks', st2))"

section \<open>Membership\<close>

text \<open>The receive loop admits the sender of a dated message to the membership.\<close>

definition admit_member :: "Readings \<Rightarrow> 'p \<Rightarrow> ('k, 'e, 's, 'p, 'c) Store \<Rightarrow> ('k, 'e, 's, 'p, 'c) Store" where
  "admit_member rd peer st =
    (let st1 = st\<lparr>st_peers := AList.update peer (rd_mono rd) (st_peers st)\<rparr>
     in if peer \<in> set (st_members st1) then st1
        else record_changes 1 (st1\<lparr>st_members := List.insert peer (st_members st1),
               snapshot_generations := record_member peer True (snapshot_generations st1)\<rparr>))"

definition seed_peer :: "Readings \<Rightarrow> 'p \<Rightarrow> ('k, 'e, 's, 'p, 'c) Store \<Rightarrow> ('k, 'e, 's, 'p, 'c) Store" where
  "seed_peer rd peer st = st\<lparr>st_peers := AList.update peer (rd_mono rd) (st_peers st)\<rparr>"

text \<open>One step of the loop over the acknowledgement maps.\<close>

definition forget_peer_ack :: "'p \<Rightarrow> nat \<times> ('k, 'e, 's, 'p, 'c) Store \<Rightarrow> 'k \<Rightarrow> nat \<times> ('k, 'e, 's, 'p, 'c) Store" where
  "forget_peer_ack peer acc k =
    (let (changed, st) = acc; acks = key_acks_of (tombstone_acks st) k
     in if map_of acks peer = None then (changed, st)
        else (changed + 1,
          st\<lparr>tombstone_acks := AList.update k (AList.delete peer acks) (tombstone_acks st),
             snapshot_generations := record_ack k peer None (snapshot_generations st)\<rparr>))"

definition decommission_peer :: "'p \<Rightarrow> ('k, 'e, 's, 'p, 'c) Store \<Rightarrow> ('k, 'e, 's, 'p, 'c) Store" where
  "decommission_peer peer st =
    (let removed_member = peer \<in> set (st_members st);
         st1 = st\<lparr>st_members := removeAll peer (st_members st),
                  snapshot_generations := (if removed_member then record_member peer False (snapshot_generations st) else snapshot_generations st),
                  st_peers := AList.delete peer (st_peers st)\<rparr>;
         (changed, st2) = foldl (forget_peer_ack peer) (if removed_member then 1 else 0, st1) (map fst (kv_iter (tombstone_acks st1)))
     in record_changes changed st2)"

section \<open>Collection\<close>

definition all_members_acknowledged :: "'p list \<Rightarrow> ('k, 'p) acks \<Rightarrow> 'k \<Rightarrow> 64 word \<Rightarrow> bool" where
  "all_members_acknowledged ms acks k version \<longleftrightarrow>
    (if ms = [] then True
     else case map_of acks k of
            None \<Rightarrow> False
          | Some key_acks \<Rightarrow> list_all (\<lambda>peer. map_of key_acks peer = Some version) ms)"

definition is_tombstone_stable :: "'k \<Rightarrow> 64 word \<Rightarrow> ('k, 'e, 's, 'p, 'c) Store \<Rightarrow> bool" where
  "is_tombstone_stable k version st = all_members_acknowledged (st_members st) (tombstone_acks st) k version"

definition has_collection_proof :: bool where "has_collection_proof = False"

text \<open>The removal of the transaction, with its accounting.\<close>

definition collect_remove :: "'k::linorder \<Rightarrow> ('k, 'e, 's, 'p, 'c) Store \<Rightarrow> 'e option \<times> ('k, 'e, 's, 'p, 'c) Store" where
  "collect_remove k st =
    (let ret = map_of (st_map st) k;
         st1 = st\<lparr>live_tombstones := removeAll k (live_tombstones st), st_projection := AList.delete k (st_projection st),
                  st_map := AList.delete k (st_map st),
                  snapshot_generations := (if ret \<noteq> None then record_physical_delete k (snapshot_generations st) else snapshot_generations st)\<rparr>;
         had_acks = (map_of (tombstone_acks st1) k \<noteq> None);
         st2 = st1\<lparr>tombstone_acks := AList.delete k (tombstone_acks st1),
                   snapshot_generations := (if had_acks then record_ack_key_clear k (snapshot_generations st1) else snapshot_generations st1)\<rparr>
     in (ret, record_changes ((if ret \<noteq> None then 1 else 0) + (if had_acks then 1 else 0)) st2))"

text \<open>\<open>now_ms\<close> is the wall clock in milliseconds, negative before the epoch.\<close>

definition collect_candidate ::
  "('e, 't, 'v, 's, 'c) ReplicaEnv \<Rightarrow> 'k::linorder \<Rightarrow> 't \<Rightarrow> int \<Rightarrow> nat \<Rightarrow> ('k, 'e, 's, 'p, 'c) Store \<Rightarrow> 'e option \<times> ('k, 'e, 's, 'p, 'c) Store" where
  "collect_candidate env k expected now_ms retention_ms st =
    (case map_of (st_map st) k of
       None \<Rightarrow> (None, st)
     | Some e \<Rightarrow>
        if \<not> en_is_tombstone (re_entry env) e \<or> en_stamp (re_entry env) e \<noteq> expected then (None, st)
        else if now_ms < 0 then (None, st)
        else if nat now_ms \<le> en_physical_millis (re_entry env) e + retention_ms \<or>
                \<not> is_tombstone_stable k (en_version (re_entry env) e) st then (None, st)
        else collect_remove k st)"

definition gc_collect ::
  "('e, 't, 'v, 's, 'c) ReplicaEnv \<Rightarrow> 'k::linorder \<Rightarrow> 't \<Rightarrow> int \<Rightarrow> nat \<Rightarrow> ('k, 'e, 's, 'p, 'c) Store \<Rightarrow> 'e option \<times> ('k, 'e, 's, 'p, 'c) Store" where
  "gc_collect env k expected now_ms retention_ms st =
    (if \<not> has_collection_proof then (None, st) else collect_candidate env k expected now_ms retention_ms st)"

definition has_pending_tombstone_acks ::
  "('e, 't, 'v, 's) EntryOps \<Rightarrow> 'p \<Rightarrow> ('k, 'e, 's, 'p, 'c) Store \<Rightarrow> bool" where
  "has_pending_tombstone_acks ops peer st \<longleftrightarrow>
    live_tombstones st \<noteq> [] \<and>
    list_ex (\<lambda>k. case map_of (st_map st) k of
        None \<Rightarrow> False
      | Some e \<Rightarrow> map_of (key_acks_of (tombstone_acks st) k) peer \<noteq> Some (en_version ops e)) (live_tombstones st)"

section \<open>The derived structures stay exact\<close>

text \<open>The projection mirrors the map, the tombstone index holds exactly the deleted keys and the tables
  are well formed.\<close>

definition store_ok :: "('e, 't, 'v, 's, 'c) ReplicaEnv \<Rightarrow> ('k::linorder, 'e, 's, 'p, 'c) Store \<Rightarrow> bool" where
  "store_ok env st \<longleftrightarrow>
    keys_sorted (st_map st) \<and> keys_sorted (st_projection st) \<and>
    map_of (st_projection st) = (\<lambda>k. map_option (en_project (re_entry env)) (map_of (st_map st) k)) \<and>
    distinct (live_tombstones st) \<and>
    set (live_tombstones st) = {k. \<exists>e. map_of (st_map st) k = Some e \<and> en_is_tombstone (re_entry env) e} \<and>
    keys_distinct (tombstone_acks st) \<and> list_all (\<lambda>(_, a). keys_distinct a) (tombstone_acks st) \<and>
    distinct (st_members st) \<and> journal_ok (snapshot_generations st)"

definition runtime_view :: "('k, 'e, 's, 'p, 'c) Store \<Rightarrow> ('k, 'e, 'p) view" where
  "runtime_view st = view_of (st_map st, st_members st, tombstone_acks st)"

text \<open>The part of the state that is persisted or derived from it.\<close>

definition core ::
  "('k, 'e, 's, 'p, 'c) Store \<Rightarrow>
    ('k, 'e) kv \<times> ('k, 's) kv \<times> 'k list \<times> ('k, 'p) acks \<times> 'p list \<times> ('k, 'e, 'p) GenerationState" where
  "core st = (st_map st, st_projection st, live_tombstones st, tombstone_acks st, st_members st, snapshot_generations st)"

lemma core_frame:
  assumes "core st' = core st"
  shows "store_ok env st' = store_ok env st" "runtime_view st' = runtime_view st"
  using assms by (simp_all add: core_def store_ok_def runtime_view_def)

named_theorems core_simps \<open>operations that leave the persisted part alone\<close>

lemma core_pre_insert [core_simps]: "core (pre_insert env rd k e st) = core st"
  by (simp add: core_def pre_insert_def)

lemma core_record_changes [core_simps]: "core (record_changes n st) = core st"
  by (simp add: core_def record_changes_def)

lemma core_retire [core_simps]: "core (retire_change_count n st) = core st"
  by (simp add: core_def retire_change_count_def)

lemma core_get_peers [core_simps]: "core (snd (get_peers rd st)) = core st"
  by (simp add: core_def get_peers_def Let_def)

lemma core_claim [core_simps]: "core (snd (try_claim_broadcast_slot env st)) = core st"
  by (simp add: core_def try_claim_broadcast_slot_def)

lemma core_release [core_simps]: "core (release_broadcast_slot st) = core st"
  by (simp add: core_def release_broadcast_slot_def)

lemma core_spawn [core_simps]: "core (spawn_broadcast rd kvs st) = core st"
  by (simp add: core_def spawn_broadcast_def get_peers_def Let_def)

lemma core_broadcast [core_simps]: "core (broadcast env rd kvs st) = core st"
  by (simp add: broadcast_def try_claim_broadcast_slot_def core_spawn) (simp add: core_def)

lemma core_queue [core_simps]: "core (queue_broadcast env rd kvs st) = core st"
  by (simp add: queue_broadcast_def Let_def core_broadcast) (simp add: core_def)

lemma core_flush [core_simps]: "core (coalesce_flush env rd st) = core st"
  by (simp add: coalesce_flush_def Let_def core_broadcast) (simp add: core_def)

lemma core_finish [core_simps]: "core (finish_broadcast rd ps st) = core st"
  by (simp add: finish_broadcast_def core_release) (simp add: core_def)

lemma core_seed [core_simps]: "core (seed_peer rd p st) = core st"
  by (simp add: core_def seed_peer_def)

lemma core_hooks [core_simps]: "core (foldl (\<lambda>s (k, e). pre_insert env rd k e s) st kvs) = core st"
  by (induction kvs arbitrary: st) (auto simp: core_pre_insert)

lemma core_receive [core_simps]: "receive_updates env rd us p st = (to_apply, acks, st') \<Longrightarrow> core st' = core st"
  by (auto simp: receive_updates_def Let_def core_hooks split: prod.splits) (simp add: core_def)

section \<open>Every write is journalled\<close>

text \<open>One operation keeps the invariant, leaves the frozen generation alone and extends the open one by
  exactly its effect: a durable state that the open generation brings up to date stays one.\<close>

definition sound ::
  "('e, 't, 'v, 's, 'c) ReplicaEnv \<Rightarrow> ('k::linorder, 'e, 's, 'p, 'c) Store \<Rightarrow> ('k, 'e, 's, 'p, 'c) Store \<Rightarrow> bool" where
  "sound env st st' \<longleftrightarrow> (store_ok env st \<longrightarrow>
    store_ok env st' \<and> frozen (snapshot_generations st') = frozen (snapshot_generations st) \<and>
    (\<forall>x. eff (open_gen (snapshot_generations st)) x = runtime_view st \<longrightarrow>
      eff (open_gen (snapshot_generations st')) x = runtime_view st'))"

lemma sound_refl [simp]: "sound env st st"
  by (simp add: sound_def)

lemma sound_trans: "sound env st st1 \<Longrightarrow> sound env st1 st2 \<Longrightarrow> sound env st st2"
  by (simp add: sound_def)

lemma sound_core: "core st' = core st \<Longrightarrow> sound env st st'"
  using core_frame(1) [of st' st env] core_frame(2) [of st' st] by (simp add: sound_def) (simp add: core_def)

lemma sound_then_core: "sound env st st1 \<Longrightarrow> core st2 = core st1 \<Longrightarrow> sound env st st2"
  by (rule sound_trans [OF _ sound_core])

lemma sound_foldl: "(\<And>s x. sound env (g s) (g (f s x))) \<Longrightarrow> sound env (g s) (g (foldl f s xs))"
  by (induction xs arbitrary: s) (auto intro: sound_trans)

text \<open>An operation on the map: the four structures change together.\<close>

lemma sound_map_insert: "sound env st (snd (map_insert env k e st))"
  unfolding sound_def
proof (intro impI conjI)
  let ?st = "snd (map_insert env k e st)"
  assume ok: "store_ok env st"
  then have j: "journal_ok (snapshot_generations st)" by (simp add: store_ok_def)
  note rec = record_entry_pending [OF j]
  show "store_ok env ?st" using ok rec(1) by (auto simp: store_ok_def map_insert_def fun_eq_iff distinct_removeAll)
  show "frozen (snapshot_generations ?st) = frozen (snapshot_generations st)" by (simp add: map_insert_def rec(2))
  show "\<forall>x. eff (open_gen (snapshot_generations st)) x = runtime_view st \<longrightarrow>
      eff (open_gen (snapshot_generations ?st)) x = runtime_view ?st"
    using ok by (auto simp: map_insert_def rec(3) runtime_view_def view_of_def store_ok_def)
qed

lemma sound_just_insert: "sound env st (snd (just_insert env rd k e st))"
proof -
  have "sound env (pre_insert env rd k e st) (snd (just_insert env rd k e st))"
    by (rule sound_then_core [OF sound_map_insert [of env _ k e]]) (simp add: just_insert_def core_simps split: prod.split)
  then show ?thesis by (rule sound_trans [OF sound_core [OF core_pre_insert]])
qed

lemma sound_inserts: "sound env st (foldl (\<lambda>s (k, e). snd (map_insert env k e s)) st kvs)"
  by (rule sound_foldl [of env "\<lambda>s. s"]) (simp add: split_beta sound_map_insert)

lemma sound_bulk: "sound env st (just_insert_bulk env rd kvs st)"
  unfolding just_insert_bulk_def Let_def
  by (rule sound_then_core [OF sound_trans [OF sound_core [OF core_hooks] sound_inserts]]) (rule core_record_changes)

lemma sound_replica_insert: "sound env st (snd (replica_insert env rd k e st))"
  by (rule sound_then_core [OF sound_just_insert [of env st rd k e]]) (simp add: replica_insert_def core_simps split: prod.split)

lemma sound_replica_insert_bulk: "sound env st (replica_insert_bulk env rd kvs st)"
  by (rule sound_then_core [OF sound_bulk]) (simp add: replica_insert_bulk_def core_simps)

lemma sound_try_insert: "sound env st (snd (replica_try_insert env rd k e st))"
proof -
  obtain claimed st1 where c: "try_claim_broadcast_slot env st = (claimed, st1)" by fastforce
  have "core st1 = core st" using core_claim [of env st] by (simp add: c)
  moreover have "sound env st1 (snd (replica_try_insert env rd k e st))"
    by (auto simp: replica_try_insert_def c core_simps split: prod.split
        intro: sound_then_core [OF sound_just_insert [of env st1 rd k e]])
  ultimately show ?thesis by (rule sound_trans [OF sound_core])
qed

lemma sound_commit_update: "sound env st (snd (commit_update env (acks, st) kv))"
proof -
  obtain k v where kv: "kv = (k, v)" by (cases kv)
  have step: "core st1 = core st \<Longrightarrow> sound env st (snd (map_insert env k m st1))" for st1 m
    by (rule sound_trans [OF sound_core sound_map_insert])
  show ?thesis
    by (auto simp: commit_update_def kv Let_def collision_report_def core_def split: option.split intro!: step)
qed

lemma sound_commit: "sound env st (snd (commit_updates env us st))"
proof -
  have "sound env (snd s) (snd (foldl (commit_update env) s us))" for s
    by (rule sound_foldl [of env snd]) (metis prod.collapse sound_commit_update)
  from this [of "([], st)"] show ?thesis
    by (auto simp: commit_updates_def core_simps split: prod.split intro: sound_then_core)
qed

lemma apply_dated_split:
  assumes "receive_updates env rd us p st = (a, b, st1)" "us \<noteq> []"
  shows "apply_dated_updates env rd us p st = (b @ fst (commit_updates env a st1), snd (commit_updates env a st1))"
  using assms by (simp add: apply_dated_updates_def split_beta)

lemma sound_apply_dated: "sound env st (snd (apply_dated_updates env rd us p st))"
proof (cases "us = []")
  case False
  obtain a b st1 where r: "receive_updates env rd us p st = (a, b, st1)" by (cases "receive_updates env rd us p st") auto
  show ?thesis using sound_trans [OF sound_core [OF core_receive [OF r]] sound_commit [of env st1 a]]
    by (simp add: apply_dated_split [OF r False])
qed (simp add: apply_dated_updates_def)

section \<open>Acknowledgements, members and collection\<close>

lemma ack_of_key: "ack_of a k = map_of (key_acks_of a k)"
  by (simp add: ack_of_def fun_eq_iff)

lemma acks_distinct_update:
  "keys_distinct a \<Longrightarrow> list_all (\<lambda>(_, a). keys_distinct a) a \<Longrightarrow>
    keys_distinct (AList.update k (AList.update p v (key_acks_of a k)) a) \<and>
    list_all (\<lambda>(_, a). keys_distinct a) (AList.update k (AList.update p v (key_acks_of a k)) a) \<and>
    keys_distinct (AList.update k (AList.delete p (key_acks_of a k)) a) \<and>
    list_all (\<lambda>(_, a). keys_distinct a) (AList.update k (AList.delete p (key_acks_of a k)) a)"
  using list_all_key_acks_of [of a k] by (auto intro!: list_all_update)

text \<open>An operation that only changes the acknowledgements and records the change.\<close>

lemma sound_ack:
  assumes "w = Some v \<and> a = AList.update p v (key_acks_of (tombstone_acks st) k) \<or>
      w = None \<and> a = AList.delete p (key_acks_of (tombstone_acks st) k)"
    and "j = record_ack k p w (snapshot_generations st) \<or> j = snapshot_generations st \<and> ack_of (tombstone_acks st) k p = w"
  shows "sound env st (st\<lparr>tombstone_acks := AList.update k a (tombstone_acks st), snapshot_generations := j\<rparr>)"
  unfolding sound_def
proof (intro impI conjI)
  let ?st = "st\<lparr>tombstone_acks := AList.update k a (tombstone_acks st), snapshot_generations := j\<rparr>"
  assume ok: "store_ok env st"
  then have jok: "journal_ok (snapshot_generations st)" by (simp add: store_ok_def)
  note rec = record_ack_pending [OF jok]
  have a: "ack_of (AList.update k a (tombstone_acks st)) = (ack_of (tombstone_acks st))(k := (ack_of (tombstone_acks st) k)(p := w))"
    using assms(1) by (intro ext) (simp add: ack_of_update, auto simp: ack_of_key update_conv delete_conv)
  have acks: "keys_distinct (AList.update k a (tombstone_acks st)) \<and> list_all (\<lambda>(_, a). keys_distinct a) (AList.update k a (tombstone_acks st))"
    using ok assms(1) acks_distinct_update [of "tombstone_acks st" k p v] by (auto simp: store_ok_def)
  have "journal_ok j" using assms(2) jok rec(1) by auto
  then show "store_ok env ?st" using ok acks by (simp add: store_ok_def)
  show "frozen (snapshot_generations ?st) = frozen (snapshot_generations st)" using assms(2) rec(2) by auto
  have "ack_of (tombstone_acks st) k p = w \<Longrightarrow> runtime_view ?st = runtime_view st"
    by (auto simp: runtime_view_def view_of_def a)
  then show "\<forall>x. eff (open_gen (snapshot_generations st)) x = runtime_view st \<longrightarrow>
      eff (open_gen (snapshot_generations ?st)) x = runtime_view ?st"
    using assms(2) by (auto simp: rec(3) runtime_view_def view_of_def a)
qed

lemma sound_record_tombstone_ack: "sound env (snd s) (snd (record_tombstone_ack env p s ka))"
proof -
  obtain n st k v where s: "s = (n, st)" "ka = (k, v)" by (cases s; cases ka)
  show ?thesis
    using sound_ack [of "Some v" v _ p st k "record_ack k p (Some v) (snapshot_generations st)" env]
      sound_ack [of "Some v" v _ p st k "snapshot_generations st" env]
    by (auto simp: record_tombstone_ack_def s Let_def ack_of_key split: option.split)
qed

lemma sound_tombstone_acks: "sound env st (record_tombstone_acks env acks p st)"
proof -
  have "sound env (snd s) (snd (foldl (record_tombstone_ack env p) s acks))" for s
    by (rule sound_foldl [of env snd]) (rule sound_record_tombstone_ack)
  from this [of "(0, st)"] show ?thesis
    by (auto simp: record_tombstone_acks_def core_simps split: prod.split intro: sound_then_core)
qed

text \<open>An operation that only changes the membership of one peer.\<close>

lemma sound_member:
  assumes "b \<and> ms = List.insert p (st_members st) \<or> \<not> b \<and> ms = removeAll p (st_members st)"
    and "j = record_member p b (snapshot_generations st) \<or> j = snapshot_generations st \<and> (p \<in> set (st_members st)) = b"
  shows "sound env st (st\<lparr>st_members := ms, snapshot_generations := j\<rparr>)"
  unfolding sound_def
proof (intro impI conjI)
  let ?st = "st\<lparr>st_members := ms, snapshot_generations := j\<rparr>"
  assume ok: "store_ok env st"
  then have jok: "journal_ok (snapshot_generations st)" by (simp add: store_ok_def)
  note rec = record_member_pending [OF jok]
  have m: "(\<lambda>q. q \<in> set ms) = (\<lambda>q. q \<in> set (st_members st))(p := b)" using assms(1) by (auto simp: fun_eq_iff)
  have "journal_ok j" using assms(2) jok rec(1) by auto
  then show "store_ok env ?st" using ok assms(1) by (auto simp: store_ok_def distinct_removeAll)
  show "frozen (snapshot_generations ?st) = frozen (snapshot_generations st)" using assms(2) rec(2) by auto
  have "(p \<in> set (st_members st)) = b \<Longrightarrow> runtime_view ?st = runtime_view st"
    by (auto simp: runtime_view_def view_of_def m)
  then show "\<forall>x. eff (open_gen (snapshot_generations st)) x = runtime_view st \<longrightarrow>
      eff (open_gen (snapshot_generations ?st)) x = runtime_view ?st"
    using assms(2) by (auto simp: rec(3) runtime_view_def view_of_def m)
qed

lemma sound_admit_member: "sound env st (admit_member rd p st)"
proof -
  let ?st1 = "st\<lparr>st_peers := AList.update p (rd_mono rd) (st_peers st)\<rparr>"
  have c: "core ?st1 = core st" by (simp add: core_def)
  have "sound env ?st1 (?st1\<lparr>st_members := List.insert p (st_members ?st1), snapshot_generations := record_member p True (snapshot_generations ?st1)\<rparr>)"
    by (rule sound_member [of True]) auto
  then have "sound env ?st1 (admit_member rd p st)"
    unfolding admit_member_def Let_def by (simp del: List.insert_def in_set_insert) (auto intro: sound_then_core core_record_changes)
  then show ?thesis by (rule sound_trans [OF sound_core [OF c]])
qed

lemma sound_forget_peer_ack: "sound env (snd s) (snd (forget_peer_ack p s k))"
  using sound_ack [of None _ _ p "snd s" k "record_ack k p None (snapshot_generations (snd s))" env]
  by (auto simp: forget_peer_ack_def Let_def split: prod.split)

lemma sound_forget_acks: "sound env (snd s) (snd (foldl (forget_peer_ack p) s ks))"
  by (rule sound_foldl [of env snd]) (rule sound_forget_peer_ack)

lemma sound_decommission: "sound env st (decommission_peer p st)"
proof -
  let ?j = "if p \<in> set (st_members st) then record_member p False (snapshot_generations st) else snapshot_generations st"
  let ?st0 = "st\<lparr>st_members := removeAll p (st_members st), snapshot_generations := ?j\<rparr>"
  let ?st1 = "?st0\<lparr>st_peers := AList.delete p (st_peers st)\<rparr>"
  have "sound env st ?st0" by (rule sound_member [of False]) auto
  then have "sound env st ?st1" by (rule sound_then_core) (simp add: core_def)
  moreover let ?f = "foldl (forget_peer_ack p) (if p \<in> set (st_members st) then 1 else 0, ?st1) (map fst (kv_iter (tombstone_acks ?st1)))"
  have "decommission_peer p st = record_changes (fst ?f) (snd ?f)"
    by (simp add: decommission_peer_def Let_def split_beta)
  then have "sound env ?st1 (decommission_peer p st)"
    using sound_then_core [OF sound_forget_acks core_record_changes] by (metis snd_conv)
  ultimately show ?thesis by (rule sound_trans)
qed

lemma list_all_delete: "list_all P m \<Longrightarrow> list_all P (AList.delete k m)"
  by (auto simp: AList.delete_eq list_all_iff)

lemma sound_collect_remove: "sound env st (snd (collect_remove k st))"
  unfolding sound_def
proof (intro impI conjI)
  let ?st = "snd (collect_remove k st)"
  let ?j0 = "snapshot_generations st"
  let ?j1 = "if map_of (st_map st) k \<noteq> None then record_physical_delete k ?j0 else ?j0"
  assume ok: "store_ok env st"
  then have j0: "journal_ok ?j0" by (simp add: store_ok_def)
  note del = record_physical_delete_pending [OF j0]
  have j1: "journal_ok ?j1" using j0 del(1) by simp
  note clr = record_ack_key_clear_pending [OF j1]
  have fields: "st_map ?st = AList.delete k (st_map st)" "st_projection ?st = AList.delete k (st_projection st)"
    "live_tombstones ?st = removeAll k (live_tombstones st)" "tombstone_acks ?st = AList.delete k (tombstone_acks st)"
    "st_members ?st = st_members st"
    "snapshot_generations ?st = (if map_of (tombstone_acks st) k \<noteq> None then record_ack_key_clear k ?j1 else ?j1)"
    by (simp_all add: collect_remove_def Let_def record_changes_def)
  show "store_ok env ?st" unfolding store_ok_def fields
    using ok j1 clr(1) by (auto simp: store_ok_def delete_conv fun_eq_iff distinct_removeAll list_all_delete)
  show "frozen (snapshot_generations ?st) = frozen ?j0" unfolding fields using clr(2) del(2) by auto
  have absent: "map_of (tombstone_acks st) k = None \<Longrightarrow> ack_of (tombstone_acks st) k = Map.empty"
    by (simp add: ack_of_key key_acks_of_def)
  have acks: "ack_of (AList.delete k (tombstone_acks st)) = (ack_of (tombstone_acks st))(k := Map.empty)"
    by (simp add: ack_of_delete fun_eq_iff)
  show "\<forall>x. eff (open_gen ?j0) x = runtime_view st \<longrightarrow> eff (open_gen (snapshot_generations ?st)) x = runtime_view ?st"
  proof (intro allI impI)
    fix x assume x: "eff (open_gen ?j0) x = runtime_view st"
    then have e1: "eff (open_gen ?j1) x = ((map_of (st_map st))(k := None), \<lambda>p. p \<in> set (st_members st), ack_of (tombstone_acks st))"
      by (auto simp: del(3) runtime_view_def view_of_def)
    show "eff (open_gen (snapshot_generations ?st)) x = runtime_view ?st"
    proof (cases "map_of (tombstone_acks st) k = None")
      case True
      then have "(ack_of (tombstone_acks st))(k := Map.empty) = ack_of (tombstone_acks st)" using absent by auto
      then show ?thesis unfolding fields(6) using True e1 by (simp add: runtime_view_def view_of_def fields(1-5) acks delete_conv')
    next
      case False
      then show ?thesis unfolding fields(6) using clr(3) [of k x] e1 by (simp add: runtime_view_def view_of_def fields(1-5) acks delete_conv')
    qed
  qed
qed

lemma sound_collect: "sound env st (snd (collect_candidate env k t now r st))"
  by (auto simp: collect_candidate_def sound_collect_remove split: option.split)

end
