(* ===== verification/MapApi.thy ===== *)
theory MapApi
  imports Store
begin

text \<open>
  The public writes of the map (\<open>src/replicated_map/write.rs\<close>, \<open>mutate.rs\<close>, \<open>backpressure.rs\<close> and
  \<open>value_size.rs\<close>): each mints its stamps from the clock and goes through the replica. All operations
  that change the store are collected in one datatype; the lemmas show that every run of them keeps
  the store invariant and the broadcast budget.
\<close>

section \<open>Stamped writes\<close>

definition clock_now :: "('e, 't, 'v, 's, 'c) ReplicaEnv \<Rightarrow> ('k, 'e, 's, 'p, 'c) Store \<Rightarrow> 't \<times> ('k, 'e, 's, 'p, 'c) Store" where
  "clock_now env st = (let (t, c) = ck_now (re_clock env) (st_clock st) in (t, st\<lparr>st_clock := c\<rparr>))"

text \<open>One stamp per element, in order.\<close>

fun mint_all ::
  "('e, 't, 'v, 's, 'c) ReplicaEnv \<Rightarrow> ('t \<Rightarrow> 'a \<Rightarrow> 'k \<times> 'e) \<Rightarrow> 'a list \<Rightarrow> ('k, 'e, 's, 'p, 'c) Store \<Rightarrow> ('k \<times> 'e) list \<times> ('k, 'e, 's, 'p, 'c) Store" where
  "mint_all env mk [] st = ([], st)"
| "mint_all env mk (x # xs) st =
    (let (t, st1) = clock_now env st; (kvs, st2) = mint_all env mk xs st1 in (mk t x # kvs, st2))"

definition rm_insert ::
  "('e, 't, 'v, 's, 'c) ReplicaEnv \<Rightarrow> Readings \<Rightarrow> 'k::linorder \<Rightarrow> 'v \<Rightarrow> ('k, 'e, 's, 'p, 'c) Store \<Rightarrow> 'v option \<times> ('k, 'e, 's, 'p, 'c) Store" where
  "rm_insert env rd k v st =
    (let (t, st1) = clock_now env st; (ret, st2) = replica_insert env rd k (en_present (re_entry env) t v) st1
     in (Option.bind ret (en_value (re_entry env)), st2))"

definition rm_insert_bulk ::
  "('e, 't, 'v, 's, 'c) ReplicaEnv \<Rightarrow> Readings \<Rightarrow> ('k::linorder \<times> 'v) list \<Rightarrow> ('k, 'e, 's, 'p, 'c) Store \<Rightarrow> ('k, 'e, 's, 'p, 'c) Store" where
  "rm_insert_bulk env rd kvs st =
    (let (es, st1) = mint_all env (\<lambda>t (k, v). (k, en_present (re_entry env) t v)) kvs st in replica_insert_bulk env rd es st1)"

definition load_bulk ::
  "('e, 't, 'v, 's, 'c) ReplicaEnv \<Rightarrow> Readings \<Rightarrow> ('k::linorder \<times> 'v) list \<Rightarrow> ('k, 'e, 's, 'p, 'c) Store \<Rightarrow> ('k, 'e, 's, 'p, 'c) Store" where
  "load_bulk env rd kvs st =
    (let (es, st1) = mint_all env (\<lambda>t (k, v). (k, en_present (re_entry env) t v)) kvs st in just_insert_bulk env rd es st1)"

definition rm_remove ::
  "('e, 't, 'v, 's, 'c) ReplicaEnv \<Rightarrow> Readings \<Rightarrow> 'k::linorder \<Rightarrow> ('k, 'e, 's, 'p, 'c) Store \<Rightarrow> 'v option \<times> ('k, 'e, 's, 'p, 'c) Store" where
  "rm_remove env rd k st =
    (let (t, st1) = clock_now env st; (ret, st2) = replica_insert env rd k (en_tombstone (re_entry env) t) st1
     in (Option.bind ret (en_value (re_entry env)), st2))"

definition remove_bulk ::
  "('e, 't, 'v, 's, 'c) ReplicaEnv \<Rightarrow> Readings \<Rightarrow> 'k::linorder list \<Rightarrow> ('k, 'e, 's, 'p, 'c) Store \<Rightarrow> ('k, 'e, 's, 'p, 'c) Store" where
  "remove_bulk env rd ks st =
    (let (es, st1) = mint_all env (\<lambda>t k. (k, en_tombstone (re_entry env) t)) ks st in replica_insert_bulk env rd es st1)"

definition live_keys_where :: "('e, 't, 'v, 's) EntryOps \<Rightarrow> ('k \<Rightarrow> 'v \<Rightarrow> bool) \<Rightarrow> ('k, 'e) kv \<Rightarrow> 'k list" where
  "live_keys_where ops select m =
    List.map_filter (\<lambda>(k, e). case en_value ops e of None \<Rightarrow> None | Some v \<Rightarrow> if select k v then Some k else None) m"

definition rm_retain ::
  "('e, 't, 'v, 's, 'c) ReplicaEnv \<Rightarrow> Readings \<Rightarrow> ('k::linorder \<Rightarrow> 'v \<Rightarrow> bool) \<Rightarrow> ('k, 'e, 's, 'p, 'c) Store \<Rightarrow> ('k, 'e, 's, 'p, 'c) Store" where
  "rm_retain env rd keep st =
    (let ks = live_keys_where (re_entry env) (\<lambda>k v. \<not> keep k v) (st_map st) in if ks \<noteq> [] then remove_bulk env rd ks st else st)"

definition rm_clear :: "('e, 't, 'v, 's, 'c) ReplicaEnv \<Rightarrow> Readings \<Rightarrow> ('k::linorder, 'e, 's, 'p, 'c) Store \<Rightarrow> ('k, 'e, 's, 'p, 'c) Store" where
  "rm_clear env rd st =
    (let ks = live_keys_where (re_entry env) (\<lambda>_ _. True) (st_map st) in if ks \<noteq> [] then remove_bulk env rd ks st else st)"

definition delete_range ::
  "('e, 't, 'v, 's, 'c) ReplicaEnv \<Rightarrow> Readings \<Rightarrow> ('k::linorder \<Rightarrow> bool) \<Rightarrow> ('k, 'e, 's, 'p, 'c) Store \<Rightarrow> ('k, 'e, 's, 'p, 'c) Store" where
  "delete_range env rd within st =
    (let ks = live_keys_where (re_entry env) (\<lambda>_ _. True) (filter (\<lambda>(k, _). within k) (st_map st))
     in if ks \<noteq> [] then remove_bulk env rd ks st else st)"

section \<open>In-place mutation\<close>

text \<open>The entry a mutation leaves behind goes into the map, the projection and the journal.\<close>

definition mutate_entry ::
  "('e, 't, 'v, 's, 'c) ReplicaEnv \<Rightarrow> 'k::linorder \<Rightarrow> 'e \<Rightarrow> ('k, 'e, 's, 'p, 'c) Store \<Rightarrow> ('k, 'e, 's, 'p, 'c) Store" where
  "mutate_entry env k e st =
    record_changes 1 (st\<lparr>st_map := bt_insert k e (st_map st), st_projection := bt_insert k (en_project (re_entry env) e) (st_projection st),
      snapshot_generations := record_entry k e (snapshot_generations st)\<rparr>)"

definition get_mut ::
  "('e, 't, 'v, 's, 'c) ReplicaEnv \<Rightarrow> Readings \<Rightarrow> 'k::linorder \<Rightarrow> ('v \<Rightarrow> 'v) \<Rightarrow> ('k, 'e, 's, 'p, 'c) Store \<Rightarrow> ('k, 'e, 's, 'p, 'c) Store" where
  "get_mut env rd k f st =
    (let (t, st1) = clock_now env st; ops = re_entry env
     in case map_of (st_map st1) k of
          None \<Rightarrow> st1
        | Some e \<Rightarrow>
           let mutated = (case en_value ops e of None \<Rightarrow> e | Some v \<Rightarrow> en_set_value ops (f v) e);
               e' = en_set_stamp ops t mutated
           in queue_broadcast env rd [(k, e')] (mutate_entry env k e' st1))"

record ValueTooLarge =
  encoded_size :: nat
  vl_max_value_size :: nat

definition check_value_size :: "('e, 't, 'v, 's, 'c) ReplicaEnv \<Rightarrow> 'v \<Rightarrow> nat option \<Rightarrow> ValueTooLarge + unit" where
  "check_value_size env v limit =
    (case limit of
       None \<Rightarrow> Inr ()
     | Some m \<Rightarrow>
        let n = length (re_encode_value env v) in if m < n then Inl \<lparr>encoded_size = n, vl_max_value_size = m\<rparr> else Inr ())"

definition mutate_live_checked ::
  "('e, 't, 'v, 's, 'c) ReplicaEnv \<Rightarrow> 'k::linorder \<Rightarrow> ('v \<Rightarrow> 'v) \<Rightarrow> ('v \<Rightarrow> ValueTooLarge + unit) \<Rightarrow> ('k, 'e, 's, 'p, 'c) Store \<Rightarrow>
    (ValueTooLarge + 'e option) \<times> ('k, 'e, 's, 'p, 'c) Store" where
  "mutate_live_checked env k f validate st =
    (let (t, st1) = clock_now env st; ops = re_entry env
     in case Option.bind (map_of (st_map st1) k) (\<lambda>e. map_option (Pair e) (en_value ops e)) of
          None \<Rightarrow> (Inr None, st1)
        | Some (e, v) \<Rightarrow>
           let e' = en_set_stamp ops t (en_set_value ops (f v) e)
           in case validate (the (en_value ops e')) of
                Inl err \<Rightarrow> (Inl err, st1)
              | Inr _ \<Rightarrow> (Inr (Some e'), mutate_entry env k e' st1))"

definition mutate_live ::
  "('e, 't, 'v, 's, 'c) ReplicaEnv \<Rightarrow> Readings \<Rightarrow> 'k::linorder \<Rightarrow> ('v \<Rightarrow> 'v) \<Rightarrow> ('k, 'e, 's, 'p, 'c) Store \<Rightarrow> bool \<times> ('k, 'e, 's, 'p, 'c) Store" where
  "mutate_live env rd k f st =
    (let (r, st1) = mutate_live_checked env k f (\<lambda>_. Inr ()) st
     in case projr r of None \<Rightarrow> (False, st1) | Some e \<Rightarrow> (True, queue_broadcast env rd [(k, e)] st1))"

record Backpressure =
  bp_in_flight :: nat
  bp_max_in_flight :: nat

datatype WriteRejected = TooLarge ValueTooLarge | BackpressureHit Backpressure

definition try_update ::
  "('e, 't, 'v, 's, 'c) ReplicaEnv \<Rightarrow> Readings \<Rightarrow> 'k::linorder \<Rightarrow> ('v \<Rightarrow> 'v) \<Rightarrow> ('k, 'e, 's, 'p, 'c) Store \<Rightarrow>
    (WriteRejected + bool) \<times> ('k, 'e, 's, 'p, 'c) Store" where
  "try_update env rd k f st =
    (let (claimed, st1) = try_claim_broadcast_slot env st
     in if \<not> claimed then (Inl (BackpressureHit \<lparr>bp_in_flight = broadcasts_in_flight st1, bp_max_in_flight = re_max_broadcasts env\<rparr>), st1)
        else let (r, st2) = mutate_live_checked env k f (\<lambda>v. check_value_size env v (re_max_value_size env)) st1
             in case r of
                  Inr (Some e) \<Rightarrow> (Inr True, spawn_broadcast rd [(k, e)] st2)
                | Inr None \<Rightarrow> (Inr False, release_broadcast_slot st2)
                | Inl err \<Rightarrow> (Inl (TooLarge err), release_broadcast_slot st2))"

definition upsert ::
  "('e, 't, 'v, 's, 'c) ReplicaEnv \<Rightarrow> Readings \<Rightarrow> 'k::linorder \<Rightarrow> 'v \<Rightarrow> ('v \<Rightarrow> 'v) \<Rightarrow> ('k, 'e, 's, 'p, 'c) Store \<Rightarrow> ('k, 'e, 's, 'p, 'c) Store" where
  "upsert env rd k dflt f st =
    (let (live, st1) = mutate_live env rd k f st in if live then st1 else snd (rm_insert env rd k dflt st1))"

definition rm_get :: "('e, 't, 'v, 's, 'c) ReplicaEnv \<Rightarrow> 'k \<Rightarrow> ('k, 'e, 's, 'p, 'c) Store \<Rightarrow> 'v option" where
  "rm_get env k st = Option.bind (map_of (st_map st) k) (en_value (re_entry env))"

definition get_or_insert_with ::
  "('e, 't, 'v, 's, 'c) ReplicaEnv \<Rightarrow> Readings \<Rightarrow> 'k::linorder \<Rightarrow> 'v \<Rightarrow> ('k, 'e, 's, 'p, 'c) Store \<Rightarrow> 'v \<times> ('k, 'e, 's, 'p, 'c) Store" where
  "get_or_insert_with env rd k fresh st =
    (case rm_get env k st of Some v \<Rightarrow> (v, st) | None \<Rightarrow> (fresh, snd (rm_insert env rd k fresh st)))"

definition rm_try_insert ::
  "('e, 't, 'v, 's, 'c) ReplicaEnv \<Rightarrow> Readings \<Rightarrow> 'k::linorder \<Rightarrow> 'v \<Rightarrow> ('k, 'e, 's, 'p, 'c) Store \<Rightarrow>
    (WriteRejected + 'v option) \<times> ('k, 'e, 's, 'p, 'c) Store" where
  "rm_try_insert env rd k v st =
    (case check_value_size env v (re_max_value_size env) of
       Inl err \<Rightarrow> (Inl (TooLarge err), st)
     | Inr _ \<Rightarrow>
        let (t, st1) = clock_now env st; (r, st2) = replica_try_insert env rd k (en_present (re_entry env) t v) st1
        in case r of
             Inr ret \<Rightarrow> (Inr (Option.bind ret (en_value (re_entry env))), st2)
           | Inl _ \<Rightarrow> (Inl (BackpressureHit \<lparr>bp_in_flight = broadcasts_in_flight st2, bp_max_in_flight = re_max_broadcasts env\<rparr>), st2))"

section \<open>All operations\<close>

text \<open>A detached task runs to its end and leaves the list of tasks.\<close>

definition run_task ::
  "('e, 't, 'v, 's, 'c) ReplicaEnv \<Rightarrow> Readings \<Rightarrow> nat \<Rightarrow> ('k, 'e, 's, 'p, 'c) Store \<Rightarrow> ('k, 'e, 's, 'p, 'c) Store" where
  "run_task env rd i st =
    (if i < length (st_tasks st)
     then let st1 = st\<lparr>st_tasks := take i (st_tasks st) @ drop (Suc i) (st_tasks st)\<rparr>
          in case st_tasks st ! i of BroadcastTask ps kvs \<Rightarrow> finish_broadcast rd ps st1 | FlushTask _ \<Rightarrow> coalesce_flush env rd st1
     else st)"

datatype ('k, 'e, 'v, 't, 'p) store_op =
    Insert 'k 'v | InsertBulk "('k \<times> 'v) list" | LoadBulk "('k \<times> 'v) list" | Remove 'k | RemoveBulk "'k list"
  | Retain "'k \<Rightarrow> 'v \<Rightarrow> bool" | Clear | DeleteRange "'k \<Rightarrow> bool" | GetMut 'k "'v \<Rightarrow> 'v" | Update 'k "'v \<Rightarrow> 'v"
  | TryUpdate 'k "'v \<Rightarrow> 'v" | Upsert_op 'k 'v "'v \<Rightarrow> 'v" | GetOrInsert 'k 'v | TryInsert 'k 'v
  | Receive "('k \<times> 'e) list" 'p | Commit "('k \<times> 'e) list" | Acks "('k \<times> 64 word) list" 'p
  | Admit 'p | Seed 'p | Decommission 'p | Collect 'k 't int nat | RunTask nat | SetCoalesceWindow duration

fun apply_op ::
  "('e, 't::linorder, 'v, 's, 'c) ReplicaEnv \<Rightarrow> Readings \<Rightarrow> ('k::linorder, 'e, 'v, 't, 'p) store_op \<Rightarrow>
    ('k, 'e, 's, 'p, 'c) Store \<Rightarrow> ('k, 'e, 's, 'p, 'c) Store" where
  "apply_op env rd (Insert k v) st = snd (rm_insert env rd k v st)"
| "apply_op env rd (InsertBulk kvs) st = rm_insert_bulk env rd kvs st"
| "apply_op env rd (LoadBulk kvs) st = load_bulk env rd kvs st"
| "apply_op env rd (Remove k) st = snd (rm_remove env rd k st)"
| "apply_op env rd (RemoveBulk ks) st = remove_bulk env rd ks st"
| "apply_op env rd (Retain keep) st = rm_retain env rd keep st"
| "apply_op env rd Clear st = rm_clear env rd st"
| "apply_op env rd (DeleteRange r) st = delete_range env rd r st"
| "apply_op env rd (GetMut k f) st = get_mut env rd k f st"
| "apply_op env rd (Update k f) st = snd (mutate_live env rd k f st)"
| "apply_op env rd (TryUpdate k f) st = snd (try_update env rd k f st)"
| "apply_op env rd (Upsert_op k d f) st = upsert env rd k d f st"
| "apply_op env rd (GetOrInsert k v) st = snd (get_or_insert_with env rd k v st)"
| "apply_op env rd (TryInsert k v) st = snd (rm_try_insert env rd k v st)"
| "apply_op env rd (Receive us p) st = snd (snd (receive_updates env rd us p st))"
| "apply_op env rd (Commit us) st = snd (commit_updates env us st)"
| "apply_op env rd (Acks as p) st = record_tombstone_acks env as p st"
| "apply_op env rd (Admit p) st = admit_member rd p st"
| "apply_op env rd (Seed p) st = seed_peer rd p st"
| "apply_op env rd (Decommission p) st = decommission_peer p st"
| "apply_op env rd (Collect k t now r) st = snd (collect_candidate env k t now r st)"
| "apply_op env rd (RunTask i) st = run_task env rd i st"
| "apply_op env rd (SetCoalesceWindow w) st = st\<lparr>coalesce_window := w\<rparr>"

section \<open>The store invariant\<close>

lemma core_clock_now [core_simps]: "core (snd (clock_now env st)) = core st"
  by (simp add: clock_now_def core_def split: prod.split)

lemma core_mint_all [core_simps]: "core (snd (mint_all env mk xs st)) = core st"
proof (induction xs arbitrary: st)
  case (Cons x xs)
  from Cons [of "snd (clock_now env st)"] show ?case by (simp add: core_clock_now split_beta)
qed simp

text \<open>First the clock, then a sound operation.\<close>

lemma sound_after: "core st1 = core st \<Longrightarrow> sound env st1 st2 \<Longrightarrow> sound env st st2"
  by (rule sound_trans [OF sound_core])

lemma sound_remove_bulk: "sound env st (remove_bulk env rd ks st)"
  unfolding remove_bulk_def Let_def split_beta by (rule sound_after [OF core_mint_all sound_replica_insert_bulk])

lemma sound_rm_insert: "sound env st (snd (rm_insert env rd k v st))" "sound env st (snd (rm_remove env rd k st))"
  using sound_after [OF core_clock_now sound_replica_insert] by (simp_all add: rm_insert_def rm_remove_def split_beta)

lemma sound_mutate_entry:
  assumes "map_of (st_map st) k = Some e" "en_is_tombstone (re_entry env) e' = en_is_tombstone (re_entry env) e"
  shows "sound env st (mutate_entry env k e' st)"
proof -
  have "store_ok env st \<Longrightarrow> set (live_tombstones (snd (map_insert env k e' st))) = set (live_tombstones st)"
    using assms by (auto simp: store_ok_def map_insert_def)
  then have live: "store_ok env st \<Longrightarrow> store_ok env (snd (map_insert env k e' st)) \<Longrightarrow> store_ok env (mutate_entry env k e' st)"
    by (auto simp: store_ok_def mutate_entry_def map_insert_def record_changes_def)
  moreover have "runtime_view (mutate_entry env k e' st) = runtime_view (snd (map_insert env k e' st))"
    "snapshot_generations (mutate_entry env k e' st) = snapshot_generations (snd (map_insert env k e' st))"
    by (simp_all add: runtime_view_def mutate_entry_def map_insert_def record_changes_def)
  ultimately show ?thesis using sound_map_insert [of env st k e'] by (simp add: sound_def)
qed

lemma sound_get_mut:
  assumes "entry_laws (re_entry env)"
  shows "sound env st (get_mut env rd k f st)"
proof -
  obtain t st1 where c: "clock_now env st = (t, st1)" by fastforce
  have cc: "core st1 = core st" using core_clock_now [of env st] by (simp add: c)
  have "sound env st1 (get_mut env rd k f st)"
  proof (cases "map_of (st_map st1) k")
    case (Some e)
    let ?e = "en_set_stamp (re_entry env) t (case en_value (re_entry env) e of None \<Rightarrow> e | Some v \<Rightarrow> en_set_value (re_entry env) (f v) e)"
    have "en_is_tombstone (re_entry env) ?e = en_is_tombstone (re_entry env) e"
      using assms by (auto simp: entry_laws_def split: option.split)
    from sound_mutate_entry [OF Some this] show ?thesis
      using Some by (auto simp: get_mut_def c Let_def core_simps intro: sound_then_core)
  qed (simp add: get_mut_def c)
  then show ?thesis by (rule sound_after [OF cc])
qed

lemma sound_mutate_live_checked:
  assumes "entry_laws (re_entry env)"
  shows "sound env st (snd (mutate_live_checked env k f val st))"
proof -
  obtain t st1 where c: "clock_now env st = (t, st1)" by fastforce
  have cc: "core st1 = core st" using core_clock_now [of env st] by (simp add: c)
  have "sound env st1 (snd (mutate_live_checked env k f val st))"
  proof (cases "map_of (st_map st1) k")
    case (Some e)
    have "en_value (re_entry env) e = Some v \<Longrightarrow>
        en_is_tombstone (re_entry env) (en_set_stamp (re_entry env) t (en_set_value (re_entry env) (f v) e)) = en_is_tombstone (re_entry env) e" for v
      using assms by (auto simp: entry_laws_def)
    from sound_mutate_entry [OF Some this] show ?thesis
      using Some by (auto simp: mutate_live_checked_def c Let_def split: option.split sum.split)
  qed (simp add: mutate_live_checked_def c)
  then show ?thesis by (rule sound_after [OF cc])
qed

lemma sound_mutate_live:
  assumes "entry_laws (re_entry env)"
  shows "sound env st (snd (mutate_live env rd k f st))"
  by (rule sound_then_core [OF sound_mutate_live_checked [OF assms, of st k f "\<lambda>_. Inr ()"]])
    (simp add: mutate_live_def split_beta core_simps split: option.split)

lemma sound_try_update:
  assumes "entry_laws (re_entry env)"
  shows "sound env st (snd (try_update env rd k f st))"
proof -
  obtain claimed st1 where c: "try_claim_broadcast_slot env st = (claimed, st1)" by fastforce
  have cc: "core st1 = core st" using core_claim [of env st] by (simp add: c)
  let ?m = "mutate_live_checked env k f (\<lambda>v. check_value_size env v (re_max_value_size env)) st1"
  have "core (snd (try_update env rd k f st)) = core (if claimed then snd ?m else st1)"
    by (simp add: try_update_def c split_beta core_simps split: option.split sum.split)
  then have "sound env st1 (snd (try_update env rd k f st))"
    using sound_mutate_live_checked [OF assms, of st1] by (cases claimed) (auto intro: sound_then_core sound_core)
  then show ?thesis by (rule sound_after [OF cc])
qed

lemma sound_try_insert_api: "sound env st (snd (rm_try_insert env rd k v st))"
  by (simp add: rm_try_insert_def Let_def split_beta sound_after [OF core_clock_now sound_try_insert] split: sum.split)

lemma core_run_task [core_simps]: "core (run_task env rd i st) = core st"
  by (auto simp: run_task_def Let_def core_simps split: task.split) (simp_all add: core_def)

lemma core_window [core_simps]: "core (st\<lparr>coalesce_window := w\<rparr>) = core st"
  by (simp add: core_def)

lemma sound_apply_op:
  assumes "entry_laws (re_entry env)"
  shows "sound env st (apply_op env rd op st)"
proof (cases op)
  case (Upsert_op k d f)
  then show ?thesis
    by (simp add: upsert_def Let_def split_beta sound_mutate_live [OF assms] sound_trans [OF sound_mutate_live [OF assms] sound_rm_insert(1)])
next
  case (Receive us p)
  then show ?thesis using sound_core [OF core_receive [of env rd us p st]] by (metis apply_op.simps(15) prod.collapse)
qed (auto simp: sound_rm_insert rm_insert_bulk_def load_bulk_def split_beta rm_retain_def rm_clear_def delete_range_def Let_def
    sound_remove_bulk sound_after [OF core_mint_all sound_replica_insert_bulk] sound_after [OF core_mint_all sound_bulk]
    sound_get_mut [OF assms] sound_mutate_live [OF assms] sound_try_update [OF assms] get_or_insert_with_def sound_try_insert_api
    sound_commit sound_tombstone_acks sound_admit_member sound_decommission sound_collect
    sound_core [OF core_seed] sound_core [OF core_run_task] sound_core [OF core_window] split: option.split)

section \<open>The broadcast budget\<close>

text \<open>Every claimed slot belongs to one unfinished broadcast task, and the buffer of coalesced writes is
  non-empty exactly while one flush is scheduled.\<close>

definition is_broadcast :: "('k, 'e, 'p) task \<Rightarrow> bool" where
  "is_broadcast t = (case t of BroadcastTask _ _ \<Rightarrow> True | FlushTask _ \<Rightarrow> False)"

definition egress_ok :: "('e, 't, 'v, 's, 'c) ReplicaEnv \<Rightarrow> ('k, 'e, 's, 'p, 'c) Store \<Rightarrow> bool" where
  "egress_ok env st \<longleftrightarrow>
    broadcasts_in_flight st = length (filter is_broadcast (st_tasks st)) \<and> broadcasts_in_flight st \<le> re_max_broadcasts env \<and>
    length (filter (\<lambda>t. \<not> is_broadcast t) (st_tasks st)) = (if coalesce_pending st = [] then 0 else 1)"

text \<open>The part of the state the budget is about.\<close>

definition egress :: "('k, 'e, 's, 'p, 'c) Store \<Rightarrow> nat \<times> ('k, 'e, 'p) task list \<times> ('k, 'e) kv" where
  "egress st = (broadcasts_in_flight st, st_tasks st, coalesce_pending st)"

lemma egress_frame: "egress st' = egress st \<Longrightarrow> egress_ok env st' = egress_ok env st"
  by (simp add: egress_def egress_ok_def)

named_theorems egress_simps \<open>operations that broadcast nothing\<close>

lemma egress_basic [egress_simps]:
  "egress (pre_insert env rd k e st) = egress st" "egress (record_changes n st) = egress st" "egress (snd (get_peers rd st)) = egress st"
  "egress (snd (clock_now env st)) = egress st" "egress (seed_peer rd p st) = egress st" "egress (admit_member rd p st) = egress st"
  by (auto simp: egress_def pre_insert_def record_changes_def get_peers_def clock_now_def seed_peer_def admit_member_def Let_def
      split: prod.split)

lemma egress_write [egress_simps]:
  "egress (snd (map_insert env k e st)) = egress st" "egress (mutate_entry env k e st) = egress st"
  "egress (snd (collect_candidate env k t now r st)) = egress st"
  by (auto simp: egress_def map_insert_def record_changes_def mutate_entry_def collect_candidate_def collect_remove_def Let_def
      split: option.split)

lemma egress_foldl: "(\<And>s x. egress (g (f s x)) = egress (g s)) \<Longrightarrow> egress (g (foldl f s xs)) = egress (g s)"
  by (induction xs arbitrary: s) auto

lemma egress_just_insert [egress_simps]: "egress (snd (just_insert env rd k e st)) = egress st"
  by (simp add: just_insert_def split_beta egress_simps)

lemma egress_hooks [egress_simps]: "egress (foldl (\<lambda>s (k, e). pre_insert env rd k e s) st kvs) = egress st"
  by (rule egress_foldl [of "\<lambda>s. s"]) (simp add: split_beta egress_simps)

lemma egress_bulk [egress_simps]: "egress (just_insert_bulk env rd kvs st) = egress st"
proof -
  have all: "egress (foldl (\<lambda>s (k, e). snd (map_insert env k e s)) s kvs) = egress s" for s
    by (rule egress_foldl [of "\<lambda>s. s"]) (simp add: split_beta egress_simps)
  show ?thesis by (simp add: just_insert_bulk_def Let_def egress_simps all)
qed

lemma egress_mint_all [egress_simps]: "egress (snd (mint_all env mk xs st)) = egress st"
proof (induction xs arbitrary: st)
  case (Cons x xs)
  from Cons [of "snd (clock_now env st)"] show ?case by (simp add: egress_simps split_beta)
qed simp

lemma egress_receive [egress_simps]: "egress (snd (snd (receive_updates env rd us p st))) = egress st"
  by (simp add: receive_updates_def Let_def split_beta egress_simps) (simp add: egress_def)

lemma egress_commit [egress_simps]: "egress (snd (commit_updates env us st)) = egress st"
proof -
  have step: "egress (snd (commit_update env s kv)) = egress (snd s)" for s kv
    by (simp add: commit_update_def Let_def split_beta egress_simps split: option.split) (simp add: egress_def collision_report_def)
  have "egress (snd (foldl (commit_update env) s us)) = egress (snd s)" for s
    by (rule egress_foldl [of snd]) (rule step)
  note all = this
  show ?thesis by (simp add: commit_updates_def split_beta egress_simps all)
qed

lemma egress_acks [egress_simps]: "egress (record_tombstone_acks env as p st) = egress st"
proof -
  have step: "egress (snd (record_tombstone_ack env p s ka)) = egress (snd s)" for s ka
    by (simp add: record_tombstone_ack_def Let_def split_beta split: option.split) (simp add: egress_def)
  have "egress (snd (foldl (record_tombstone_ack env p) s as)) = egress (snd s)" for s
    by (rule egress_foldl [of snd]) (rule step)
  note all = this
  show ?thesis by (simp add: record_tombstone_acks_def split_beta egress_simps all)
qed

lemma egress_decommission [egress_simps]: "egress (decommission_peer p st) = egress st"
proof -
  have step: "egress (snd (forget_peer_ack p s k)) = egress (snd s)" for s k
    by (simp add: forget_peer_ack_def Let_def split_beta egress_def)
  have "egress (snd (foldl (forget_peer_ack p) s ks)) = egress (snd s)" for s ks
    by (rule egress_foldl [of snd]) (rule step)
  note all = this
  show ?thesis by (simp add: decommission_peer_def Let_def split_beta egress_simps all) (simp add: egress_def)
qed

lemma egress_mutate [egress_simps]: "egress (snd (mutate_live_checked env k f val st)) = egress st"
  by (simp add: mutate_live_checked_def Let_def split_beta egress_simps split: option.split sum.split)

text \<open>The operations that do broadcast.\<close>

lemma egress_spawn: "egress (spawn_broadcast rd kvs st) = (broadcasts_in_flight st, st_tasks st @ [BroadcastTask (fst (get_peers rd st)) kvs], coalesce_pending st)"
  by (simp add: spawn_broadcast_def split_beta egress_def get_peers_def Let_def)

lemma egress_ok_spawn:
  assumes "egress_ok env st" "try_claim_broadcast_slot env st = (True, st1)" "egress st2 = egress st1"
  shows "egress_ok env (spawn_broadcast rd kvs st2)"
  using assms egress_spawn [of rd kvs st2]
  by (auto simp: egress_ok_def egress_def try_claim_broadcast_slot_def is_broadcast_def split: if_splits)

lemma egress_ok_release:
  assumes "egress_ok env st" "try_claim_broadcast_slot env st = (True, st1)" "egress st2 = egress st1" "re_max_broadcasts env < 2 ^ 64"
  shows "egress_ok env (release_broadcast_slot st2)"
proof -
  have eq: "broadcasts_in_flight st2 = Suc (broadcasts_in_flight st)" "st_tasks st2 = st_tasks st" "coalesce_pending st2 = coalesce_pending st"
    "broadcasts_in_flight st < re_max_broadcasts env"
    using assms by (auto simp: egress_def try_claim_broadcast_slot_def split: if_splits)
  have "(Suc n + usize_max) mod 2 ^ 64 = n" if "n < 2 ^ 64" for n using that by (simp add: usize_max_def)
  then show ?thesis using assms(1,4) eq by (simp add: egress_ok_def release_broadcast_slot_def)
qed

lemma egress_ok_broadcast: "egress_ok env st \<Longrightarrow> egress_ok env (broadcast env rd kvs st)"
  using egress_ok_spawn [OF _ _ refl, of env st]
  by (auto simp: broadcast_def try_claim_broadcast_slot_def split: if_splits)

lemma egress_ok_queue: "egress_ok env st \<Longrightarrow> egress_ok env (queue_broadcast env rd kvs st)"
proof -
  assume ok: "egress_ok env st"
  have ne: "m \<noteq> [] \<or> kvs \<noteq> [] \<Longrightarrow> foldl (coalesce_entry (re_entry env)) m kvs \<noteq> []" for m
    by (induction kvs arbitrary: m) (auto simp: coalesce_entry_def split: option.split)
  show ?thesis
  proof (cases "kvs = [] \<or> coalesce_window st = 0")
    case True
    then show ?thesis using ok by (auto simp: queue_broadcast_def egress_ok_broadcast)
  next
    case False
    then show ?thesis using ok ne [of "coalesce_pending st"]
      by (auto simp: queue_broadcast_def Let_def egress_ok_def is_broadcast_def)
  qed
qed

lemma egress_ok_run_task:
  assumes "egress_ok env st" "re_max_broadcasts env < 2 ^ 64"
  shows "egress_ok env (run_task env rd i st)"
proof (cases "i < length (st_tasks st)")
  case True
  let ?ts = "take i (st_tasks st) @ drop (Suc i) (st_tasks st)" and ?t = "st_tasks st ! i"
  have split: "st_tasks st = take i (st_tasks st) @ ?t # drop (Suc i) (st_tasks st)" using True by (rule id_take_nth_drop)
  have len: "length (filter P (st_tasks st)) = length (filter P ?ts) + (if P ?t then 1 else 0)" for P
    by (subst split) simp
  show ?thesis
  proof (cases ?t)
    case (BroadcastTask ps kvs)
    then have "broadcasts_in_flight st = Suc (length (filter is_broadcast ?ts))" "broadcasts_in_flight st < 2 ^ 64"
      using assms len [of is_broadcast] by (auto simp: egress_ok_def is_broadcast_def)
    then have "(broadcasts_in_flight st + usize_max) mod 2 ^ 64 = length (filter is_broadcast ?ts)" by (simp add: usize_max_def)
    then show ?thesis using assms(1) True BroadcastTask len [of is_broadcast] len [of "\<lambda>t. \<not> is_broadcast t"]
      by (auto simp: run_task_def finish_broadcast_def release_broadcast_slot_def egress_ok_def is_broadcast_def)
  next
    case (FlushTask w)
    then have one: "length (filter (\<lambda>t. \<not> is_broadcast t) ?ts) = 0" "length (filter is_broadcast ?ts) = broadcasts_in_flight st"
      using assms(1) len [of is_broadcast] len [of "\<lambda>t. \<not> is_broadcast t"] by (auto simp: egress_ok_def is_broadcast_def split: if_splits)
    have "egress_ok env (st\<lparr>st_tasks := ?ts, coalesce_pending := []\<rparr>)" using assms(1) one by (simp add: egress_ok_def)
    then show ?thesis using True FlushTask by (simp add: run_task_def coalesce_flush_def Let_def egress_ok_broadcast)
  qed
qed (simp add: run_task_def assms)

lemma egress_ok_inserts:
  assumes "egress_ok env st"
  shows "egress_ok env (snd (replica_insert env rd k e st))" "egress_ok env (replica_insert_bulk env rd kvs st)"
  using egress_ok_queue assms
  by (simp_all add: replica_insert_def replica_insert_bulk_def split_beta egress_frame [OF egress_just_insert] egress_frame [OF egress_bulk] egress_ok_queue)

lemma egress_ok_minted:
  assumes "egress_ok env st"
  shows "egress_ok env (snd (clock_now env st))" "egress_ok env (snd (mint_all env mk xs st))"
  using assms by (simp_all add: egress_frame [OF egress_mint_all] egress_frame [OF egress_basic(4)])

lemma egress_ok_remove_bulk: "egress_ok env st \<Longrightarrow> egress_ok env (remove_bulk env rd ks st)"
  by (simp add: remove_bulk_def split_beta egress_ok_inserts egress_ok_minted)

lemma egress_ok_rm_insert: "egress_ok env st \<Longrightarrow> egress_ok env (snd (rm_insert env rd k v st))"
  by (simp add: rm_insert_def split_beta egress_ok_inserts egress_ok_minted)

lemma egress_ok_mutate_live: "egress_ok env st \<Longrightarrow> egress_ok env (snd (mutate_live env rd k f st))"
  by (simp add: mutate_live_def split_beta egress_frame [OF egress_mutate] egress_ok_queue split: option.split)

lemma egress_ok_try:
  assumes "egress_ok env st" "re_max_broadcasts env < 2 ^ 64"
  shows "egress_ok env (snd (try_update env rd k f st))" "egress_ok env (snd (replica_try_insert env rd k e st))"
proof -
  obtain claimed st1 where c: "try_claim_broadcast_slot env st = (claimed, st1)" by fastforce
  show "egress_ok env (snd (replica_try_insert env rd k e st))"
    using assms egress_ok_spawn [OF assms(1), of st1 "snd (just_insert env rd k e st1)" rd "[(k, e)]"] c
    by (cases claimed) (auto simp: replica_try_insert_def split_beta egress_just_insert try_claim_broadcast_slot_def split: if_splits)
  let ?m = "mutate_live_checked env k f (\<lambda>v. check_value_size env v (re_max_value_size env)) st1"
  show "egress_ok env (snd (try_update env rd k f st))"
  proof (cases claimed)
    case True
    then have c1: "try_claim_broadcast_slot env st = (True, st1)" using c by simp
    have "egress_ok env (release_broadcast_slot (snd ?m))" "egress_ok env (spawn_broadcast rd kvs (snd ?m))" for kvs
      by (rule egress_ok_release [OF assms(1) c1 egress_mutate assms(2)], rule egress_ok_spawn [OF assms(1) c1 egress_mutate])
    then show ?thesis using True c by (simp add: try_update_def split_beta split: sum.split option.split)
  qed (use assms c in \<open>auto simp: try_update_def try_claim_broadcast_slot_def split: if_splits\<close>)
qed

lemma egress_ok_apply_op:
  assumes "egress_ok env st" "re_max_broadcasts env < 2 ^ 64"
  shows "egress_ok env (apply_op env rd op st)"
proof (cases op)
  case (GetMut k f)
  have "egress_ok env (mutate_entry env k e (snd (clock_now env st)))" for e
    using assms(1) by (simp add: egress_frame [OF egress_write(2)] egress_ok_minted)
  then show ?thesis using GetMut assms(1)
    by (simp add: get_mut_def split_beta Let_def egress_ok_queue egress_ok_minted split: option.split)
next
  case (SetCoalesceWindow w)
  then show ?thesis using assms(1) by (simp add: egress_ok_def)
next
  case (TryInsert k v)
  then show ?thesis using assms egress_ok_try(2) [OF egress_ok_minted(1) [OF assms(1)] assms(2)]
    by (simp add: rm_try_insert_def split_beta split: sum.split)
qed (use assms(1) in \<open>simp_all add: egress_ok_rm_insert rm_insert_bulk_def load_bulk_def rm_remove_def split_beta Let_def
    egress_ok_inserts egress_ok_minted egress_frame [OF egress_bulk] egress_ok_remove_bulk rm_retain_def rm_clear_def delete_range_def
    egress_ok_mutate_live egress_ok_try [OF assms] upsert_def get_or_insert_with_def egress_frame [OF egress_receive]
    egress_frame [OF egress_commit] egress_frame [OF egress_acks] egress_frame [OF egress_basic(6)] egress_frame [OF egress_basic(5)]
    egress_frame [OF egress_decommission] egress_frame [OF egress_write(3)] egress_ok_run_task [OF assms] split: option.split\<close>)

section \<open>Runs from construction\<close>

definition store_new :: "'c \<Rightarrow> duration \<Rightarrow> duration \<Rightarrow> ('k, 'e, 's, 'p, 'c) Store" where
  "store_new clock window repair =
    \<lparr>st_map = [], st_projection = [], live_tombstones = [], tombstone_acks = [], st_members = [], st_peers = [],
     snapshot_generations = generations_default, changes_since_snapshot = 0, broadcasts_in_flight = 0, coalesce_window = window,
     coalesce_pending = [], collision_reported = False, repair_interval = repair, pending_repairs = [], receiving_bulk_from = [],
     st_clock = clock, st_tombstones = wheel_new, st_tasks = []\<rparr>"

definition run_ops ::
  "('e, 't::linorder, 'v, 's, 'c) ReplicaEnv \<Rightarrow> (Readings \<times> ('k::linorder, 'e, 'v, 't, 'p) store_op) list \<Rightarrow>
    ('k, 'e, 's, 'p, 'c) Store \<Rightarrow> ('k, 'e, 's, 'p, 'c) Store" where
  "run_ops env ops st = foldl (\<lambda>s (rd, op). apply_op env rd op s) st ops"

lemma store_new_ok: "store_ok env (store_new c w r)" "egress_ok env (store_new c w r)"
  by (simp_all add: store_ok_def egress_ok_def store_new_def journal_ok_def generations_default_def)

lemma sound_run: "entry_laws (re_entry env) \<Longrightarrow> sound env st (run_ops env ops st)"
  unfolding run_ops_def by (rule sound_foldl [of env "\<lambda>s. s"]) (simp add: split_beta sound_apply_op)

lemma egress_run:
  assumes "egress_ok env st" "re_max_broadcasts env < 2 ^ 64"
  shows "egress_ok env (run_ops env ops st)"
  using assms by (induction ops arbitrary: st) (auto simp: run_ops_def egress_ok_apply_op split_beta)

text \<open>A small instance: entries are a stamp with an optional value, the clock counts.\<close>

definition demo_entry :: "(nat \<times> nat option, nat, nat, nat option) EntryOps" where
  "demo_entry =
    \<lparr>en_stamp = fst, en_value = snd, en_is_tombstone = (\<lambda>e. snd e = None), en_present = (\<lambda>t v. (t, Some v)), en_tombstone = (\<lambda>t. (t, None)),
     en_set_value = (\<lambda>v e. (fst e, Some v)), en_set_stamp = (\<lambda>t e. (t, snd e)), en_project = snd,
     en_merge = (\<lambda>a b. if fst a < fst b then b else a), en_version = (\<lambda>e. of_nat (fst e)),
     en_state_digest = (\<lambda>e. case snd e of None \<Rightarrow> [] | Some v \<Rightarrow> [of_nat v]), en_physical_millis = fst\<rparr>"

definition demo_replica :: "(nat \<times> nat option, nat, nat, nat option, nat) ReplicaEnv" where
  "demo_replica =
    \<lparr>re_entry = demo_entry, re_clock = \<lparr>ck_now = (\<lambda>c. (c, c + 1)), ck_observe = (\<lambda>t c. max c (t + 1)), ck_observe_trusted = (\<lambda>t c. max c (t + 1))\<rparr>,
     re_wall = \<lparr>clamped_to_drift = (\<lambda>s now b. if s \<le> now + b then (s, False) else (now + b, True)), max_datetime_millis = 8210266876799999\<rparr>,
     re_drift_budget = 60000, re_max_broadcasts = 1, re_max_value_size = Some 1, re_encode_value = (\<lambda>v. replicate v 0)\<rparr>"

definition demo_readings :: Readings where
  "demo_readings = \<lparr>rd_mono = 7, rd_phys = 1000, rd_utc = 1000000000\<rparr>"

definition demo_store :: "(nat, nat \<times> nat option, nat option, nat, nat) Store" where
  "demo_store = store_new 0 0 0"

lemma demo_laws: "entry_laws (re_entry demo_replica)"
  by (simp add: entry_laws_def demo_replica_def demo_entry_def)

text \<open>C8: whatever public writes, remote updates, acknowledgements, membership changes, collections and
  background tasks run on a fresh replica, in any order, its state stays well formed: the map and its
  projection are ordered, the projection holds exactly the projected entry of every key, the tombstone
  index holds exactly the deleted keys once each, and the acknowledgement tables, the member set and the
  change journal are well formed.\<close>

theorem replica_state_wellformed:
  assumes "entry_laws (re_entry env)"
  shows "store_ok env (run_ops env ops (store_new clock window repair))"
  using sound_run [OF assms, of "store_new clock window repair" ops] by (simp add: sound_def store_new_ok)

theorem replica_state_wellformed_witness:
  "store_ok demo_replica (run_ops demo_replica
    [(demo_readings, Insert 1 10), (demo_readings, Admit (4::nat)), (demo_readings, Remove 1), (demo_readings, GetMut (1::nat) Suc)]
    (store_new 0 0 0))"
  by (rule replica_state_wellformed [OF demo_laws])

text \<open>C13: the number of broadcasts in flight is the number of unfinished broadcast tasks and never
  exceeds the configured budget, and a coalesced write is never stranded: the buffer is non-empty
  exactly while one flush is scheduled.\<close>

theorem broadcast_budget_respected:
  assumes "re_max_broadcasts env < 2 ^ 64"
  shows "egress_ok env (run_ops env ops (store_new clock window repair))"
  by (rule egress_run [OF store_new_ok(2) assms])

theorem broadcast_budget_respected_witness:
  "egress_ok demo_replica (run_ops demo_replica
    [(demo_readings, Insert (1::nat) 10), (demo_readings, TryInsert 2 1), (demo_readings, RunTask 0), (demo_readings, Admit (4::nat))]
    (store_new 0 0 0))"
  by (rule broadcast_budget_respected) (simp add: demo_replica_def)

lemma release_claimed: "n < 2 ^ 64 \<Longrightarrow> (Suc n + usize_max) mod 2 ^ 64 = n"
  by (simp add: usize_max_def)

lemma clock_now_only: "clock_now env st = (t, st1) \<Longrightarrow> st1 = st\<lparr>st_clock := st_clock st1\<rparr>"
  by (auto simp: clock_now_def split: prod.splits)

lemma try_update_rejected:
  assumes "try_update env rd k f st = (Inl err, st')" "broadcasts_in_flight st < 2 ^ 64"
  shows "st' = st\<lparr>st_clock := st_clock st'\<rparr>"
proof (cases "broadcasts_in_flight st < re_max_broadcasts env")
  case True
  let ?st1 = "st\<lparr>broadcasts_in_flight := broadcasts_in_flight st + 1\<rparr>"
  let ?m = "mutate_live_checked env k f (\<lambda>v. check_value_size env v (re_max_value_size env)) ?st1"
  have m: "(\<exists>e. fst ?m = Inl e) \<and> st' = release_broadcast_slot (snd ?m)"
    using assms(1) True by (auto simp: try_update_def try_claim_broadcast_slot_def split: prod.splits sum.splits option.splits)
  then have "snd ?m = snd (clock_now env ?st1)"
    by (auto simp: mutate_live_checked_def Let_def split: prod.splits option.splits sum.splits)
  then show ?thesis using m assms(2)
    by (simp add: clock_now_def release_broadcast_slot_def split_beta usize_max_def)
qed (use assms(1) in \<open>auto simp: try_update_def try_claim_broadcast_slot_def\<close>)

lemma try_insert_rejected:
  assumes "rm_try_insert env rd k v st = (Inl err, st')"
  shows "st' = st\<lparr>st_clock := st_clock st'\<rparr>"
  using assms
  by (auto simp: rm_try_insert_def replica_try_insert_def try_claim_broadcast_slot_def clock_now_def split: sum.splits prod.splits if_splits)

lemma try_insert_applied:
  assumes "rm_try_insert env rd k v st = (Inr ret, st')" "keys_sorted (st_map st)"
  shows "ret = rm_get env k st \<and> (\<exists>t ps. map_of (st_map st') = (map_of (st_map st))(k \<mapsto> en_present (re_entry env) t v) \<and>
    st_tasks st' = st_tasks st @ [BroadcastTask ps [(k, en_present (re_entry env) t v)]])"
  using assms
  by (auto simp: rm_try_insert_def replica_try_insert_def try_claim_broadcast_slot_def clock_now_def just_insert_def map_insert_def
      pre_insert_def record_changes_def spawn_broadcast_def get_peers_def rm_get_def Let_def split: sum.splits prod.splits if_splits)



end
