(* ===== verification/Convergence.thy ===== *)
theory Convergence
  imports MapApi
begin

text \<open>
  Convergence of the replicated data: a node receives batches of updates, decides on a read snapshot,
  commits later under the write lock, and meanwhile performs local writes and everything else. The
  abstract specification is a last-writer-wins register per key; the lemmas show that every
  interleaving implements it, so nodes that saw the same writes hold the same data.
\<close>

section \<open>The abstract map\<close>

definition lww_write :: "('e, 't::linorder, 'v, 's) EntryOps \<Rightarrow> ('k \<Rightarrow> 'e option) \<Rightarrow> 'k \<times> 'e \<Rightarrow> ('k \<Rightarrow> 'e option)" where
  "lww_write ops m kv =
    (case m (fst kv) of
       None \<Rightarrow> m(fst kv \<mapsto> snd kv)
     | Some l \<Rightarrow> if en_stamp ops l < en_stamp ops (snd kv) then m(fst kv \<mapsto> snd kv) else m)"

definition lww :: "('e, 't::linorder, 'v, 's) EntryOps \<Rightarrow> ('k \<times> 'e) list \<Rightarrow> ('k \<Rightarrow> 'e option)" where
  "lww ops ws = foldl (lww_write ops) Map.empty ws"

text \<open>No two different writes of a key carry the same stamp: node identities are distinct.\<close>

definition collision_free :: "('e, 't, 'v, 's) EntryOps \<Rightarrow> ('k \<times> 'e) set \<Rightarrow> bool" where
  "collision_free ops W \<longleftrightarrow> (\<forall>k e e'. (k, e) \<in> W \<longrightarrow> (k, e') \<in> W \<longrightarrow> en_stamp ops e = en_stamp ops e' \<longrightarrow> e = e')"

definition newest :: "('e, 't::linorder, 'v, 's) EntryOps \<Rightarrow> ('k \<times> 'e) set \<Rightarrow> ('k \<Rightarrow> 'e option) \<Rightarrow> bool" where
  "newest ops W m \<longleftrightarrow>
    (\<forall>k e. m k = Some e \<longrightarrow> (k, e) \<in> W) \<and> (\<forall>k e. (k, e) \<in> W \<longrightarrow> (\<exists>e'. m k = Some e' \<and> en_stamp ops e \<le> en_stamp ops e'))"

lemma newest_write: "newest ops W m \<Longrightarrow> newest ops (insert kv W) (lww_write ops m kv)"
proof -
  assume n: "newest ops W m"
  obtain k e where kv: "kv = (k, e)" by (cases kv)
  show ?thesis
  proof (cases "m k")
    case None
    then have "(k, e') \<notin> W" for e' using n unfolding newest_def by (metis option.distinct(1))
    then show ?thesis using n None by (auto simp: newest_def lww_write_def kv)
  next
    case (Some l)
    then have "(k, e') \<in> W \<Longrightarrow> en_stamp ops e' \<le> en_stamp ops l" for e' using n unfolding newest_def by (metis option.inject)
    then show ?thesis using n Some by (force simp: newest_def lww_write_def kv)
  qed
qed

lemma newest_lww: "newest ops (set ws) (lww ops ws)"
proof -
  have "newest ops W m \<Longrightarrow> newest ops (W \<union> set ws) (foldl (lww_write ops) m ws)" for W m
    by (induction ws arbitrary: W m) (use newest_write in fastforce)+
  from this [of "{}" Map.empty] show ?thesis by (simp add: newest_def lww_def)
qed

lemma newest_unique:
  assumes "newest ops W m" "newest ops W m'" "collision_free ops W"
  shows "m = m'"
proof
  fix k
  show "m k = m' k"
  proof (cases "m k")
    case None
    then show ?thesis using assms(1,2) by (cases "m' k") (auto simp: newest_def, force)
  next
    case (Some e)
    then obtain e' where e': "m' k = Some e'" "en_stamp ops e \<le> en_stamp ops e'" using assms(1,2) unfolding newest_def by blast
    then have "en_stamp ops e' \<le> en_stamp ops e" using assms(1,2) Some unfolding newest_def by (metis option.inject)
    then show ?thesis using e' Some assms by (metis antisym collision_free_def newest_def)
  qed
qed

section \<open>A node and its schedules\<close>

text \<open>Batches that were decided and wait for the write lock are in flight.\<close>

record ('k, 'e, 's, 'p, 'c) Node =
  nd_store :: "('k, 'e, 's, 'p, 'c) Store"
  nd_inflight :: "('k \<times> 'e) list list"

datatype ('k, 'e, 'v, 't, 'p) event =
    Deliver Readings "('k \<times> 'e) list" 'p
  | CommitBatch nat
  | Write Readings 'k 'e
  | Background Readings "('k, 'e, 'v, 't, 'p) store_op"

fun node_step ::
  "('e, 't::linorder, 'v, 's, 'c) ReplicaEnv \<Rightarrow> ('k::linorder, 'e, 's, 'p, 'c) Node \<Rightarrow> ('k, 'e, 'v, 't, 'p) event \<Rightarrow> ('k, 'e, 's, 'p, 'c) Node" where
  "node_step env nd (Deliver rd us p) =
    (let (to_apply, _, st) = receive_updates env rd us p (nd_store nd) in \<lparr>nd_store = st, nd_inflight = nd_inflight nd @ [to_apply]\<rparr>)"
| "node_step env nd (CommitBatch i) =
    (if i < length (nd_inflight nd)
     then \<lparr>nd_store = snd (commit_updates env (nd_inflight nd ! i) (nd_store nd)),
           nd_inflight = take i (nd_inflight nd) @ drop (Suc i) (nd_inflight nd)\<rparr>
     else nd)"
| "node_step env nd (Write rd k e) = nd\<lparr>nd_store := snd (replica_insert env rd k e (nd_store nd))\<rparr>"
| "node_step env nd (Background rd op) = nd\<lparr>nd_store := apply_op env rd op (nd_store nd)\<rparr>"

definition node_run where
  "node_run env evs nd = foldl (node_step env) nd evs"

definition node_new :: "'c \<Rightarrow> duration \<Rightarrow> duration \<Rightarrow> ('k, 'e, 's, 'p, 'c) Node" where
  "node_new c w r = \<lparr>nd_store = store_new c w r, nd_inflight = []\<rparr>"

text \<open>The writes a schedule carries.\<close>

fun writes_of :: "('k, 'e, 'v, 't, 'p) event \<Rightarrow> ('k \<times> 'e) list" where
  "writes_of (Deliver rd us p) = us"
| "writes_of (Write rd k e) = [(k, e)]"
| "writes_of _ = []"

text \<open>Background work here is everything that leaves the map alone.\<close>

fun quiet :: "('k, 'e, 'v, 't, 'p) store_op \<Rightarrow> bool" where
  "quiet (Acks _ _) = True"
| "quiet (Admit _) = True"
| "quiet (Seed _) = True"
| "quiet (Decommission _) = True"
| "quiet (RunTask _) = True"
| "quiet (SetCoalesceWindow _) = True"
| "quiet _ = False"

text \<open>A local write carries a stamp newer than the entry it replaces, as the clock guarantees when the
  stamp was minted after that entry was seen.\<close>

fun timely_event :: "('e, 't::linorder, 'v, 's) EntryOps \<Rightarrow> ('k, 'e) kv \<Rightarrow> ('k, 'e, 'v, 't, 'p) event \<Rightarrow> bool" where
  "timely_event ops m (Write rd k e) = (case map_of m k of None \<Rightarrow> True | Some l \<Rightarrow> en_stamp ops l < en_stamp ops e)"
| "timely_event ops m (Background rd op) = quiet op"
| "timely_event ops m _ = True"

fun timely_run :: "('e, 't::linorder, 'v, 's, 'c) ReplicaEnv \<Rightarrow> ('k::linorder, 'e, 's, 'p, 'c) Node \<Rightarrow> ('k, 'e, 'v, 't, 'p) event list \<Rightarrow> bool" where
  "timely_run env nd [] = True"
| "timely_run env nd (ev # evs) = (timely_event (re_entry env) (st_map (nd_store nd)) ev \<and> timely_run env (node_step env nd ev) evs)"

section \<open>Every interleaving implements the abstract map\<close>

definition applies :: "('e, 't::linorder, 'v, 's) EntryOps \<Rightarrow> ('k, 'e) kv \<Rightarrow> 'k \<times> 'e \<Rightarrow> bool" where
  "applies ops m kv \<longleftrightarrow> (case map_of m (fst kv) of None \<Rightarrow> True | Some l \<Rightarrow> en_stamp ops l < en_stamp ops (snd kv))"

lemma decide_filter: "fst (decide_updates ops m us) = filter (applies ops m) us"
  by (induction us) (auto simp: applies_def Let_def split: prod.splits option.splits if_splits)

definition superseded :: "('e, 't::linorder, 'v, 's) EntryOps \<Rightarrow> ('k, 'e) kv \<Rightarrow> 'k \<Rightarrow> 'e \<Rightarrow> bool" where
  "superseded ops m k e \<longleftrightarrow> (\<exists>l. map_of m k = Some l \<and> en_stamp ops e \<le> en_stamp ops l)"

text \<open>One commit: the entry at the key is the newer of the two, no other key changes.\<close>

lemma commit_update_map:
  assumes "keys_sorted (st_map st)" "entry_laws (re_entry env)"
  shows "map_of (st_map (snd (commit_update env (acks, st) (k, v)))) = lww_write (re_entry env) (map_of (st_map st)) (k, v)"
    "keys_sorted (st_map (snd (commit_update env (acks, st) (k, v))))"
proof -
  have merge: "en_merge (re_entry env) a b = (if en_stamp (re_entry env) a < en_stamp (re_entry env) b then b else a)" for a b
    using assms(2) by (simp add: entry_laws_def)
  show "map_of (st_map (snd (commit_update env (acks, st) (k, v)))) = lww_write (re_entry env) (map_of (st_map st)) (k, v)"
    using assms(1)
    by (auto simp: commit_update_def Let_def map_insert_def collision_report_def lww_write_def merge fun_eq_iff split: option.split)
  show "keys_sorted (st_map (snd (commit_update env (acks, st) (k, v))))" using assms(1)
    by (auto simp: commit_update_def Let_def map_insert_def collision_report_def split: option.split)
qed

lemma commit_updates_map:
  assumes "keys_sorted (st_map st)" "entry_laws (re_entry env)"
  shows "map_of (st_map (snd (commit_updates env us st))) = foldl (lww_write (re_entry env)) (map_of (st_map st)) us"
proof -
  have "keys_sorted (st_map (snd s)) \<Longrightarrow>
      map_of (st_map (snd (foldl (commit_update env) s us))) = foldl (lww_write (re_entry env)) (map_of (st_map (snd s))) us" for s
  proof (induction us arbitrary: s)
    case (Cons kv us)
    obtain acks st k v where s: "s = (acks, st)" "kv = (k, v)" by (cases s; cases kv)
    show ?case using Cons.IH [of "commit_update env s kv"] Cons.prems commit_update_map [OF _ assms(2), of st acks k v] by (simp add: s)
  qed simp
  from this [of "([], st)"] show ?thesis using assms(1) by (simp add: commit_updates_def record_changes_def split_beta)
qed

lemma superseded_write:
  "superseded ops m k e \<Longrightarrow> map_of m' = lww_write ops (map_of m) kv \<Longrightarrow> superseded ops m' k e"
  by (auto simp: superseded_def lww_write_def split: option.splits if_splits)

text \<open>What is known after a schedule prefix whose writes are \<open>W\<close>.\<close>

definition node_inv :: "('e, 't::linorder, 'v, 's, 'c) ReplicaEnv \<Rightarrow> ('k \<times> 'e) set \<Rightarrow> ('k::linorder, 'e, 's, 'p, 'c) Node \<Rightarrow> bool" where
  "node_inv env W nd \<longleftrightarrow> store_ok env (nd_store nd) \<and>
    (\<forall>b\<in>set (nd_inflight nd). set b \<subseteq> W) \<and>
    (\<forall>k e. map_of (st_map (nd_store nd)) k = Some e \<longrightarrow> (k, e) \<in> W) \<and>
    (\<forall>k e. (k, e) \<in> W \<longrightarrow> (\<exists>b\<in>set (nd_inflight nd). (k, e) \<in> set b) \<or> superseded (re_entry env) (st_map (nd_store nd)) k e)"

lemma node_new_inv: "node_inv env {} (node_new c w r)"
  by (simp add: node_inv_def node_new_def store_new_ok) (simp add: store_new_def)

lemma store_ok_sorted: "store_ok env st \<Longrightarrow> keys_sorted (st_map st)"
  by (simp add: store_ok_def)

lemma foldl_lww_bounds:
  assumes "map_of m' = foldl (lww_write ops) (map_of m) us"
  shows "superseded ops m k e \<Longrightarrow> superseded ops m' k e" "(k, e) \<in> set us \<Longrightarrow> superseded ops m' k e"
    "map_of m' k = Some e \<Longrightarrow> map_of m k = Some e \<or> (k, e) \<in> set us"
proof -
  let ?st = "\<lambda>f k e. \<exists>l. f k = Some l \<and> en_stamp ops e \<le> en_stamp ops l"
  have keep: "?st f k e \<Longrightarrow> ?st (lww_write ops f kv) k e" for f kv by (auto simp: lww_write_def split: option.split)
  have add: "?st (lww_write ops f (k, e)) k e" for f by (auto simp: lww_write_def split: option.split)
  have from1: "lww_write ops f kv k = Some e \<Longrightarrow> f k = Some e \<or> kv = (k, e)" for f kv
    by (cases kv) (auto simp: lww_write_def split: option.splits if_splits)
  have keeps: "?st f k e \<Longrightarrow> ?st (foldl (lww_write ops) f us) k e" for f us
    by (induction us arbitrary: f) (use keep in auto)
  have adds: "(k, e) \<in> set us \<Longrightarrow> ?st (foldl (lww_write ops) f us) k e" for f us
  proof (induction us arbitrary: f)
    case (Cons kv us)
    then show ?case using keeps [of "lww_write ops f (k, e)" us] add [of f] by auto
  qed simp
  have froms: "foldl (lww_write ops) f us k = Some e \<Longrightarrow> f k = Some e \<or> (k, e) \<in> set us" for f us
  proof (induction us arbitrary: f)
    case (Cons kv us)
    then show ?case using from1 [of f kv] by force
  qed simp
  show "superseded ops m k e \<Longrightarrow> superseded ops m' k e" "(k, e) \<in> set us \<Longrightarrow> superseded ops m' k e"
    "map_of m' k = Some e \<Longrightarrow> map_of m k = Some e \<or> (k, e) \<in> set us"
    using keeps [of "map_of m" us] adds [of us "map_of m"] froms [of "map_of m" us] by (simp_all add: superseded_def assms)
qed

lemma node_inv_deliver:
  assumes "node_inv env W nd"
  shows "node_inv env (W \<union> set us) (node_step env nd (Deliver rd us p))"
proof -
  obtain ta acks st where r: "receive_updates env rd us p (nd_store nd) = (ta, acks, st)"
    by (cases "receive_updates env rd us p (nd_store nd)") auto
  have core: "core st = core (nd_store nd)" using r by (rule core_receive)
  then have same: "st_map st = st_map (nd_store nd)" "store_ok env st" using core_frame(1) [OF core, of env] assms
    by (simp_all add: core_def node_inv_def)
  have "ta = fst (decide_updates (re_entry env) (st_map (nd_store nd)) us)" using r by (auto simp: receive_updates_def Let_def split: prod.splits)
  then have ta: "ta = filter (applies (re_entry env) (st_map (nd_store nd))) us" by (simp add: decide_filter)
  have "(k, e) \<in> set us \<Longrightarrow> (k, e) \<in> set ta \<or> superseded (re_entry env) (st_map (nd_store nd)) k e" for k e
    by (auto simp: ta applies_def superseded_def split: option.splits)
  then show ?thesis using assms same ta by (auto simp: node_inv_def r)
qed

lemma node_inv_commit:
  assumes "node_inv env W nd" "entry_laws (re_entry env)"
  shows "node_inv env W (node_step env nd (CommitBatch i))"
proof (cases "i < length (nd_inflight nd)")
  case True
  let ?b = "nd_inflight nd ! i" and ?rest = "take i (nd_inflight nd) @ drop (Suc i) (nd_inflight nd)"
  let ?st = "snd (commit_updates env ?b (nd_store nd))"
  have fl: "set (nd_inflight nd) = insert ?b (set ?rest)" using id_take_nth_drop [OF True] by (metis Un_insert_right list.simps(15) set_append)
  have ok: "store_ok env (nd_store nd)" using assms(1) by (simp add: node_inv_def)
  then have ok': "store_ok env ?st" using sound_commit [of env "nd_store nd" ?b] by (simp add: sound_def)
  have m: "map_of (st_map ?st) = foldl (lww_write (re_entry env)) (map_of (st_map (nd_store nd))) ?b"
    by (rule commit_updates_map [OF store_ok_sorted [OF ok] assms(2)])
  show ?thesis using assms(1) ok' True fl foldl_lww_bounds [OF m] unfolding node_inv_def by simp blast
qed (simp add: assms)

lemma node_inv_write:
  assumes "node_inv env W nd" "timely_event (re_entry env) (st_map (nd_store nd)) (Write rd k e)"
  shows "node_inv env (insert (k, e) W) (node_step env nd (Write rd k e))"
proof -
  let ?st = "snd (replica_insert env rd k e (nd_store nd))"
  have ok: "store_ok env (nd_store nd)" using assms(1) by (simp add: node_inv_def)
  then have ok': "store_ok env ?st" using sound_replica_insert [of env "nd_store nd"] by (simp add: sound_def)
  have c: "core (queue_broadcast env rd kvs s) = core s" for kvs s by (rule core_queue)
  have "st_map ?st = st_map (snd (just_insert env rd k e (nd_store nd)))"
    using c [of "[(k, e)]" "snd (just_insert env rd k e (nd_store nd))"] by (simp add: replica_insert_def split_beta core_def)
  then have m: "map_of (st_map ?st) = (map_of (st_map (nd_store nd)))(k \<mapsto> e)"
    using store_ok_sorted [OF ok] by (simp add: just_insert_def map_insert_def pre_insert_def record_changes_def)
  have "superseded (re_entry env) (st_map (nd_store nd)) k' e' \<Longrightarrow> superseded (re_entry env) (st_map ?st) k' e'" for k' e'
    using assms(2) by (auto simp: superseded_def m split: option.splits)
  moreover have "superseded (re_entry env) (st_map ?st) k e" by (simp add: superseded_def m)
  ultimately show ?thesis using assms(1) ok' m by (auto simp: node_inv_def) blast+
qed

lemma quiet_map: "quiet op \<Longrightarrow> st_map (apply_op env rd op st) = st_map st"
proof -
  have t: "st_map (snd (record_tombstone_ack env p s ka)) = st_map (snd s)" for p s ka
    by (simp add: record_tombstone_ack_def Let_def split_beta split: option.split)
  have ts: "st_map (snd (foldl (record_tombstone_ack env p) s as)) = st_map (snd s)" for p s as
    by (induction as arbitrary: s) (auto simp: t)
  have f: "st_map (snd (forget_peer_ack p s k)) = st_map (snd s)" for p s k
    by (simp add: forget_peer_ack_def Let_def split_beta)
  have fs: "st_map (snd (foldl (forget_peer_ack p) s ks)) = st_map (snd s)" for p s ks
    by (induction ks arbitrary: s) (auto simp: f)
  have r: "st_map (run_task env rd i st) = st_map st" for i using core_run_task [of env rd i st] by (simp add: core_def)
  show "quiet op \<Longrightarrow> ?thesis"
    by (cases op) (auto simp: record_tombstone_acks_def record_changes_def admit_member_def seed_peer_def decommission_peer_def Let_def split_beta ts fs r)
qed

lemma node_inv_run:
  assumes "entry_laws (re_entry env)" "node_inv env W nd" "timely_run env nd evs"
  shows "node_inv env (W \<union> set (concat (map writes_of evs))) (node_run env evs nd)"
  using assms(2,3)
proof (induction evs arbitrary: W nd)
  case (Cons ev evs)
  have "node_inv env (W \<union> set (writes_of ev)) (node_step env nd ev)"
  proof (cases ev)
    case (Background rd op)
    then have "st_map (apply_op env rd op (nd_store nd)) = st_map (nd_store nd)" using Cons.prems by (simp add: quiet_map)
    moreover have "store_ok env (apply_op env rd op (nd_store nd))"
      using Cons.prems(1) sound_apply_op [OF assms(1), of "nd_store nd" rd op] by (simp add: node_inv_def sound_def)
    ultimately show ?thesis using Cons.prems(1) Background by (simp add: node_inv_def)
  next
    case (Write rd k e)
    then show ?thesis using node_inv_write [of env W nd rd k e] Cons.prems by simp
  next
    case (CommitBatch i)
    then show ?thesis using node_inv_commit [OF Cons.prems(1) assms(1), of i] by simp
  next
    case (Deliver rd us p)
    then show ?thesis using node_inv_deliver [OF Cons.prems(1), of us rd p] by simp
  qed
  then show ?case using Cons.IH [of "W \<union> set (writes_of ev)" "node_step env nd ev"] Cons.prems by (simp add: node_run_def Un_assoc)
qed (simp add: node_run_def)

text \<open>With nothing in flight the map holds the newest write of every key.\<close>

lemma node_newest:
  assumes "node_inv env W nd" "nd_inflight nd = []"
  shows "newest (re_entry env) W (map_of (st_map (nd_store nd)))"
  using assms by (auto simp: node_inv_def newest_def superseded_def)

lemma node_newest_run:
  assumes "entry_laws (re_entry env)" "timely_run env (node_new c w r) evs" "nd_inflight (node_run env evs (node_new c w r)) = []"
  shows "newest (re_entry env) (set (concat (map writes_of evs))) (map_of (st_map (nd_store (node_run env evs (node_new c w r)))))"
    "store_ok env (nd_store (node_run env evs (node_new c w r)))"
proof -
  have inv: "node_inv env (set (concat (map writes_of evs))) (node_run env evs (node_new c w r))"
    using node_inv_run [OF assms(1) node_new_inv assms(2)] by simp
  show "newest (re_entry env) (set (concat (map writes_of evs))) (map_of (st_map (nd_store (node_run env evs (node_new c w r)))))"
    by (rule node_newest [OF inv assms(3)])
  show "store_ok env (nd_store (node_run env evs (node_new c w r)))" using inv by (simp add: node_inv_def)
qed

section \<open>Convergence\<close>

text \<open>C5: whatever the order, batching, repetition and interleaving in which a node receives updates,
  commits them, performs local writes and runs background work, once nothing is in flight its map is
  the last-writer-wins map of the writes it saw, as if they had been applied one after the other.\<close>

theorem replica_refines_lww:
  assumes "entry_laws (re_entry env)" "timely_run env (node_new c w r) evs" "nd_inflight (node_run env evs (node_new c w r)) = []"
    and "collision_free (re_entry env) (set (concat (map writes_of evs)))"
  shows "map_of (st_map (nd_store (node_run env evs (node_new c w r)))) = lww (re_entry env) (concat (map writes_of evs))"
  by (rule newest_unique [OF node_newest_run(1) [OF assms(1-3)] newest_lww assms(4)])

definition demo_events_a :: "(nat, nat \<times> nat option, nat, nat, nat) event list" where
  "demo_events_a =
    [Deliver demo_readings [(1, (5, Some 9)), (2, (1, None))] 4, Deliver demo_readings [(1, (3, Some 8))] 4,
     Write demo_readings 3 (6, Some 7), CommitBatch 1, Background demo_readings (Admit 4), CommitBatch 0]"

definition demo_events_b :: "(nat, nat \<times> nat option, nat, nat, nat) event list" where
  "demo_events_b =
    [Deliver demo_readings [(3, (6, Some 7))] 4, CommitBatch 0, Deliver demo_readings [(1, (3, Some 8)), (3, (6, Some 7))] 4, CommitBatch 0,
     Deliver demo_readings [(2, (1, None)), (1, (5, Some 9))] 4, CommitBatch 0]"

lemmas demo_eval = node_new_def store_new_def receive_updates_def commit_updates_def commit_update_def map_insert_def pre_insert_def
  record_changes_def demo_replica_def demo_entry_def demo_readings_def note_pending_repair_def is_node_id_collision_def
  replica_insert_def just_insert_def queue_broadcast_def broadcast_def try_claim_broadcast_slot_def spawn_broadcast_def get_peers_def
  admit_member_def wheel_remove_def wheel_insert_def wheel_new_def kv_iter_def record_entry_def record_member_def generations_default_def
  generation_default_def bump_def from_stored_stamp_def

lemma demo_runs:
  "timely_run demo_replica (node_new 0 0 0) demo_events_a" "nd_inflight (node_run demo_replica demo_events_a (node_new 0 0 0)) = []"
  "timely_run demo_replica (node_new 7 0 9) demo_events_b" "nd_inflight (node_run demo_replica demo_events_b (node_new 7 0 9)) = []"
  by (simp_all add: demo_events_a_def demo_events_b_def node_run_def Let_def demo_eval)

lemma demo_collision_free:
  "collision_free (re_entry demo_replica) (set (concat (map writes_of demo_events_a)))"
  "set (concat (map writes_of demo_events_b)) = set (concat (map writes_of demo_events_a))"
  by (auto simp: collision_free_def demo_events_a_def demo_events_b_def demo_replica_def demo_entry_def)

theorem replica_refines_lww_witness:
  "map_of (st_map (nd_store (node_run demo_replica demo_events_a (node_new 0 0 0)))) 1 = Some (5, Some 9)"
  using replica_refines_lww [OF demo_laws demo_runs(1,2) demo_collision_free(1)]
  by (simp add: lww_def lww_write_def demo_events_a_def demo_replica_def demo_entry_def)



section \<open>Equal stamps\<close>

lemma commit_no_collision:
  assumes "keys_sorted (st_map (snd s))" "keys_distinct us" "list_all (applies (re_entry env) (st_map (snd s))) us"
  shows "collision_reported (snd (foldl (commit_update env) s us)) = collision_reported (snd s)"
  using assms
proof (induction us arbitrary: s)
  case (Cons kv us)
  obtain acks st k v where s: "s = (acks, st)" "kv = (k, v)" by (cases s; cases kv)
  have sorted: "keys_sorted (st_map st)" and a: "applies (re_entry env) (st_map st) (k, v)" using Cons.prems by (simp_all add: s)
  let ?n = "snd (commit_update env s kv)"
  have "(\<exists>e. map_of (st_map ?n) = (map_of (st_map st))(k \<mapsto> e)) \<and> keys_sorted (st_map ?n)"
    using sorted by (cases "map_of (st_map st) k") (auto simp: s commit_update_def Let_def map_insert_def collision_report_def)
  then obtain e where m: "map_of (st_map ?n) = (map_of (st_map st))(k \<mapsto> e)" and sorted': "keys_sorted (st_map ?n)" by blast
  have "collision_reported ?n = collision_reported st" using a
    by (auto simp: s commit_update_def Let_def map_insert_def is_node_id_collision_def applies_def split: option.splits)
  moreover have "fst x \<noteq> k \<Longrightarrow> applies (re_entry env) (st_map ?n) x = applies (re_entry env) (st_map st) x" for x
    by (simp add: applies_def m)
  then have "list_all (applies (re_entry env) (st_map ?n)) us" using Cons.prems by (auto simp: list_all_iff s image_iff)
  ultimately show ?case using Cons.IH [of "commit_update env s kv"] Cons.prems sorted' by (simp add: s)
qed simp

lemma reported_hooks: "collision_reported (foldl (\<lambda>s (k, e). pre_insert env rd k e s) st us) = collision_reported st"
proof (induction us arbitrary: st)
  case (Cons kv us)
  then show ?case by (cases kv) (simp add: pre_insert_def)
qed simp



end
