(* ===== verification/Admission.thy ===== *)
theory Admission
  imports Prelude
begin

text \<open>
  Admission of dataset-scale work (\<open>src/replica/admission.rs\<close>): a generic-cell-rate meter per source and
  one for all sources, and a growing delay for a comparison that repeats without progress. The rate
  bound is proved once for any meter and holds for both.
\<close>

section \<open>Operations\<close>

definition PER_PEER_BULK_BURST :: nat where "PER_PEER_BULK_BURST = 3"
definition PER_PEER_REFILL_INTERVAL :: duration where "PER_PEER_REFILL_INTERVAL = 1000000000"
definition REPEATED_WORK_RETRY_MIN :: duration where "REPEATED_WORK_RETRY_MIN = 1000000000"
definition REPEATED_WORK_RETRY_MAX :: duration where "REPEATED_WORK_RETRY_MAX = 30000000000"
definition RECENT_WORK_RETENTION :: duration where "RECENT_WORK_RETENTION = 60000000000"

datatype BulkAdmissionRejection = RepeatedWork | PeerRate | GlobalRate

datatype DumpChannel = Dated | ValueOnly

record RecentWork =
  rw_fingerprint :: "32 arr"
  retry_after :: instant
  retry_delay :: duration
  forget_after :: instant

record 'i AdmissionState =
  ad_peers :: "('i, instant) kv"
  global_tat :: "instant option"
  recent_dated :: "('i, RecentWork) kv"
  recent_value :: "('i, RecentWork) kv"

record 'i BulkAdmission =
  ad_state :: "'i AdmissionState"
  global_rate :: nat
  global_interval :: duration
  global_burst :: nat

text \<open>A quotient of seconds in nanoseconds, rounded to the nearest and on a tie to the even one, which is what
  the conversion of \<open>1.0 / rate\<close> to a \<open>Duration\<close> does: the error of the floating-point quotient is less than
  the distance of a quotient that is no tie from the next one that is.\<close>

definition round_half_even :: "nat \<Rightarrow> nat \<Rightarrow> nat" where
  "round_half_even a b =
    (let q = a div b; r = a mod b in if b < 2 * r \<or> 2 * r = b \<and> odd q then q + 1 else q)"

definition admission_new :: "nat \<Rightarrow> 'i BulkAdmission" where
  "admission_new rate =
    \<lparr>ad_state = \<lparr>ad_peers = [], global_tat = None, recent_dated = [], recent_value = []\<rparr>, global_rate = rate,
     global_interval = (if rate = 0 then 1000000000 else round_half_even 1000000000 rate),
     global_burst = min (min (rate * PER_PEER_BULK_BURST) usize_max) (2 ^ 32 - 1)\<rparr>"

definition gcra_allows :: "instant \<Rightarrow> instant \<Rightarrow> duration \<Rightarrow> nat \<Rightarrow> bool" where
  "gcra_allows tat now interval burst = (tat \<le> now + interval * (burst - 1))"

definition recent_of :: "DumpChannel \<Rightarrow> 'i AdmissionState \<Rightarrow> ('i, RecentWork) kv" where
  "recent_of channel s = (case channel of Dated \<Rightarrow> recent_dated s | ValueOnly \<Rightarrow> recent_value s)"

definition put_recent :: "DumpChannel \<Rightarrow> ('i, RecentWork) kv \<Rightarrow> 'i AdmissionState \<Rightarrow> 'i AdmissionState" where
  "put_recent channel m s = (case channel of Dated \<Rightarrow> s\<lparr>recent_dated := m\<rparr> | ValueOnly \<Rightarrow> s\<lparr>recent_value := m\<rparr>)"

text \<open>Debts and memories that ran out are discarded first.\<close>

definition forget_expired :: "instant \<Rightarrow> 'i AdmissionState \<Rightarrow> 'i AdmissionState" where
  "forget_expired now s =
    s\<lparr>ad_peers := filter (\<lambda>(_, tat). now < tat) (ad_peers s),
      recent_dated := filter (\<lambda>(_, w). now < forget_after w) (recent_dated s),
      recent_value := filter (\<lambda>(_, w). now < forget_after w) (recent_value s),
      global_tat := (case global_tat s of None \<Rightarrow> None | Some tat \<Rightarrow> if tat \<le> now then None else Some tat)\<rparr>"

definition next_retry_delay :: "32 arr \<Rightarrow> RecentWork option \<Rightarrow> duration" where
  "next_retry_delay fingerprint work =
    (case work of
       None \<Rightarrow> REPEATED_WORK_RETRY_MIN
     | Some w \<Rightarrow> if rw_fingerprint w = fingerprint then min (retry_delay w * 2) REPEATED_WORK_RETRY_MAX else REPEATED_WORK_RETRY_MIN)"

definition charge_admission ::
  "'i \<Rightarrow> DumpChannel \<Rightarrow> 32 arr \<Rightarrow> instant \<Rightarrow> instant \<Rightarrow> instant \<Rightarrow> duration \<Rightarrow> 'i AdmissionState \<Rightarrow> 'i AdmissionState" where
  "charge_admission peer channel fingerprint now peer_tat g_tat interval s =
    (let s1 = s\<lparr>ad_peers := AList.update peer (max peer_tat now + PER_PEER_REFILL_INTERVAL) (ad_peers s), global_tat := Some (max g_tat now + interval)\<rparr>;
         delay = next_retry_delay fingerprint (map_of (recent_of channel s1) peer)
     in put_recent channel (AList.update peer
          \<lparr>rw_fingerprint = fingerprint, retry_after = now + delay, retry_delay = delay, forget_after = now + RECENT_WORK_RETENTION\<rparr>
          (recent_of channel s1)) s1)"

definition try_admit_at ::
  "'i \<Rightarrow> DumpChannel \<Rightarrow> 32 arr \<Rightarrow> instant \<Rightarrow> 'i BulkAdmission \<Rightarrow> (BulkAdmissionRejection + unit) \<times> 'i BulkAdmission" where
  "try_admit_at peer channel fingerprint now a =
    (if global_rate a = 0 then (Inl GlobalRate, a)
     else let s = forget_expired now (ad_state a); a1 = a\<lparr>ad_state := s\<rparr>;
              peer_tat = (case map_of (ad_peers s) peer of None \<Rightarrow> now | Some t \<Rightarrow> t);
              g_tat = (case global_tat s of None \<Rightarrow> now | Some t \<Rightarrow> t)
          in if (case map_of (recent_of channel s) peer of None \<Rightarrow> False | Some w \<Rightarrow> rw_fingerprint w = fingerprint \<and> now < retry_after w)
             then (Inl RepeatedWork, a1)
             else if \<not> gcra_allows peer_tat now PER_PEER_REFILL_INTERVAL PER_PEER_BULK_BURST then (Inl PeerRate, a1)
             else if \<not> gcra_allows g_tat now (global_interval a) (global_burst a) then (Inl GlobalRate, a1)
             else (Inr (), a\<lparr>ad_state := charge_admission peer channel fingerprint now peer_tat g_tat (global_interval a) s\<rparr>))"

section \<open>Meters\<close>

text \<open>Requests arrive at instants; the accepted ones are kept in order.\<close>

fun admissions :: "('s \<Rightarrow> 'r \<Rightarrow> instant \<Rightarrow> bool \<times> 's) \<Rightarrow> ('r \<times> instant) list \<Rightarrow> 's \<Rightarrow> ('r \<times> instant) list \<times> 's" where
  "admissions admit [] s = ([], s)"
| "admissions admit ((r, t) # reqs) s =
    (let (ok, s1) = admit s r t; (acc, s2) = admissions admit reqs s1 in (if ok then (r, t) # acc else acc, s2))"

definition due :: "instant option \<Rightarrow> instant \<Rightarrow> instant" where
  "due tat t = (case tat of None \<Rightarrow> t | Some x \<Rightarrow> max x t)"

lemma due_mono: "t \<le> t' \<Longrightarrow> due tat t \<le> due tat t'"
  by (auto simp: due_def split: option.split)

lemma due_within: "t \<le> t' \<Longrightarrow> due tat t \<le> t + d \<Longrightarrow> due tat t' \<le> t' + d"
  by (auto simp: due_def split: option.splits)

lemma due_ge: "t \<le> due tat t"
  by (auto simp: due_def split: option.splits)

text \<open>A meter keeps a theoretical arrival time: a charged request must find it at most the burst ahead and moves
  it by one interval; everything else leaves what is due unchanged.\<close>

locale rate_meter =
  fixes admit :: "'s \<Rightarrow> 'r \<Rightarrow> instant \<Rightarrow> bool \<times> 's"
    and charged :: "'r \<Rightarrow> bool"
    and tat :: "'s \<Rightarrow> instant option"
    and interval :: duration
    and burst :: nat
    and inv :: "'s \<Rightarrow> bool"
  assumes inv_kept: "\<And>s r t. inv s \<Longrightarrow> inv (snd (admit s r t))"
    and burst_pos: "0 < burst"
    and charge_law: "\<And>s r t s'. inv s \<Longrightarrow> admit s r t = (True, s') \<Longrightarrow> charged r \<Longrightarrow>
      due (tat s) t \<le> t + interval * (burst - 1) \<and> tat s' = Some (due (tat s) t + interval)"
    and free_law: "\<And>s r t ok s' t'. inv s \<Longrightarrow> admit s r t = (ok, s') \<Longrightarrow> \<not> (ok \<and> charged r) \<Longrightarrow> t \<le> t' \<Longrightarrow> due (tat s') t' = due (tat s) t'"
begin

lemma admissions_inv: "inv s \<Longrightarrow> inv (snd (admissions admit reqs s))"
  by (induction reqs arbitrary: s) (auto simp: split_beta inv_kept)

lemma step_due:
  assumes "inv s" "admit s r t = (ok, s')" "a \<le> t" "due (tat s) a \<le> a + interval * burst"
  shows "due (tat s') t \<le> t + interval * burst \<and>
    due (tat s) a + (if ok \<and> charged r then interval else 0) \<le> due (tat s') t"
proof (cases "ok \<and> charged r")
  case True
  then have c: "due (tat s) t \<le> t + interval * (burst - 1)" "due (tat s') t = due (tat s) t + interval"
    using charge_law [OF assms(1), of r t s'] assms(2) due_ge [of t "tat s"] by (auto simp: due_def [of "Some _"])
  moreover have "interval * burst = interval * (burst - 1) + interval" using burst_pos by (cases burst) auto
  ultimately show ?thesis using True due_mono [OF assms(3), of "tat s"] by simp
next
  case False
  then have "due (tat s') t = due (tat s) t" using free_law [OF assms(1,2)] by simp
  then show ?thesis using False due_within [OF assms(3,4)] due_mono [OF assms(3), of "tat s"] by auto
qed

lemma run_due:
  assumes "inv s" "sorted (a # map snd reqs)" "\<forall>x\<in>set reqs. snd x \<le> b" "a \<le> b" "due (tat s) a \<le> a + interval * burst"
  shows "due (tat (snd (admissions admit reqs s))) b \<le> b + interval * burst \<and>
    due (tat s) a + interval * length (filter (\<lambda>(r, _). charged r) (fst (admissions admit reqs s))) \<le> due (tat (snd (admissions admit reqs s))) b"
  using assms
proof (induction reqs arbitrary: s a)
  case Nil
  then show ?case using due_within [of a b "tat s"] due_mono [of a b "tat s"] by simp
next
  case (Cons x reqs)
  obtain r t where x: "x = (r, t)" by (cases x)
  obtain ok s1 where s1: "admit s r t = (ok, s1)" by fastforce
  obtain acc s2 where s2: "admissions admit reqs s1 = (acc, s2)" by fastforce
  have t: "a \<le> t" "sorted (t # map snd reqs)" "\<forall>x\<in>set reqs. snd x \<le> b" "t \<le> b" using Cons.prems by (auto simp: x)
  have "inv s1" using inv_kept [OF Cons.prems(1), of r t] s1 by simp
  moreover note step = step_due [OF Cons.prems(1) s1 t(1) Cons.prems(5)]
  ultimately have "due (tat s2) b \<le> b + interval * burst \<and> due (tat s1) t + interval * length (filter (\<lambda>(r, _). charged r) acc) \<le> due (tat s2) b"
    using Cons.IH [of s1 t] t s2 by simp
  then show ?case using step by (cases "ok \<and> charged r") (auto simp: x s1 s2)
qed

text \<open>In a window of any length, at most the burst and one request per interval are charged.\<close>

lemma window_bound:
  assumes "inv s" "tat s = None" "sorted (map snd (pre @ win))" "\<forall>x\<in>set pre. snd x \<le> a" "\<forall>x\<in>set win. a \<le> snd x \<and> snd x \<le> b" "a \<le> b"
  shows "interval * length (filter (\<lambda>(r, _). charged r) (fst (admissions admit win (snd (admissions admit pre s))))) \<le> (b - a) + interval * burst"
proof -
  let ?s = "snd (admissions admit pre s)"
  have "sorted (0 # map snd pre)" "due (tat s) 0 \<le> 0 + interval * burst" using assms(2,3) by (auto simp: sorted_append due_def)
  then have at_a: "due (tat ?s) a \<le> a + interval * burst" using run_due [OF assms(1), of 0 pre a] assms(4) by auto
  have sorted: "sorted (a # map snd win)" using assms(3,5) by (auto simp: sorted_append)
  have "\<forall>x\<in>set win. snd x \<le> b" using assms(5) by auto
  note run = run_due [OF admissions_inv [OF assms(1), of pre] sorted this assms(6) at_a]
  show ?thesis using run due_ge [of a "tat ?s"] by linarith
qed

end

section \<open>The two meters of the admission\<close>

definition bulk_admit :: "'i BulkAdmission \<Rightarrow> 'i \<times> DumpChannel \<times> 32 arr \<Rightarrow> instant \<Rightarrow> bool \<times> 'i BulkAdmission" where
  "bulk_admit a req t = (case req of (peer, channel, fingerprint) \<Rightarrow>
    let (r, a') = try_admit_at peer channel fingerprint t a in (r = Inr (), a'))"

definition admission_ok :: "nat \<Rightarrow> 'i BulkAdmission \<Rightarrow> bool" where
  "admission_ok rate a \<longleftrightarrow> keys_distinct (ad_peers (ad_state a)) \<and> global_rate a = rate \<and>
    global_interval a = global_interval (admission_new rate :: 'i BulkAdmission) \<and> global_burst a = global_burst (admission_new rate :: 'i BulkAdmission)"

lemma put_recent_simps [simp]: "ad_peers (put_recent ch m s) = ad_peers s" "global_tat (put_recent ch m s) = global_tat s"
  "recent_of ch (put_recent ch m s) = m"
  by (simp_all add: put_recent_def recent_of_def split: DumpChannel.split)

lemma forget_peers: "keys_distinct (ad_peers s) \<Longrightarrow> map_of (ad_peers (forget_expired now s)) p =
    (case map_of (ad_peers s) p of None \<Rightarrow> None | Some t \<Rightarrow> if now < t then Some t else None)"
  by (simp add: forget_expired_def map_of_filter_distinct split: option.split)

lemma due_forget_peers:
  assumes "keys_distinct (ad_peers s)" "now \<le> t"
  shows "due (map_of (ad_peers (forget_expired now s)) p) t = due (map_of (ad_peers s) p) t"
  using assms(2) by (auto simp: forget_peers [OF assms(1)] due_def split: option.split)

lemma due_forget_global: "now \<le> t \<Longrightarrow> due (global_tat (forget_expired now s)) t = due (global_tat s) t"
  by (auto simp: forget_expired_def due_def split: option.split)

lemma due_now: "due (map_of (ad_peers (forget_expired now s)) p) now = max (case map_of (ad_peers (forget_expired now s)) p of None \<Rightarrow> now | Some t \<Rightarrow> t) now"
  "due (global_tat (forget_expired now s)) now = max (case global_tat (forget_expired now s) of None \<Rightarrow> now | Some t \<Rightarrow> t) now"
  by (simp_all add: due_def split: option.split)

text \<open>What a call does: it charges both meters when it admits, and otherwise only forgets.\<close>

lemma bulk_admit_cases:
  assumes "bulk_admit a (p, ch, fp) t = (ok, a')"
  shows "ok \<and> a' = a\<lparr>ad_state := ad_state a'\<rparr> \<and>
      ad_peers (ad_state a') = AList.update p (due (map_of (ad_peers (forget_expired t (ad_state a))) p) t + PER_PEER_REFILL_INTERVAL) (ad_peers (forget_expired t (ad_state a))) \<and>
      global_tat (ad_state a') = Some (due (global_tat (forget_expired t (ad_state a))) t + global_interval a) \<and>
      due (map_of (ad_peers (forget_expired t (ad_state a))) p) t \<le> t + PER_PEER_REFILL_INTERVAL * (PER_PEER_BULK_BURST - 1) \<and>
      due (global_tat (forget_expired t (ad_state a))) t \<le> t + global_interval a * (global_burst a - 1) \<or>
    \<not> ok \<and> (a' = a \<or> a' = a\<lparr>ad_state := forget_expired t (ad_state a)\<rparr>)"
  using assms unfolding due_now
  by (auto simp: bulk_admit_def try_admit_at_def Let_def charge_admission_def gcra_allows_def split: if_splits)

lemma distinct_forget: "keys_distinct (ad_peers s) \<Longrightarrow> keys_distinct (ad_peers (forget_expired t s))"
  by (simp add: forget_expired_def)

lemma admission_ok_kept: "admission_ok rate a \<Longrightarrow> admission_ok rate (snd (bulk_admit a r t))"
proof -
  assume ok: "admission_ok rate a"
  obtain p ch fp where r: "r = (p, ch, fp)" by (cases r)
  obtain b a' where a': "bulk_admit a (p, ch, fp) t = (b, a')" by fastforce
  show ?thesis using bulk_admit_cases [OF a'] ok distinct_forget [of "ad_state a" t] a' unfolding r admission_ok_def
    by (elim disjE conjE) (simp_all, metis BulkAdmission.select_convs(2-4) BulkAdmission.update_convs(1) BulkAdmission.surjective)
qed

lemma peer_charge:
  assumes "admission_ok rate a" "bulk_admit a r t = (True, a')" "fst r = p"
  shows "due (map_of (ad_peers (ad_state a)) p) t \<le> t + PER_PEER_REFILL_INTERVAL * (PER_PEER_BULK_BURST - 1) \<and>
    map_of (ad_peers (ad_state a')) p = Some (due (map_of (ad_peers (ad_state a)) p) t + PER_PEER_REFILL_INTERVAL)"
proof -
  obtain ch fp where r: "r = (p, ch, fp)" using assms(3) by (cases r) auto
  show ?thesis using bulk_admit_cases [OF assms(2) [unfolded r]] due_forget_peers [of "ad_state a" t t p] assms(1) by (auto simp: admission_ok_def)
qed

lemma peer_free:
  assumes "admission_ok rate a" "bulk_admit a r t = (ok, a')" "\<not> (ok \<and> fst r = p)" "t \<le> t'"
  shows "due (map_of (ad_peers (ad_state a')) p) t' = due (map_of (ad_peers (ad_state a)) p) t'"
proof -
  obtain q ch fp where r: "r = (q, ch, fp)" by (cases r)
  show ?thesis using bulk_admit_cases [OF assms(2) [unfolded r]] due_forget_peers [OF _ assms(4), of "ad_state a" p] assms(1,3) by (auto simp: r admission_ok_def)
qed

lemma global_charge:
  assumes "admission_ok rate a" "bulk_admit a r t = (True, a')"
  shows "due (global_tat (ad_state a)) t \<le> t + global_interval (admission_new rate :: 'i BulkAdmission) * (global_burst (admission_new rate :: 'i BulkAdmission) - 1) \<and>
    global_tat (ad_state a') = Some (due (global_tat (ad_state (a :: 'i BulkAdmission))) t + global_interval (admission_new rate :: 'i BulkAdmission))"
proof -
  obtain p ch fp where r: "r = (p, ch, fp)" by (cases r)
  show ?thesis using bulk_admit_cases [OF assms(2) [unfolded r]] due_forget_global [of t t "ad_state a"] assms(1) by (auto simp: admission_ok_def)
qed

lemma global_free:
  assumes "bulk_admit a r t = (ok, a')" "\<not> (ok \<and> True)" "t \<le> t'"
  shows "due (global_tat (ad_state a')) t' = due (global_tat (ad_state a)) t'"
proof -
  obtain p ch fp where r: "r = (p, ch, fp)" by (cases r)
  show ?thesis using bulk_admit_cases [OF assms(1) [unfolded r]] due_forget_global [OF assms(3), of "ad_state a"] assms(2) by auto
qed

interpretation peer_meter: rate_meter bulk_admit "\<lambda>r. fst r = p" "\<lambda>a. map_of (ad_peers (ad_state a)) p"
  PER_PEER_REFILL_INTERVAL PER_PEER_BULK_BURST "admission_ok rate" for p rate
  by unfold_locales ((rule admission_ok_kept peer_charge peer_free; assumption) | simp add: PER_PEER_BULK_BURST_def)+

interpretation global_meter: rate_meter bulk_admit "\<lambda>_. True" "\<lambda>a. global_tat (ad_state a)"
  "global_interval (admission_new (Suc rate) :: 'i BulkAdmission)" "global_burst (admission_new (Suc rate) :: 'i BulkAdmission)"
  "admission_ok (Suc rate) :: 'i BulkAdmission \<Rightarrow> bool" for rate
  by unfold_locales ((rule admission_ok_kept global_charge global_free; assumption) | simp add: admission_new_def PER_PEER_BULK_BURST_def usize_max_def)+

lemma admission_new_ok: "admission_ok rate (admission_new rate)"
  by (simp add: admission_ok_def admission_new_def)

text \<open>A comparison that was just admitted is not admitted again from the same source on the same channel before
  its retry delay, which is at least a second, has passed.\<close>

lemma repeated_work_suppressed:
  assumes "try_admit_at p ch fp t a = (Inr (), a')" "t \<le> t'" "t' < t + REPEATED_WORK_RETRY_MIN"
    and "\<forall>w\<in>snd ` set (recent_of ch (ad_state a)). REPEATED_WORK_RETRY_MIN \<le> retry_delay w" "keys_distinct (recent_of ch (ad_state a))"
  shows "fst (try_admit_at p ch fp t' a') = Inl RepeatedWork"
proof -
  let ?s = "forget_expired t (ad_state a)" and ?m = "recent_of ch (forget_expired t (ad_state a))"
  obtain pt gt where a': "global_rate a \<noteq> 0" "a' = a\<lparr>ad_state := charge_admission p ch fp t pt gt (global_interval a) ?s\<rparr>"
    using assms(1) by (auto simp: try_admit_at_def Let_def split: if_splits)
  define w where "w = \<lparr>rw_fingerprint = fp, retry_after = t + next_retry_delay fp (map_of ?m p),
    retry_delay = next_retry_delay fp (map_of ?m p), forget_after = t + RECENT_WORK_RETENTION\<rparr>"
  have "set ?m \<subseteq> set (recent_of ch (ad_state a))"
    by (auto simp: forget_expired_def recent_of_def split: DumpChannel.splits)
  then have "REPEATED_WORK_RETRY_MIN \<le> next_retry_delay fp (map_of ?m p)"
    using assms(4) by (fastforce simp: next_retry_delay_def REPEATED_WORK_RETRY_MIN_def REPEATED_WORK_RETRY_MAX_def split: option.split dest: map_of_SomeD)
  then have late: "t' < retry_after w" "rw_fingerprint w = fp" "t' < forget_after w"
    using assms(3) by (simp_all add: w_def REPEATED_WORK_RETRY_MIN_def RECENT_WORK_RETENTION_def)
  have "recent_of ch (ad_state a') = AList.update p w ?m"
    by (simp add: a'(2) charge_admission_def Let_def w_def) (simp add: recent_of_def split: DumpChannel.split)
  moreover have "keys_distinct ?m" using assms(5) by (auto simp: forget_expired_def recent_of_def split: DumpChannel.splits)
  ultimately have "map_of (recent_of ch (forget_expired t' (ad_state a'))) p = Some w"
    using late(3) by (cases ch) (auto simp: forget_expired_def recent_of_def map_of_filter_distinct)
  then show ?thesis using a'(1) late(1,2) by (simp add: try_admit_at_def Let_def a'(2))
qed

text \<open>C38: whatever comparisons arrive, in a window of any length one source is admitted at most its burst of three
  and once per second after that, and all sources together at most the global burst and once per global
  interval; with a dump budget of zero nothing is admitted.\<close>

theorem bulk_admission_rate_limited:
  fixes pre win :: "(('i \<times> DumpChannel \<times> 32 arr) \<times> instant) list" and rate :: nat
  assumes "sorted (map snd (pre @ win))" "\<forall>x\<in>set pre. snd x \<le> a" "\<forall>x\<in>set win. a \<le> snd x \<and> snd x \<le> b" "a \<le> b"
  defines "admitted \<equiv> fst (admissions bulk_admit win (snd (admissions bulk_admit pre (admission_new rate))))"
  shows "length (filter (\<lambda>(r, _). fst r = p) admitted) \<le> PER_PEER_BULK_BURST + (b - a) div PER_PEER_REFILL_INTERVAL \<and>
    (if rate = 0 then admitted = []
     else round_half_even 1000000000 rate * length admitted \<le>
       (b - a) + round_half_even 1000000000 rate * min (min (rate * PER_PEER_BULK_BURST) usize_max) (2 ^ 32 - 1))"
proof
  have fresh: "map_of (ad_peers (ad_state (admission_new rate))) p = None" by (simp add: admission_new_def)
  have "length (filter (\<lambda>(r, _). fst r = p) admitted) * PER_PEER_REFILL_INTERVAL \<le> (b - a) + PER_PEER_BULK_BURST * PER_PEER_REFILL_INTERVAL"
    using peer_meter.window_bound [OF admission_new_ok fresh assms(1-4)] by (simp add: admitted_def mult.commute)
  then show "length (filter (\<lambda>(r, _). fst r = p) admitted) \<le> PER_PEER_BULK_BURST + (b - a) div PER_PEER_REFILL_INTERVAL"
    by (simp add: less_eq_div_iff_mult_less_eq [symmetric] PER_PEER_REFILL_INTERVAL_def)
  show "if rate = 0 then admitted = []
     else round_half_even 1000000000 rate * length admitted \<le>
       (b - a) + round_half_even 1000000000 rate * min (min (rate * PER_PEER_BULK_BURST) usize_max) (2 ^ 32 - 1)"
  proof (cases rate)
    case 0
    have "fst (admissions bulk_admit reqs x) = [] \<and> global_rate (snd (admissions bulk_admit reqs x)) = 0"
      if "global_rate x = 0" for reqs and x :: "'i BulkAdmission"
      using that by (induction reqs) (auto simp: bulk_admit_def try_admit_at_def split: prod.splits)
    then show ?thesis using 0 by (simp add: admitted_def admission_new_def)
  next
    case (Suc n)
    have "global_tat (ad_state (admission_new (Suc n))) = None" by (simp add: admission_new_def)
    from global_meter.window_bound [OF admission_new_ok this assms(1-4)] show ?thesis
      by (simp add: Suc admitted_def admission_new_def split_beta)
  qed
qed

theorem bulk_admission_rate_limited_witness:
  "let win = [((1, Dated, arr_zero), 5), ((1, ValueOnly, arr_zero), 5), ((2 :: nat, Dated, arr_zero), 6)];
       admitted = fst (admissions bulk_admit win (snd (admissions bulk_admit [] (admission_new 1))))
   in admitted = win \<and> length (filter (\<lambda>(r, _). fst r = 1) admitted) \<le> 3"
proof -
  let ?win = "[((1, Dated, arr_zero), 5), ((1, ValueOnly, arr_zero), 5), ((2 :: nat, Dated, arr_zero), 6)]"
  let ?adm = "fst (admissions bulk_admit ?win (snd (admissions bulk_admit [] (admission_new 1))))"
  have "?adm = ?win"
    by (simp add: bulk_admit_def try_admit_at_def admission_new_def forget_expired_def recent_of_def put_recent_def charge_admission_def
        gcra_allows_def Let_def PER_PEER_REFILL_INTERVAL_def PER_PEER_BULK_BURST_def round_half_even_def usize_max_def)
  moreover have "length (filter (\<lambda>(r, _). fst r = 1) ?adm) \<le> PER_PEER_BULK_BURST + (10 - 5) div PER_PEER_REFILL_INTERVAL"
    using bulk_admission_rate_limited [of "[]" ?win 5 10 1 1] by simp
  ultimately show ?thesis by (simp add: Let_def PER_PEER_BULK_BURST_def PER_PEER_REFILL_INTERVAL_def)
qed

end
