(* ===== verification/Dump.thy ===== *)
theory Dump
  imports Admission Store "HOL-Library.Option_ord"
begin

text \<open>
  Bulk dumps (\<open>src/replica/pending_dump.rs\<close>, \<open>dump.rs\<close> and \<open>pacing.rs\<close>): the ranges that wait for a slot, kept as
  a coalesced union, the per-peer and global slots, and the detached task that sends a range batch and
  drains what was stashed meanwhile. The lemmas show that coalescing keeps exactly the covered keys and
  that no schedule of starts, rounds and aborts leaks a slot or exceeds the budget.
\<close>

section \<open>Ranges\<close>

datatype 'k bound = Included 'k | Excluded 'k | Unbounded

type_synonym 'k EnumerationRange = "'k bound \<times> 'k bound"

datatype ordering = Less | Equal | Greater

definition key_cmp :: "'k::linorder \<Rightarrow> 'k \<Rightarrow> ordering" where
  "key_cmp a b = (if a < b then Less else if a = b then Equal else Greater)"

text \<open>The value \<open>None\<close> is the panic on a bound shape the protocol does not produce.\<close>

fun cmp_start_bound :: "'k::linorder bound \<Rightarrow> 'k bound \<Rightarrow> ordering option" where
  "cmp_start_bound Unbounded Unbounded = Some Equal"
| "cmp_start_bound Unbounded (Included _) = Some Less"
| "cmp_start_bound (Included _) Unbounded = Some Greater"
| "cmp_start_bound (Included l) (Included r) = Some (key_cmp l r)"
| "cmp_start_bound _ _ = None"

fun cmp_end_bound :: "'k::linorder bound \<Rightarrow> 'k bound \<Rightarrow> ordering option" where
  "cmp_end_bound Unbounded Unbounded = Some Equal"
| "cmp_end_bound Unbounded (Excluded _) = Some Greater"
| "cmp_end_bound (Excluded _) Unbounded = Some Less"
| "cmp_end_bound (Excluded l) (Excluded r) = Some (key_cmp l r)"
| "cmp_end_bound _ _ = None"

fun ranges_overlap_or_touch :: "'k::linorder bound \<Rightarrow> 'k bound \<Rightarrow> bool option" where
  "ranges_overlap_or_touch Unbounded _ = Some True"
| "ranges_overlap_or_touch _ Unbounded = Some True"
| "ranges_overlap_or_touch (Excluded l) (Included r) = Some (r \<le> l)"
| "ranges_overlap_or_touch _ _ = None"

text \<open>A sort by the start bound compares every range at least once, so one excluded start panics; otherwise it
  is the stable sort by the key below, an unbounded start first.\<close>

fun start_key :: "'k bound \<Rightarrow> 'k option" where
  "start_key (Included k) = Some k"
| "start_key (Excluded k) = Some k"
| "start_key Unbounded = None"

fun excluded :: "'k bound \<Rightarrow> bool" where
  "excluded (Excluded _) = True"
| "excluded _ = False"

fun included :: "'k bound \<Rightarrow> bool" where
  "included (Included _) = True"
| "included _ = False"

definition sort_ranges :: "'k::linorder EnumerationRange list \<Rightarrow> 'k EnumerationRange list option" where
  "sort_ranges ranges = (if list_ex (\<lambda>(s, _). excluded s) ranges then None else Some (sort_key (\<lambda>(s, _). start_key s) ranges))"

text \<open>The loop, with the last range of the output in hand.\<close>

fun coalesce_from :: "'k::linorder EnumerationRange \<Rightarrow> 'k EnumerationRange list \<Rightarrow> 'k EnumerationRange list option" where
  "coalesce_from prev [] = Some [prev]"
| "coalesce_from (prev_start, prev_end) ((s, e) # ranges) =
    (case ranges_overlap_or_touch prev_end s of
       None \<Rightarrow> None
     | Some True \<Rightarrow>
        (case cmp_end_bound prev_end e of
           None \<Rightarrow> None
         | Some c \<Rightarrow> coalesce_from (prev_start, if c = Less then e else prev_end) ranges)
     | Some False \<Rightarrow> map_option ((#) (prev_start, prev_end)) (coalesce_from (s, e) ranges))"

definition coalesce_ranges :: "'k::linorder EnumerationRange list \<Rightarrow> 'k EnumerationRange list option" where
  "coalesce_ranges ranges =
    (if length ranges < 2 then Some ranges
     else case sort_ranges ranges of
            None \<Rightarrow> None
          | Some ordered \<Rightarrow> (case ordered of [] \<Rightarrow> Some [] | r # rs \<Rightarrow> coalesce_from r rs))"

definition above :: "'k::linorder bound \<Rightarrow> 'k \<Rightarrow> bool" where
  "above s k = (case s of Included a \<Rightarrow> a \<le> k | Excluded a \<Rightarrow> a < k | Unbounded \<Rightarrow> True)"

definition below :: "'k::linorder bound \<Rightarrow> 'k \<Rightarrow> bool" where
  "below e k = (case e of Included a \<Rightarrow> k \<le> a | Excluded a \<Rightarrow> k < a | Unbounded \<Rightarrow> True)"

definition in_range :: "'k::linorder EnumerationRange \<Rightarrow> 'k \<Rightarrow> bool" where
  "in_range r k \<longleftrightarrow> above (fst r) k \<and> below (snd r) k"

section \<open>Slots and tasks\<close>

record ('k, 'e, 's, 'a, 'i) Dumps =
  bulk_in_flight :: "'a list"
  bulk_dumps_in_flight :: nat
  max_concurrent_bulk_dumps :: nat
  bulk_admission :: "'i BulkAdmission"
  pending_dumps :: "('a, 'k EnumerationRange list) kv"
  pending_value_dumps :: "('a, 'k EnumerationRange list) kv"
  dump_tasks :: "('a \<times> DumpChannel \<times> (unit, 'k, 'e, 's) Message list) list"

definition dumps_new :: "nat \<Rightarrow> ('k, 'e, 's, 'a, 'i) Dumps" where
  "dumps_new budget =
    \<lparr>bulk_in_flight = [], bulk_dumps_in_flight = 0, max_concurrent_bulk_dumps = budget, bulk_admission = admission_new budget,
     pending_dumps = [], pending_value_dumps = [], dump_tasks = []\<rparr>"

definition stash_of :: "DumpChannel \<Rightarrow> ('k, 'e, 's, 'a, 'i) Dumps \<Rightarrow> ('a, 'k EnumerationRange list) kv" where
  "stash_of channel d = (case channel of Dated \<Rightarrow> pending_dumps d | ValueOnly \<Rightarrow> pending_value_dumps d)"

definition put_stash ::
  "DumpChannel \<Rightarrow> ('a, 'k EnumerationRange list) kv \<Rightarrow> ('k, 'e, 's, 'a, 'i) Dumps \<Rightarrow> ('k, 'e, 's, 'a, 'i) Dumps" where
  "put_stash channel m d = (case channel of Dated \<Rightarrow> d\<lparr>pending_dumps := m\<rparr> | ValueOnly \<Rightarrow> d\<lparr>pending_value_dumps := m\<rparr>)"

definition stashed :: "('a, 'k EnumerationRange list) kv \<Rightarrow> 'a \<Rightarrow> 'k EnumerationRange list" where
  "stashed m peer = (case map_of m peer of None \<Rightarrow> [] | Some rs \<Rightarrow> rs)"

definition stash_pending_dump ::
  "DumpChannel \<Rightarrow> 'a \<Rightarrow> 'k::linorder EnumerationRange list \<Rightarrow> ('k, 'e, 's, 'a, 'i) Dumps \<Rightarrow> ('k, 'e, 's, 'a, 'i) Dumps option" where
  "stash_pending_dump channel peer ranges d =
    map_option (\<lambda>rs. put_stash channel (AList.update peer rs (stash_of channel d)) d)
      (coalesce_ranges (stashed (stash_of channel d) peer @ ranges))"

definition take_pending_dump ::
  "DumpChannel \<Rightarrow> 'a \<Rightarrow> 'k::linorder EnumerationRange list \<Rightarrow> ('k, 'e, 's, 'a, 'i) Dumps \<Rightarrow>
    ('k EnumerationRange list \<times> ('k, 'e, 's, 'a, 'i) Dumps) option" where
  "take_pending_dump channel peer ranges d =
    map_option (\<lambda>rs. (rs, put_stash channel (AList.delete peer (stash_of channel d)) d))
      (coalesce_ranges (stashed (stash_of channel d) peer @ ranges))"

definition try_claim_dump_slot :: "'a \<Rightarrow> ('k, 'e, 's, 'a, 'i) Dumps \<Rightarrow> bool \<times> ('k, 'e, 's, 'a, 'i) Dumps" where
  "try_claim_dump_slot peer d =
    (if peer \<in> set (bulk_in_flight d) then (False, d)
     else let d1 = d\<lparr>bulk_in_flight := List.insert peer (bulk_in_flight d)\<rparr>
          in if bulk_dumps_in_flight d1 < max_concurrent_bulk_dumps d1
             then (True, d1\<lparr>bulk_dumps_in_flight := bulk_dumps_in_flight d1 + 1\<rparr>)
             else (False, d1\<lparr>bulk_in_flight := removeAll peer (bulk_in_flight d1)\<rparr>))"

text \<open>The two guards, dropped together.\<close>

definition release_dump_slot :: "'a \<Rightarrow> ('k, 'e, 's, 'a, 'i) Dumps \<Rightarrow> ('k, 'e, 's, 'a, 'i) Dumps" where
  "release_dump_slot peer d =
    d\<lparr>bulk_in_flight := removeAll peer (bulk_in_flight d), bulk_dumps_in_flight := (bulk_dumps_in_flight d + usize_max) mod 2 ^ 64\<rparr>"

text \<open>The entries of the ranges, read from the map or from its projection.\<close>

definition dump_messages ::
  "DumpChannel \<Rightarrow> ('k::linorder, 'e) kv \<Rightarrow> ('k, 's) kv \<Rightarrow> 'k EnumerationRange list \<Rightarrow> (unit, 'k, 'e, 's) Message list" where
  "dump_messages channel m projection ranges =
    (case channel of
       Dated \<Rightarrow> concat (map (\<lambda>r. map (\<lambda>(k, e). EntryUpdate k e) (filter (\<lambda>(k, _). in_range r k) m)) ranges)
     | ValueOnly \<Rightarrow> concat (map (\<lambda>r. map (\<lambda>(k, s). StateUpdate k s) (filter (\<lambda>(k, _). in_range r k) projection)) ranges))"

definition start_dump ::
  "DumpChannel \<Rightarrow> ('a \<Rightarrow> 'i) \<Rightarrow> ('k::linorder, 'e) kv \<Rightarrow> ('k, 's) kv \<Rightarrow> 'k EnumerationRange list \<Rightarrow> 'a \<Rightarrow> 32 arr \<Rightarrow> instant \<Rightarrow>
    ('k, 'e, 's, 'a, 'i) Dumps \<Rightarrow> ('k, 'e, 's, 'a, 'i) Dumps option" where
  "start_dump channel ip m projection differences peer fingerprint now d =
    (let (claimed, d1) = try_claim_dump_slot peer d
     in if \<not> claimed then stash_pending_dump channel peer differences d1
        else let (r, adm) = try_admit_at (ip peer) channel fingerprint now (bulk_admission d1); d2 = d1\<lparr>bulk_admission := adm\<rparr>
             in case r of
                  Inl _ \<Rightarrow> Some (release_dump_slot peer d2)
                | Inr _ \<Rightarrow>
                   map_option (\<lambda>(ranges, d3).
                     let updates = dump_messages channel m projection ranges
                     in if updates = [] then release_dump_slot peer d3 else d3\<lparr>dump_tasks := dump_tasks d3 @ [(peer, channel, updates)]\<rparr>)
                     (take_pending_dump channel peer differences d2))"

definition start_dated_dump where
  "start_dated_dump ip m projection = start_dump Dated ip m projection"

definition start_value_dump where
  "start_value_dump ip m projection = start_dump ValueOnly ip m projection"

text \<open>A task that has sent its messages takes what was stashed for its peer and channel, and ends when there
  is nothing; a task that is aborted or panics drops its guards as well.\<close>

definition end_task :: "nat \<Rightarrow> ('k, 'e, 's, 'a, 'i) Dumps \<Rightarrow> ('k, 'e, 's, 'a, 'i) Dumps" where
  "end_task i d = release_dump_slot (fst (dump_tasks d ! i)) (d\<lparr>dump_tasks := take i (dump_tasks d) @ drop (Suc i) (dump_tasks d)\<rparr>)"

definition dump_round :: "('k::linorder, 'e) kv \<Rightarrow> ('k, 's) kv \<Rightarrow> nat \<Rightarrow> ('k, 'e, 's, 'a, 'i) Dumps \<Rightarrow> ('k, 'e, 's, 'a, 'i) Dumps" where
  "dump_round m projection i d =
    (case dump_tasks d ! i of
       (peer, channel, _) \<Rightarrow>
         let ranges = stashed (stash_of channel d) peer; d1 = put_stash channel (AList.delete peer (stash_of channel d)) d;
             messages = dump_messages channel m projection ranges
         in if ranges = [] \<or> messages = [] then end_task i d1
            else d1\<lparr>dump_tasks := (dump_tasks d1)[i := (peer, channel, messages)]\<rparr>)"

section \<open>Coalescing keeps the covered keys\<close>

text \<open>The shape range reconciliation emits.\<close>

definition half_open :: "'k EnumerationRange \<Rightarrow> bool" where
  "half_open r \<longleftrightarrow> \<not> excluded (fst r) \<and> \<not> included (snd r)"

definition covers :: "'k::linorder EnumerationRange list \<Rightarrow> 'k \<Rightarrow> bool" where
  "covers rs k \<longleftrightarrow> (\<exists>r\<in>set rs. in_range r k)"

lemma covers_simps [simp]: "covers [] k = False" "covers (r # rs) k = (in_range r k \<or> covers rs k)"
  "covers (rs @ rs') k = (covers rs k \<or> covers rs' k)"
  by (auto simp: covers_def)

text \<open>The sort key is the order the comparison computes.\<close>

lemma cmp_start_key:
  assumes "\<not> excluded a" "\<not> excluded b"
  shows "cmp_start_bound a b = Some (key_cmp (start_key a) (start_key b))"
  using assms by (cases a; cases b) (auto simp: key_cmp_def)

lemma above_start: "\<not> excluded a \<Longrightarrow> \<not> excluded b \<Longrightarrow> start_key a \<le> start_key b \<Longrightarrow> above b k \<Longrightarrow> above a k"
  by (cases a; cases b) (auto simp: above_def)

text \<open>Two ranges that overlap or touch are one range.\<close>

lemma join_ranges:
  assumes "half_open (s, e)" "half_open (s', e')" "start_key s \<le> start_key s'" "ranges_overlap_or_touch e s' = Some True"
  shows "\<exists>c. cmp_end_bound e e' = Some c \<and> half_open (s, if c = Less then e' else e) \<and>
    (\<forall>k. in_range (s, if c = Less then e' else e) k \<longleftrightarrow> in_range (s, e) k \<or> in_range (s', e') k)"
proof -
  have start: "above s' k \<Longrightarrow> above s k" for k using above_start [of s s'] assms(1-3) by (simp add: half_open_def)
  have mid: "below e k \<or> above s' k" for k
    using assms(1,2,4) by (cases e; cases s') (auto simp: half_open_def below_def above_def)
  obtain c where c: "cmp_end_bound e e' = Some c" using assms(1,2) by (cases e; cases e') (auto simp: half_open_def)
  have "below (if c = Less then e' else e) k \<longleftrightarrow> below e k \<or> below e' k" for k
    using assms(1,2) c by (cases e; cases e') (auto simp: half_open_def below_def key_cmp_def split: if_splits)
  then show ?thesis using c start mid assms(1,2) by (auto simp: in_range_def half_open_def)
qed

definition apart :: "'k::linorder EnumerationRange \<Rightarrow> 'k EnumerationRange \<Rightarrow> bool" where
  "apart r r' \<longleftrightarrow> ranges_overlap_or_touch (snd r) (fst r') = Some False"

definition coalesced :: "'k::linorder EnumerationRange list \<Rightarrow> 'k EnumerationRange list \<Rightarrow> bool" where
  "coalesced rs out \<longleftrightarrow> list_all half_open out \<and> (\<forall>k. covers out k \<longleftrightarrow> covers rs k) \<and> successively apart out \<and> length out \<le> length rs"

lemma coalesce_from_exact:
  assumes "list_all half_open (r # rs)" "sorted (map (start_key \<circ> fst) (r # rs))"
  shows "\<exists>e out. coalesce_from r rs = Some ((fst r, e) # out) \<and> coalesced (r # rs) ((fst r, e) # out)"
  using assms
proof (induction r rs rule: coalesce_from.induct)
  case (1 prev)
  then show ?case by (intro exI [of _ "snd prev"] exI [of _ "[]"]) (simp add: coalesced_def)
next
  case (2 ps pe s e rs)
  have ho: "half_open (ps, pe)" "half_open (s, e)" "list_all half_open rs" and le: "start_key ps \<le> start_key s"
    and srt: "sorted (map (start_key \<circ> fst) rs)" "\<forall>x\<in>set rs. start_key ps \<le> start_key (fst x)" "\<forall>x\<in>set rs. start_key s \<le> start_key (fst x)"
    using "2.prems" by (auto simp: comp_def)
  obtain b where b: "ranges_overlap_or_touch pe s = Some b" using ho by (cases pe; cases s) (auto simp: half_open_def)
  show ?case
  proof (cases b)
    case True
    from join_ranges [OF ho(1,2) le] b True obtain c where c: "cmp_end_bound pe e = Some c" "half_open (ps, if c = Less then e else pe)"
      "\<forall>k. in_range (ps, if c = Less then e else pe) k \<longleftrightarrow> in_range (ps, pe) k \<or> in_range (s, e) k" by auto
    let ?r = "(ps, if c = Less then e else pe)"
    have "list_all half_open (?r # rs)" "sorted (map (start_key \<circ> fst) (?r # rs))" using c(2) ho(3) srt by (auto simp del: if_split)
    from "2.IH"(1) [OF b _ c(1) this] True obtain e' out where o: "coalesce_from ?r rs = Some ((ps, e') # out)" "coalesced (?r # rs) ((ps, e') # out)"
      by auto
    have "coalesce_from (ps, pe) ((s, e) # rs) = Some ((ps, e') # out)" using b True c(1) o(1) by (simp del: if_split)
    moreover have "coalesced ((ps, pe) # (s, e) # rs) ((ps, e') # out)" using o(2) c(3) by (simp add: coalesced_def del: if_split)
    ultimately show ?thesis by auto
  next
    case False
    have "list_all half_open ((s, e) # rs)" "sorted (map (start_key \<circ> fst) ((s, e) # rs))" using ho srt by auto
    from "2.IH"(2) [OF b _ this] False obtain e' out where o: "coalesce_from (s, e) rs = Some ((s, e') # out)" "coalesced ((s, e) # rs) ((s, e') # out)"
      by auto
    have "coalesce_from (ps, pe) ((s, e) # rs) = Some ((ps, pe) # (s, e') # out)" using b False o(1) by simp
    moreover have "apart (ps, pe) (s, e')" using b False by (simp add: apart_def)
    then have "coalesced ((ps, pe) # (s, e) # rs) ((ps, pe) # (s, e') # out)" using o(2) ho(1) by (simp add: coalesced_def)
    ultimately show ?thesis by auto
  qed
qed

lemma coalesce_exact:
  assumes "list_all half_open rs"
  shows "\<exists>out. coalesce_ranges rs = Some out \<and> coalesced rs out"
proof (cases "length rs < 2")
  case True
  then have "successively apart rs" by (cases rs) auto
  then show ?thesis using True assms by (simp add: coalesce_ranges_def coalesced_def)
next
  case False
  let ?sorted = "sort_key (\<lambda>(s, _). start_key s) rs"
  have key: "(\<lambda>(s, _). start_key s) = start_key \<circ> fst" by (simp add: fun_eq_iff split_beta)
  have "\<not> list_ex (\<lambda>(s, _). excluded s) rs" using assms by (auto simp: list_all_iff list_ex_iff half_open_def)
  moreover obtain r rs' where rs': "?sorted = r # rs'" using False by (cases ?sorted) (auto dest: arg_cong [of _ _ length])
  ultimately have eq: "coalesce_ranges rs = coalesce_from r rs'" using False by (simp add: coalesce_ranges_def sort_ranges_def)
  have same: "set (r # rs') = set rs" "length (r # rs') = length rs" unfolding rs' [symmetric] by simp_all
  then have "list_all half_open (r # rs')" using assms by (metis list_all_iff)
  moreover have "sorted (map (start_key \<circ> fst) (r # rs'))" unfolding rs' [symmetric] key by simp
  ultimately obtain e out where o: "coalesce_from r rs' = Some ((fst r, e) # out)" "coalesced (r # rs') ((fst r, e) # out)"
    using coalesce_from_exact by blast
  have "covers (r # rs') k = covers rs k" for k unfolding covers_def same ..
  then have "coalesced rs ((fst r, e) # out)" using o(2) same(2) unfolding coalesced_def by metis
  then show ?thesis using o(1) eq by simp
qed

lemma dump_messages_dated: "set (dump_messages Dated m pr rs) = {EntryUpdate k e |k e. (k, e) \<in> set m \<and> covers rs k}"
  by (fastforce simp: dump_messages_def covers_def)

lemma dump_messages_value: "set (dump_messages ValueOnly m pr rs) = {StateUpdate k s |k s. (k, s) \<in> set pr \<and> covers rs k}"
  by (fastforce simp: dump_messages_def covers_def)

lemma dump_messages_covers:
  assumes "\<forall>k. covers rs k = covers rs' k"
  shows "set (dump_messages ch m pr rs) = set (dump_messages ch m pr rs')"
  using assms by (cases ch) (simp_all add: dump_messages_dated dump_messages_value)

section \<open>Slots\<close>

definition stash_ok :: "('a, 'k EnumerationRange list) kv \<Rightarrow> bool" where
  "stash_ok m \<longleftrightarrow> list_all (\<lambda>(_, rs). list_all half_open rs) m"

definition dumps_ok :: "('k, 'e, 's, 'a, 'i) Dumps \<Rightarrow> bool" where
  "dumps_ok d \<longleftrightarrow> distinct (map fst (dump_tasks d)) \<and> distinct (bulk_in_flight d) \<and> set (bulk_in_flight d) = fst ` set (dump_tasks d) \<and>
    bulk_dumps_in_flight d = length (dump_tasks d) \<and> length (dump_tasks d) \<le> max_concurrent_bulk_dumps d \<and>
    max_concurrent_bulk_dumps d < 2 ^ 64 \<and> stash_ok (pending_dumps d) \<and> stash_ok (pending_value_dumps d)"

lemma stashed_ok: "stash_ok m \<Longrightarrow> list_all half_open (stashed m p)"
  by (cases "map_of m p") (auto simp: stash_ok_def stashed_def list_all_iff dest!: map_of_SomeD)

lemma stash_ok_update: "stash_ok m \<Longrightarrow> list_all half_open rs \<Longrightarrow> stash_ok (AList.update p rs m)"
  unfolding stash_ok_def by (rule list_all_update) simp_all

lemma stash_ok_delete: "stash_ok m \<Longrightarrow> stash_ok (AList.delete p m)"
  by (auto simp: stash_ok_def AList.delete_eq list_all_iff)

lemma dumps_ok_stash: "dumps_ok d \<Longrightarrow> stash_ok (stash_of ch d)" "dumps_ok d \<Longrightarrow> stash_ok m \<Longrightarrow> dumps_ok (put_stash ch m d)"
  by (simp_all add: dumps_ok_def stash_of_def put_stash_def split: DumpChannel.split)

lemma put_stash_simps [simp]: "dump_tasks (put_stash ch m d) = dump_tasks d" "bulk_in_flight (put_stash ch m d) = bulk_in_flight d"
  "bulk_dumps_in_flight (put_stash ch m d) = bulk_dumps_in_flight d" "max_concurrent_bulk_dumps (put_stash ch m d) = max_concurrent_bulk_dumps d"
  "stash_of ch (put_stash ch m d) = m"
  by (simp_all add: put_stash_def stash_of_def split: DumpChannel.split)

text \<open>A slot held for a peer that has no task yet.\<close>

definition claimed_for :: "'a \<Rightarrow> ('k, 'e, 's, 'a, 'i) Dumps \<Rightarrow> ('k, 'e, 's, 'a, 'i) Dumps \<Rightarrow> bool" where
  "claimed_for peer d d1 \<longleftrightarrow> dumps_ok d \<and> peer \<notin> fst ` set (dump_tasks d) \<and> length (dump_tasks d) < max_concurrent_bulk_dumps d \<and>
    dump_tasks d1 = dump_tasks d \<and> bulk_in_flight d1 = peer # bulk_in_flight d \<and> bulk_dumps_in_flight d1 = Suc (bulk_dumps_in_flight d) \<and>
    max_concurrent_bulk_dumps d1 = max_concurrent_bulk_dumps d \<and> stash_ok (pending_dumps d1) \<and> stash_ok (pending_value_dumps d1)"

lemma claim_cases:
  assumes "dumps_ok d" "try_claim_dump_slot peer d = (ok, d1)"
  shows "if ok then claimed_for peer d d1 else d1 = d"
  using assms by (auto simp: try_claim_dump_slot_def claimed_for_def dumps_ok_def Let_def removeAll_id split: if_splits)

lemma release_count: "n < 18446744073709551616 \<Longrightarrow> Suc (n + usize_max) mod 18446744073709551616 = n"
  by (simp add: usize_max_def)

lemma slot_released:
  assumes "claimed_for peer d d1"
  shows "dumps_ok (release_dump_slot peer d1)" "dump_tasks (release_dump_slot peer d1) = dump_tasks d"
  using assms by (auto simp: claimed_for_def dumps_ok_def release_dump_slot_def release_count removeAll_id)

lemma claimed_put: "claimed_for peer d d1 \<Longrightarrow> stash_ok m \<Longrightarrow> claimed_for peer d (put_stash ch m d1)" "claimed_for peer d d1 \<Longrightarrow> stash_ok (stash_of ch d1)"
  "claimed_for peer d d1 \<Longrightarrow> claimed_for peer d (d1\<lparr>bulk_admission := a\<rparr>)"
  by (simp_all add: claimed_for_def) (simp_all add: put_stash_def stash_of_def split: DumpChannel.split)

lemma spawn_claimed:
  assumes "claimed_for peer d d1"
  shows "dumps_ok (d1\<lparr>dump_tasks := dump_tasks d1 @ [(peer, ch, ms)]\<rparr>)"
  using assms by (auto simp: claimed_for_def dumps_ok_def)

text \<open>The three outcomes of a start.\<close>

lemma start_dump_stashes:
  assumes "try_claim_dump_slot peer d = (False, d1)" "coalesce_ranges (stashed (stash_of ch d1) peer @ differences) = Some rs"
  shows "start_dump ch ip m pr differences peer fp now d = Some (put_stash ch (AList.update peer rs (stash_of ch d1)) d1)"
  using assms by (simp add: start_dump_def stash_pending_dump_def)

lemma start_dump_refused:
  assumes "try_claim_dump_slot peer d = (True, d1)" "try_admit_at (ip peer) ch fp now (bulk_admission d1) = (Inl e, adm)"
  shows "start_dump ch ip m pr differences peer fp now d = Some (release_dump_slot peer (d1\<lparr>bulk_admission := adm\<rparr>))"
  using assms by (simp add: start_dump_def)

lemma start_dump_admitted:
  assumes "try_claim_dump_slot peer d = (True, d1)" "try_admit_at (ip peer) ch fp now (bulk_admission d1) = (Inr u, adm)"
    and "coalesce_ranges (stashed (stash_of ch d2) peer @ differences) = Some rs"
    and "d2 = d1\<lparr>bulk_admission := adm\<rparr>" "d3 = put_stash ch (AList.delete peer (stash_of ch d2)) d2"
  shows "start_dump ch ip m pr differences peer fp now d =
    Some (if dump_messages ch m pr rs = [] then release_dump_slot peer d3
          else d3\<lparr>dump_tasks := dump_tasks d3 @ [(peer, ch, dump_messages ch m pr rs)]\<rparr>)"
  using assms by (simp add: start_dump_def take_pending_dump_def Let_def)

lemma start_dump_ok:
  assumes "dumps_ok d" "list_all half_open differences"
  shows "\<exists>d'. start_dump ch ip m pr differences peer fp now d = Some d' \<and> dumps_ok d'"
proof -
  obtain ok d1 where c: "try_claim_dump_slot peer d = (ok, d1)" by fastforce
  note claim = claim_cases [OF assms(1) c]
  show ?thesis
  proof (cases ok)
    case False
    then have d1: "d1 = d" using claim by simp
    have stash: "stash_ok (stash_of ch d)" using assms(1) by (rule dumps_ok_stash(1))
    then have "list_all half_open (stashed (stash_of ch d1) peer @ differences)" using stashed_ok [OF stash] assms(2) d1 by simp
    then obtain rs where rs: "coalesce_ranges (stashed (stash_of ch d1) peer @ differences) = Some rs" "list_all half_open rs"
      using coalesce_exact unfolding coalesced_def by blast
    show ?thesis using start_dump_stashes [OF _ rs(1)] c False d1 dumps_ok_stash(2) [OF assms(1) stash_ok_update [OF stash rs(2)]] by simp
  next
    case True
    obtain r adm where a: "try_admit_at (ip peer) ch fp now (bulk_admission d1) = (r, adm)" by fastforce
    let ?d2 = "d1\<lparr>bulk_admission := adm\<rparr>"
    have cl: "claimed_for peer d ?d2" using claim True claimed_put(3) by auto
    show ?thesis
    proof (cases r)
      case (Inl e)
      show ?thesis unfolding start_dump_refused [where ip = ip, OF c [unfolded True [THEN eqTrueI]] a [unfolded Inl]]
        using slot_released(1) [OF cl] by simp
    next
      case (Inr u)
      note stash = claimed_put(2) [OF cl, of ch]
      have "list_all half_open (stashed (stash_of ch ?d2) peer @ differences)" using stashed_ok [OF stash] assms(2) by simp
      then obtain rs where rs: "coalesce_ranges (stashed (stash_of ch ?d2) peer @ differences) = Some rs" using coalesce_exact by blast
      have cl3: "claimed_for peer d (put_stash ch (AList.delete peer (stash_of ch ?d2)) ?d2)" by (rule claimed_put(1) [OF cl stash_ok_delete [OF stash]])
      show ?thesis unfolding start_dump_admitted [where ip = ip, OF c [unfolded True [THEN eqTrueI]] a [unfolded Inr] rs refl refl]
        using slot_released(1) [OF cl3] spawn_claimed [OF cl3, of ch "dump_messages ch m pr rs"] by simp
    qed
  qed
qed

lemma end_task_ok:
  assumes "dumps_ok d" "i < length (dump_tasks d)"
  shows "dumps_ok (end_task i d)"
proof -
  define xs x ys where "xs = take i (dump_tasks d)" "x = dump_tasks d ! i" "ys = drop (Suc i) (dump_tasks d)"
  then have split: "dump_tasks d = xs @ x # ys" using assms(2) by (simp add: id_take_nth_drop)
  have d: "distinct (map fst (xs @ x # ys))" "set (bulk_in_flight d) = fst ` set (xs @ x # ys)" "bulk_dumps_in_flight d = length (xs @ x # ys)"
    "length (xs @ x # ys) < 2 ^ 64"
    using assms(1) unfolding dumps_ok_def split by auto
  then have "fst x \<notin> fst ` set xs" "fst x \<notin> fst ` set ys" by simp_all
  then have "fst ` set (xs @ ys) = set (removeAll (fst x) (bulk_in_flight d))" unfolding set_removeAll d(2) set_append list.set image_Un image_insert by blast
  moreover have "(bulk_dumps_in_flight d + usize_max) mod 2 ^ 64 = length (xs @ ys)" using d(3,4) release_count [of "length (xs @ ys)"] by simp
  then have "end_task i d = d\<lparr>bulk_in_flight := removeAll (fst x) (bulk_in_flight d), bulk_dumps_in_flight := length (xs @ ys), dump_tasks := xs @ ys\<rparr>"
    by (simp add: end_task_def release_dump_slot_def xs_x_ys_def)
  moreover have "distinct (bulk_in_flight d)" "length (xs @ x # ys) \<le> max_concurrent_bulk_dumps d" "max_concurrent_bulk_dumps d < 2 ^ 64"
    "stash_ok (pending_dumps d)" "stash_ok (pending_value_dumps d)" using assms(1) by (simp_all add: dumps_ok_def split)
  ultimately show ?thesis using d(1) by (simp add: dumps_ok_def distinct_removeAll)
qed

lemma dumps_ok_tasks:
  assumes "dumps_ok d" "map fst ts = map fst (dump_tasks d)"
  shows "dumps_ok (d\<lparr>dump_tasks := ts\<rparr>)"
proof -
  have "length ts = length (dump_tasks d)" "fst ` set ts = fst ` set (dump_tasks d)"
    using arg_cong [OF assms(2), of length] arg_cong [OF assms(2), of set] by simp_all
  then show ?thesis using assms by (simp add: dumps_ok_def)
qed

lemma dump_round_ok:
  assumes "dumps_ok d" "i < length (dump_tasks d)"
  shows "dumps_ok (dump_round m pr i d)"
proof -
  obtain peer ch ms where t: "dump_tasks d ! i = (peer, ch, ms)" by (cases "dump_tasks d ! i")
  let ?d1 = "put_stash ch (AList.delete peer (stash_of ch d)) d"
  have d1: "dumps_ok ?d1" by (rule dumps_ok_stash(2) [OF assms(1) stash_ok_delete [OF dumps_ok_stash(1) [OF assms(1)]]])
  have "map fst ((dump_tasks d)[i := (peer, ch, ms')]) = map fst (dump_tasks d)" for ms'
    using t assms(2) by (simp add: map_update list_update_same_conv)
  then have "dumps_ok (?d1\<lparr>dump_tasks := (dump_tasks d)[i := (peer, ch, ms')]\<rparr>)" for ms' using dumps_ok_tasks [OF d1] by simp
  then show ?thesis using t end_task_ok [OF d1] assms(2) by (simp add: dump_round_def Let_def)
qed

text \<open>A schedule: comparisons that found differences, rounds of the tasks and aborts, each with the map and the
  projection of its moment.\<close>

datatype ('k, 'e, 's, 'a) dump_event =
    StartDump DumpChannel "('k, 'e) kv" "('k, 's) kv" "'k EnumerationRange list" 'a "32 arr" instant
  | DumpRound "('k, 'e) kv" "('k, 's) kv" nat
  | AbortDump nat

fun dump_step :: "('a \<Rightarrow> 'i) \<Rightarrow> ('k::linorder, 'e, 's, 'a) dump_event \<Rightarrow> ('k, 'e, 's, 'a, 'i) Dumps \<Rightarrow> ('k, 'e, 's, 'a, 'i) Dumps option" where
  "dump_step ip (StartDump ch m pr differences peer fp now) d = start_dump ch ip m pr differences peer fp now d"
| "dump_step ip (DumpRound m pr i) d = Some (if i < length (dump_tasks d) then dump_round m pr i d else d)"
| "dump_step ip (AbortDump i) d = Some (if i < length (dump_tasks d) then end_task i d else d)"

fun dump_run :: "('a \<Rightarrow> 'i) \<Rightarrow> ('k::linorder, 'e, 's, 'a) dump_event list \<Rightarrow> ('k, 'e, 's, 'a, 'i) Dumps \<Rightarrow> ('k, 'e, 's, 'a, 'i) Dumps option" where
  "dump_run ip [] d = Some d"
| "dump_run ip (ev # evs) d = Option.bind (dump_step ip ev d) (dump_run ip evs)"

fun event_half_open :: "('k, 'e, 's, 'a) dump_event \<Rightarrow> bool" where
  "event_half_open (StartDump ch m pr differences peer fp now) = list_all half_open differences"
| "event_half_open _ = True"

lemma dump_step_ok:
  assumes "dumps_ok d" "event_half_open ev"
  shows "\<exists>d'. dump_step ip ev d = Some d' \<and> dumps_ok d'"
proof (cases ev)
  case (StartDump ch m pr differences peer fp now)
  then show ?thesis using start_dump_ok [OF assms(1)] assms(2) by simp
qed (use assms dump_round_ok end_task_ok in auto)

lemma dump_run_ok:
  assumes "dumps_ok d" "list_all event_half_open evs"
  shows "\<exists>d'. dump_run ip evs d = Some d' \<and> dumps_ok d'"
  using assms
proof (induction evs arbitrary: d)
  case (Cons ev evs)
  then obtain d1 where d1: "dump_step ip ev d = Some d1" "dumps_ok d1" using dump_step_ok [of d ev ip] by auto
  then show ?case using Cons.IH [of d1] Cons.prems by simp
qed simp

lemma dumps_new_ok: "budget < 2 ^ 64 \<Longrightarrow> dumps_ok (dumps_new budget)"
  by (simp add: dumps_ok_def dumps_new_def stash_ok_def)

text \<open>C21: under every schedule of differences found, dump rounds and aborts, the bookkeeping of the bulk dumps never
  panics, every peer has at most one dump, the marked peers are exactly those with a running task, and the
  counted slots are exactly the running tasks and never more than the budget: no path leaks a slot.\<close>

theorem dump_slots_exact:
  assumes "budget < 2 ^ 64" "list_all event_half_open evs"
  shows "\<exists>d. dump_run ip evs (dumps_new budget) = Some d \<and> distinct (map fst (dump_tasks d)) \<and>
    set (bulk_in_flight d) = fst ` set (dump_tasks d) \<and> bulk_dumps_in_flight d = length (dump_tasks d) \<and>
    length (dump_tasks d) \<le> max_concurrent_bulk_dumps d"
  using dump_run_ok [OF dumps_new_ok [OF assms(1)] assms(2), of ip] by (auto simp: dumps_ok_def)

theorem dump_slots_exact_witness:
  "\<exists>d. dump_run (\<lambda>p. p) [StartDump Dated [(3 :: nat, True)] [(3, False)] [(Unbounded, Excluded 9)] (7 :: nat) arr_zero 5] (dumps_new 1) = Some d \<and>
    dump_tasks d = [(7, Dated, [EntryUpdate 3 True])] \<and> bulk_dumps_in_flight d = length (dump_tasks d)"
proof -
  let ?run = "dump_run (\<lambda>p. p) [StartDump Dated [(3 :: nat, True)] [(3, False)] [(Unbounded, Excluded 9)] (7 :: nat) arr_zero 5] (dumps_new 1)"
  have "map_option dump_tasks ?run = Some [(7, Dated, [EntryUpdate 3 True])]"
    by (simp add: start_dump_def try_claim_dump_slot_def dumps_new_def admission_new_def try_admit_at_def forget_expired_def recent_of_def
        gcra_allows_def take_pending_dump_def coalesce_ranges_def stashed_def stash_of_def dump_messages_def in_range_def above_def below_def Let_def)
  then show ?thesis
    using dump_slots_exact [of 1 "[StartDump Dated [(3 :: nat, True)] [(3, False)] [(Unbounded, Excluded 9)] (7 :: nat) arr_zero 5]" "\<lambda>p. p"]
    by (auto simp: half_open_def)
qed

definition demo_dumps :: "(nat, bool, bool, nat, nat) Dumps" where
  "demo_dumps = (dumps_new 1)\<lparr>pending_dumps := [(7, [(Unbounded, Excluded 5)])]\<rparr>"

text \<open>C37: no difference is lost while slots are taken. A start that finds no slot leaves the peer's stash covering
  exactly the keys it covered and those of the new ranges; a start that is admitted sends exactly the entries
  of the stashed and the new ranges and clears the stash; coalescing never adds or drops a key and leaves no
  two consecutive ranges that touch.\<close>

theorem dump_ranges_exact:
  assumes "list_all half_open (stashed (stash_of ch d) peer @ differences)" "try_claim_dump_slot peer d = (claimed, d1)" "dumps_ok d"
  shows "\<exists>d' rs. start_dump ch ip m pr differences peer fp now d = Some d' \<and> successively apart rs \<and>
    (\<forall>k. covers rs k \<longleftrightarrow> covers (stashed (stash_of ch d) peer) k \<or> covers differences k) \<and>
    (\<not> claimed \<longrightarrow> stashed (stash_of ch d') peer = rs \<and> dump_tasks d' = dump_tasks d) \<and>
    (claimed \<and> fst (try_admit_at (ip peer) ch fp now (bulk_admission d1)) = Inr () \<longrightarrow> stashed (stash_of ch d') peer = [] \<and>
      dump_tasks d' = dump_tasks d @ (if dump_messages ch m pr rs = [] then [] else [(peer, ch, dump_messages ch m pr rs)]))"
proof -
  obtain rs where rs: "coalesce_ranges (stashed (stash_of ch d) peer @ differences) = Some rs" "coalesced (stashed (stash_of ch d) peer @ differences) rs"
    using coalesce_exact [OF assms(1)] by blast
  note facts = rs(2) [unfolded coalesced_def covers_simps]
  note claim = claim_cases [OF assms(3,2)]
  show ?thesis
  proof (cases claimed)
    case False
    then have "start_dump ch ip m pr differences peer fp now d = Some (put_stash ch (AList.update peer rs (stash_of ch d)) d)"
      using start_dump_stashes [of peer d d1] assms(2) claim rs(1) by simp
    then show ?thesis using False facts by (intro exI [of _ "put_stash ch (AList.update peer rs (stash_of ch d)) d"] exI [of _ rs]) (simp add: stashed_def)
  next
    case True
    obtain r adm where a: "try_admit_at (ip peer) ch fp now (bulk_admission d1) = (r, adm)" by fastforce
    let ?d2 = "d1\<lparr>bulk_admission := adm\<rparr>"
    let ?d3 = "put_stash ch (AList.delete peer (stash_of ch ?d2)) ?d2"
    have same: "stash_of ch ?d2 = stash_of ch d" "dump_tasks d1 = dump_tasks d"
      using assms(2) True by (auto simp: try_claim_dump_slot_def stash_of_def Let_def split: if_splits DumpChannel.splits)
    show ?thesis
    proof (cases r)
      case (Inl e)
      show ?thesis using start_dump_refused [where ip = ip, OF assms(2) [unfolded True [THEN eqTrueI]] a [unfolded Inl]] Inl a facts True
        by (intro exI [of _ "release_dump_slot peer ?d2"] exI [of _ rs]) simp
    next
      case (Inr u)
      have rs2: "coalesce_ranges (stashed (stash_of ch ?d2) peer @ differences) = Some rs" using rs(1) same(1) by simp
      let ?d' = "if dump_messages ch m pr rs = [] then release_dump_slot peer ?d3 else ?d3\<lparr>dump_tasks := dump_tasks ?d3 @ [(peer, ch, dump_messages ch m pr rs)]\<rparr>"
      have "stash_of ch ?d' = AList.delete peer (stash_of ch d)" "dump_tasks ?d' = dump_tasks d @ (if dump_messages ch m pr rs = [] then [] else [(peer, ch, dump_messages ch m pr rs)])"
        using same by (simp_all add: release_dump_slot_def stash_of_def put_stash_def split: DumpChannel.splits)
      then show ?thesis using start_dump_admitted [where ip = ip, OF assms(2) [unfolded True [THEN eqTrueI]] a [unfolded Inr] rs2 refl refl] facts True
        by (intro exI [of _ ?d'] exI [of _ rs]) (simp add: stashed_def)
    qed
  qed
qed

theorem dump_ranges_exact_witness:
  "\<exists>d' rs. start_dump Dated (\<lambda>p. p) [(3, True)] [(3, False)] [(Included 5, Excluded 9)] 7 arr_zero 5 demo_dumps = Some d' \<and>
    (\<forall>k :: nat. covers rs k \<longleftrightarrow> k < 9) \<and> stashed (pending_dumps d') 7 = []"
proof -
  obtain d1 where claim: "try_claim_dump_slot 7 demo_dumps = (True, d1)" "bulk_admission d1 = admission_new 1"
    by (simp add: try_claim_dump_slot_def dumps_new_def demo_dumps_def)
  have ok: "dumps_ok demo_dumps" by (simp add: dumps_ok_def dumps_new_def stash_ok_def half_open_def demo_dumps_def)
  have ho: "list_all half_open (stashed (stash_of Dated demo_dumps) 7 @ [(Included 5, Excluded 9)])"
    by (simp add: stashed_def stash_of_def half_open_def demo_dumps_def)
  have adm: "fst (try_admit_at 7 Dated arr_zero 5 (bulk_admission d1)) = Inr ()"
    by (simp add: claim(2) admission_new_def try_admit_at_def forget_expired_def recent_of_def gcra_allows_def Let_def)
  from dump_ranges_exact [OF ho claim(1) ok, of "\<lambda>p. p" "[(3, True)]" "[(3, False)]" arr_zero 5] obtain d' rs where
    r: "start_dump Dated (\<lambda>p. p) [(3, True)] [(3, False)] [(Included 5, Excluded 9)] 7 arr_zero 5 demo_dumps = Some d'"
    "\<forall>k. covers rs k \<longleftrightarrow> covers (stashed (stash_of Dated demo_dumps) 7) k \<or> covers [(Included 5, Excluded 9)] k"
    "stashed (stash_of Dated d') 7 = []" using adm by blast
  have old: "covers (stashed (stash_of Dated demo_dumps) 7) k = (k < 5)" "covers [(Included 5, Excluded 9)] k = (5 \<le> k \<and> k < 9)" for k :: nat
    by (simp_all add: stashed_def stash_of_def in_range_def above_def below_def demo_dumps_def)
  have "covers rs k \<longleftrightarrow> k < 9" for k using spec [OF r(2), of k] unfolding old by arith
  then show ?thesis using r(1,3) by (intro exI [of _ d'] exI [of _ rs]) (simp add: stash_of_def)
qed

end
