(* ===== verification/Reconcile.thy ===== *)
theory Reconcile
  imports MapApi "HOL-Library.Multiset"
begin

text \<open>
  The reconciliation round (\<open>src/replica/reconciliation.rs\<close>) and the topology it follows
  (\<open>src/replica/membership.rs\<close>): which peers a round contacts, and the acknowledgements of held tombstones it
  carries, within a byte budget and from a key cursor. The lemmas show whom a round reaches and that
  every held tombstone is acknowledged again within a bounded number of rounds.
\<close>

unbundle bit_operations_syntax

section \<open>Addresses and networks\<close>

text \<open>
  \<open>gossip/src/gen_ip.rs\<close>. Networks are those of the external \<open>ipnet\<close> package: \<^term>\<open>nt_parts\<close> gives the family of
  a network with its \<open>network()\<close> address and its \<open>hostmask()\<close>, \<^term>\<open>nt_new\<close> is \<open>IpNet::new\<close>, which has no value
  for a prefix that is too long.
\<close>

datatype NetParts = NetV4 "32 word" "32 word" | NetV6 "128 word" "128 word"

record 'net NetOps =
  nt_parts :: "'net \<Rightarrow> NetParts"
  nt_contains :: "'net \<Rightarrow> IpAddr \<Rightarrow> bool"
  nt_new :: "IpAddr \<Rightarrow> nat \<Rightarrow> 'net option"

text \<open>Documented behaviour of the package, of addresses as bit strings.\<close>

fun in_parts :: "NetParts \<Rightarrow> IpAddr \<Rightarrow> bool" where
  "in_parts (NetV4 network hostmask) (V4 a) \<longleftrightarrow> a AND NOT hostmask = network"
| "in_parts (NetV6 network hostmask) (V6 a) \<longleftrightarrow> a AND NOT hostmask = network"
| "in_parts _ _ \<longleftrightarrow> False"

fun net_parts_ok :: "NetParts \<Rightarrow> bool" where
  "net_parts_ok (NetV4 network hostmask) \<longleftrightarrow> network AND hostmask = 0"
| "net_parts_ok (NetV6 network hostmask) \<longleftrightarrow> network AND hostmask = 0"

fun host_prefix :: "IpAddr \<Rightarrow> nat" where
  "host_prefix (V4 _) = 32"
| "host_prefix (V6 _) = 128"

definition net_ops_lawful :: "'net NetOps \<Rightarrow> bool" where
  "net_ops_lawful ops \<longleftrightarrow>
    (\<forall>n. net_parts_ok (nt_parts ops n)) \<and> (\<forall>n a. nt_contains ops n a \<longleftrightarrow> in_parts (nt_parts ops n) a) \<and>
    (\<forall>a. \<exists>n. nt_new ops a (host_prefix a) = Some n \<and> nt_contains ops n a)"

text \<open>The random words are those the generator draws, one of each width per call.\<close>

definition gen_ipv4 :: "32 word \<Rightarrow> 32 word \<Rightarrow> 32 word \<Rightarrow> 32 word" where
  "gen_ipv4 random network hostmask = network OR (random AND hostmask)"

definition gen_ipv6 :: "128 word \<Rightarrow> 128 word \<Rightarrow> 128 word \<Rightarrow> 128 word" where
  "gen_ipv6 random network hostmask = network OR (random AND hostmask)"

definition gen_ip :: "'net NetOps \<Rightarrow> 32 word \<times> 128 word \<Rightarrow> 'net \<Rightarrow> IpAddr" where
  "gen_ip ops random net =
    (case nt_parts ops net of
       NetV4 network hostmask \<Rightarrow> V4 (gen_ipv4 (fst random) network hostmask)
     | NetV6 network hostmask \<Rightarrow> V6 (gen_ipv6 (snd random) network hostmask))"

definition probe_targets :: "'net NetOps \<Rightarrow> (nat \<Rightarrow> 32 word \<times> 128 word) \<Rightarrow> 'net list \<Rightarrow> IpAddr list" where
  "probe_targets ops rng ns = map (\<lambda>i. gen_ip ops (rng i) (ns ! i)) [0..<length ns]"

definition net_of :: "'net NetOps \<Rightarrow> 'net list \<Rightarrow> IpAddr \<Rightarrow> 'net option" where
  "net_of ops ns addr = List.find (\<lambda>n. nt_contains ops n addr) ns"

definition host_net :: "'net NetOps \<Rightarrow> IpAddr \<Rightarrow> 'net" where
  "host_net ops addr = the (nt_new ops addr (host_prefix addr))"

section \<open>Topology\<close>

record 'net Topology =
  tp_nets :: "'net list"
  tp_local_net :: 'net
  tp_listen_addr :: IpAddr
  tp_remote_interval :: "32 word"
  tp_remote_fanout :: nat
  tp_reconcile_interval :: duration
  tp_round :: "32 word"
  tp_last_round_at :: "instant option"

definition derive_local_net :: "'net NetOps \<Rightarrow> 'net list \<Rightarrow> IpAddr \<Rightarrow> 'net" where
  "derive_local_net ops ns addr = (case net_of ops ns addr of None \<Rightarrow> host_net ops addr | Some n \<Rightarrow> n)"

definition topology_new :: "'net NetOps \<Rightarrow> 'net list \<Rightarrow> 'net \<Rightarrow> IpAddr \<Rightarrow> 32 word \<Rightarrow> nat \<Rightarrow> duration \<Rightarrow> 'net Topology" where
  "topology_new ops declared loopback addr interval fanout reconcile =
    (let ns = (if declared = [] then [loopback] else declared)
     in \<lparr>tp_nets = ns, tp_local_net = derive_local_net ops ns addr, tp_listen_addr = addr, tp_remote_interval = interval,
         tp_remote_fanout = fanout, tp_reconcile_interval = reconcile, tp_round = 0, tp_last_round_at = None\<rparr>)"

definition set_nets :: "'net NetOps \<Rightarrow> 'net list \<Rightarrow> 'net Topology \<Rightarrow> (ConfigError + unit) \<times> 'net Topology" where
  "set_nets ops ns t =
    (if MAX_NETS < length ns then (Inl TooManyNets, t)
     else (Inr (), t\<lparr>tp_local_net := derive_local_net ops ns (tp_listen_addr t), tp_nets := ns\<rparr>))"

definition add_net :: "'net NetOps \<Rightarrow> 'net \<Rightarrow> 'net Topology \<Rightarrow> bool \<times> 'net Topology" where
  "add_net ops net t =
    (if net \<in> set (tp_nets t) then (True, t)
     else if MAX_NETS \<le> length (tp_nets t) then (False, t)
     else let ns = tp_nets t @ [net] in (True, t\<lparr>tp_nets := ns, tp_local_net := derive_local_net ops ns (tp_listen_addr t)\<rparr>))"

definition remove_net :: "'net NetOps \<Rightarrow> 'net \<Rightarrow> 'net Topology \<Rightarrow> bool \<times> 'net Topology" where
  "remove_net ops net t =
    (let ns = filter (\<lambda>n. n \<noteq> net) (tp_nets t)
     in if length ns \<noteq> length (tp_nets t)
        then (True, t\<lparr>tp_nets := ns, tp_local_net := derive_local_net ops ns (tp_listen_addr t)\<rparr>) else (False, t))"

definition set_remote_interval :: "32 word \<Rightarrow> 'net Topology \<Rightarrow> 'net Topology" where
  "set_remote_interval interval t = t\<lparr>tp_remote_interval := interval\<rparr>"

definition set_remote_fanout :: "nat \<Rightarrow> 'net Topology \<Rightarrow> 'net Topology" where
  "set_remote_fanout fanout t = t\<lparr>tp_remote_fanout := fanout\<rparr>"

definition set_reconcile_interval :: "duration \<Rightarrow> 'net Topology \<Rightarrow> 'net Topology" where
  "set_reconcile_interval interval t = t\<lparr>tp_reconcile_interval := interval\<rparr>"

section \<open>Targets of a round\<close>

definition still_receiving_bulk :: "instant option \<Rightarrow> instant \<Rightarrow> duration \<Rightarrow> bool" where
  "still_receiving_bulk last_received now interval = (case last_received of None \<Rightarrow> False | Some l \<Rightarrow> now - l < interval)"

definition live_entry_count :: "nat \<Rightarrow> nat \<Rightarrow> nat" where
  "live_entry_count total_entries tombstones = total_entries - tombstones"

text \<open>The index of the first network that holds the address, as \<open>position\<close> finds it.\<close>

fun position :: "('b \<Rightarrow> bool) \<Rightarrow> 'b list \<Rightarrow> nat option" where
  "position P [] = None"
| "position P (x # xs) = (if P x then Some 0 else map_option Suc (position P xs))"

definition bucket_of :: "'net NetOps \<Rightarrow> 'net list \<Rightarrow> IpAddr \<Rightarrow> nat option" where
  "bucket_of ops remote_nets addr = position (\<lambda>n. nt_contains ops n addr) remote_nets"

text \<open>The known peers outside the local network, grouped; \<open>shuffle\<close> is the random order of a group.\<close>

definition remote_peers :: "'net NetOps \<Rightarrow> 'net Topology \<Rightarrow> IpAddr list \<Rightarrow> IpAddr list" where
  "remote_peers ops t known = filter (\<lambda>a. \<not> nt_contains ops (tp_local_net t) a) known"

definition remote_targets ::
  "'net NetOps \<Rightarrow> (nat option \<Rightarrow> IpAddr list \<Rightarrow> IpAddr list) \<Rightarrow> 'net Topology \<Rightarrow> IpAddr list \<Rightarrow> IpAddr list" where
  "remote_targets ops shuffle t known =
    (let remote_nets = filter (\<lambda>n. n \<noteq> tp_local_net t) (tp_nets t); remote = remote_peers ops t known;
         buckets = remdups (map (bucket_of ops remote_nets) remote)
     in concat (map (\<lambda>b. take (tp_remote_fanout t) (shuffle b (filter (\<lambda>a. bucket_of ops remote_nets a = b) remote))) buckets))"

definition do_remote :: "'net Topology \<Rightarrow> bool" where
  "do_remote t \<longleftrightarrow> tp_round t mod max (tp_remote_interval t) 1 = 0"

definition round_targets ::
  "'net NetOps \<Rightarrow> (nat option \<Rightarrow> IpAddr list \<Rightarrow> IpAddr list) \<Rightarrow> 'net Topology \<Rightarrow> IpAddr list \<Rightarrow> IpAddr list \<Rightarrow> IpAddr list" where
  "round_targets ops shuffle t probes known =
    remdups (probes @ filter (nt_contains ops (tp_local_net t)) known @ (if do_remote t then remote_targets ops shuffle t known else []))"

section \<open>Acknowledgements of held tombstones\<close>

definition TOMBSTONE_ACK_RESEND_BYTE_BUDGET :: nat where "TOMBSTONE_ACK_RESEND_BYTE_BUDGET = 8 * 1024"

text \<open>Where the search in the ordered keys ends, found or not.\<close>

definition search_index :: "'k::linorder \<Rightarrow> 'k list \<Rightarrow> nat" where
  "search_index k ks = length (filter (\<lambda>x. x < k) ks)"

definition resend_start :: "'k::linorder option \<Rightarrow> 'k list \<Rightarrow> nat" where
  "resend_start cursor ks =
    (case cursor of
       None \<Rightarrow> 0
     | Some next_key \<Rightarrow> if next_key \<in> set ks then search_index next_key ks else search_index next_key ks mod length ks)"

fun resend_loop ::
  "('e, 't, 'v, 's) EntryOps \<Rightarrow> (('agg, 'k, 'e, 's) Message \<Rightarrow> bytes) \<Rightarrow> ('k, 'e) kv \<Rightarrow> nat \<Rightarrow> 'k list \<Rightarrow> bytes \<Rightarrow> nat \<Rightarrow> bytes \<times> nat \<times> 'k option" where
  "resend_loop ops enc m budget [] buf appended = (buf, appended, None)"
| "resend_loop ops enc m budget (k # ks) buf appended =
    (if budget \<le> length buf then (buf, appended, Some k)
     else case map_of m k of
            None \<Rightarrow> resend_loop ops enc m budget ks buf appended
          | Some e \<Rightarrow>
             if en_is_tombstone ops e
             then resend_loop ops enc m budget ks (buf @ enc (TombstoneAck k (en_version ops e))) (appended + 1)
             else resend_loop ops enc m budget ks buf appended)"

definition resend_held_tombstone_acks ::
  "('e, 't, 'v, 's) EntryOps \<Rightarrow> (('agg, 'k::linorder, 'e, 's) Message \<Rightarrow> bytes) \<Rightarrow> ('k, 'e, 's, 'p, 'c) Store \<Rightarrow> 'k option \<Rightarrow> bytes \<Rightarrow>
    bytes \<times> nat \<times> 'k option" where
  "resend_held_tombstone_acks ops enc st cursor buf =
    (if live_tombstones st = [] then (buf, 0, None)
     else let ks = sort (live_tombstones st); start = resend_start cursor ks
          in resend_loop ops enc (st_map st) (length buf + TOMBSTONE_ACK_RESEND_BYTE_BUDGET) (drop start ks @ take start ks) buf 0)"

section \<open>The round\<close>

text \<open>One send and the repair timer it arms; a send that fails is only logged.\<close>

definition contact ::
  "'p::linorder SendEnv \<Rightarrow> SendPorts \<Rightarrow> (IpAddr \<Rightarrow> 'p) \<Rightarrow> bytes \<Rightarrow> (IpAddr \<Rightarrow> instant) \<Rightarrow>
    'p SendState \<times> ('k, 'e, 's, IpAddr, 'c) Store \<Rightarrow> IpAddr \<Rightarrow> 'p SendState \<times> ('k, 'e, 's, IpAddr, 'c) Store" where
  "contact env ports sock buf sent_at acc peer =
    (let (snd_st, st) = acc
     in (snd (send_to_retry env ports (sock peer) buf snd_st),
         st\<lparr>pending_repairs := note_pending_repair peer (sent_at peer) (repair_interval st) (pending_repairs st)\<rparr>))"

text \<open>
  The clock is read when the round starts (\<open>rd\<close>), when the targets are known (\<open>now\<close>) and after each send (\<open>sent_at\<close>).
  The summaries of the ordered map come from the external \<open>rbsr\<close> package; \<open>discovered\<close> is what discovery returns, if it
  does not fail.
\<close>

record ('net, 'e, 't, 'v, 's, 'agg, 'k, 'p) RoundEnv =
  rn_nets :: "'net NetOps"
  rn_shuffle :: "nat option \<Rightarrow> IpAddr list \<Rightarrow> IpAddr list"
  rn_entry :: "('e, 't, 'v, 's) EntryOps"
  rn_initial_ranges :: "('k, 'e) kv \<Rightarrow> 'agg list"
  rn_enc :: "('agg, 'k, 'e, 's) Message \<Rightarrow> bytes"
  rn_send :: "'p SendEnv"
  rn_sock :: "IpAddr \<Rightarrow> 'p"

record ('net, 'k, 'e, 's, 'c, 'p) RoundNode =
  nd_topology :: "'net Topology"
  nd_store :: "('k, 'e, 's, IpAddr, 'c) Store"
  nd_cursor :: "'k option"
  nd_send :: "'p SendState"

definition start_reconciliation ::
  "('net, 'e, 't, 'v, 's, 'agg, 'k::linorder, 'p::linorder) RoundEnv \<Rightarrow> SendPorts \<Rightarrow> IpAddr list option \<Rightarrow> Readings \<Rightarrow> instant \<Rightarrow>
    (IpAddr \<Rightarrow> instant) \<Rightarrow> ('net, 'k, 'e, 's, 'c, 'p) RoundNode \<Rightarrow> ('net, 'k, 'e, 's, 'c, 'p) RoundNode" where
  "start_reconciliation env ports discovered rd now sent_at nd =
    (let st = nd_store nd; t = nd_topology nd; segments = rn_initial_ranges env (st_map st);
         buf = append_capability (rn_enc env) (sp_framing ports) (concat (map (\<lambda>seg. rn_enc env (EntryFingerprint seg)) segments));
         (known, st1) = get_peers rd st;
         targets = round_targets (rn_nets env) (rn_shuffle env) t (case discovered of None \<Rightarrow> [] | Some ps \<Rightarrow> ps) known;
         (buf1, _, cursor1) = resend_held_tombstone_acks (rn_entry env) (rn_enc env) st1 (nd_cursor nd) buf;
         retained = filter (\<lambda>a. \<not> still_receiving_bulk (map_of (receiving_bulk_from st1) a) now (repair_interval st1)) targets;
         (snd_st1, st2) = foldl (contact (rn_send env) ports (rn_sock env) buf1 sent_at) (nd_send nd, st1) retained
     in nd\<lparr>nd_topology := t\<lparr>tp_round := tp_round t + 1, tp_last_round_at := Some (rd_mono rd)\<rparr>,
           nd_store := st2, nd_cursor := cursor1, nd_send := snd_st1\<rparr>)"

section \<open>Networks: lemmas\<close>

lemma masked_in_network:
  fixes network hostmask r :: "'w::len word"
  assumes "network AND hostmask = 0"
  shows "(network OR (r AND hostmask)) AND NOT hostmask = network"
proof (rule bit_eqI)
  fix n
  have "bit (network AND hostmask) n = False"
    using assms by simp
  then show "bit ((network OR (r AND hostmask)) AND NOT hostmask) n = bit network n"
    by (cases "n < LENGTH('w)") (auto simp: bit_and_iff bit_or_iff bit_not_iff dest: bit_imp_le_length)
qed

lemma gen_ip_contained:
  assumes "net_ops_lawful ops"
  shows "nt_contains ops n (gen_ip ops r n)"
proof -
  have "net_parts_ok (nt_parts ops n)" "nt_contains ops n (gen_ip ops r n) \<longleftrightarrow> in_parts (nt_parts ops n) (gen_ip ops r n)"
    using assms by (simp_all add: net_ops_lawful_def)
  then show ?thesis
    by (cases "nt_parts ops n") (simp_all add: gen_ip_def gen_ipv4_def gen_ipv6_def masked_in_network)
qed

lemma net_of_cases:
  "(\<exists>n \<in> set ns. net_of ops ns a = Some n \<and> nt_contains ops n a) \<or> (net_of ops ns a = None \<and> (\<forall>n \<in> set ns. \<not> nt_contains ops n a))"
proof (cases "net_of ops ns a")
  case None
  then show ?thesis
    by (auto simp: net_of_def find_None_iff)
next
  case (Some n)
  then show ?thesis
    by (auto simp: net_of_def find_Some_iff)
qed

lemma derive_local_net_contains:
  assumes "net_ops_lawful ops"
  shows "nt_contains ops (derive_local_net ops ns a) a"
proof -
  obtain h where "nt_new ops a (host_prefix a) = Some h" "nt_contains ops h a"
    using assms unfolding net_ops_lawful_def by blast
  then show ?thesis
    using net_of_cases [of ns ops a] by (auto simp: derive_local_net_def host_net_def)
qed

subsection \<open>Runtime changes of the topology\<close>

datatype 'net TopologyChange =
    SetNets "'net list"
  | AddNet 'net
  | RemoveNet 'net
  | SetRemoteInterval "32 word"
  | SetRemoteFanout nat
  | SetReconcileInterval duration

fun change_topology :: "'net NetOps \<Rightarrow> 'net Topology \<Rightarrow> 'net TopologyChange \<Rightarrow> 'net Topology" where
  "change_topology ops t (SetNets ns) = snd (set_nets ops ns t)"
| "change_topology ops t (AddNet n) = snd (add_net ops n t)"
| "change_topology ops t (RemoveNet n) = snd (remove_net ops n t)"
| "change_topology ops t (SetRemoteInterval i) = set_remote_interval i t"
| "change_topology ops t (SetRemoteFanout f) = set_remote_fanout f t"
| "change_topology ops t (SetReconcileInterval i) = set_reconcile_interval i t"

definition topology_ok :: "'net NetOps \<Rightarrow> 'net Topology \<Rightarrow> bool" where
  "topology_ok ops t \<longleftrightarrow> length (tp_nets t) \<le> MAX_NETS \<and> tp_local_net t = derive_local_net ops (tp_nets t) (tp_listen_addr t)"

lemma topology_new_ok: "length declared \<le> MAX_NETS \<Longrightarrow> topology_ok ops (topology_new ops declared loopback a i f r)"
  by (simp add: topology_ok_def topology_new_def Let_def MAX_NETS_def)

lemma change_topology_ok:
  assumes "topology_ok ops t"
  shows "topology_ok ops (change_topology ops t c) \<and> tp_listen_addr (change_topology ops t c) = tp_listen_addr t"
proof (cases c)
  case (RemoveNet n)
  moreover have "length (filter (\<lambda>x. x \<noteq> n) (tp_nets t)) \<le> length (tp_nets t)"
    by simp
  ultimately show ?thesis
    using assms le_trans [of "length (filter (\<lambda>x. x \<noteq> n) (tp_nets t))" "length (tp_nets t)" MAX_NETS]
    by (auto simp: topology_ok_def remove_net_def Let_def)
qed (use assms in \<open>auto simp: topology_ok_def set_nets_def add_net_def set_remote_interval_def set_remote_fanout_def
    set_reconcile_interval_def Let_def\<close>)

lemma changes_ok:
  "topology_ok ops t \<Longrightarrow>
    topology_ok ops (foldl (change_topology ops) t cs) \<and> tp_listen_addr (foldl (change_topology ops) t cs) = tp_listen_addr t"
  by (induction cs arbitrary: t) (simp_all add: change_topology_ok)

section \<open>Targets: lemmas\<close>

lemma remote_targets_group:
  assumes perm: "\<And>b xs. mset (rn b xs) = mset xs" and dist: "distinct known"
  shows "card {a \<in> set (remote_targets ops rn t known). bucket_of ops (filter (\<lambda>n. n \<noteq> tp_local_net t) (tp_nets t)) a = b} =
    min (tp_remote_fanout t)
      (card {a \<in> set known. \<not> nt_contains ops (tp_local_net t) a \<and> bucket_of ops (filter (\<lambda>n. n \<noteq> tp_local_net t) (tp_nets t)) a = b})"
proof -
  let ?B = "bucket_of ops (filter (\<lambda>n. n \<noteq> tp_local_net t) (tp_nets t))" and ?R = "remote_peers ops t known"
  let ?G = "\<lambda>b. filter (\<lambda>a. ?B a = b) ?R" and ?f = "tp_remote_fanout t"
  have sets: "set (rn c xs) = set xs" and len: "length (rn c xs) = length xs" for c xs
    using perm [of c xs] by (metis set_mset_mset, metis size_mset)
  have d: "distinct (rn c (?G c))" for c
    using perm [of c "?G c"] dist by (metis distinct_filter remote_peers_def mset_eq_imp_distinct_iff)
  have taken: "set (take ?f (rn c (?G c))) \<subseteq> set (?G c)" for c
    using set_take_subset [of ?f "rn c (?G c)"] sets by simp
  have group: "{a \<in> set (remote_targets ops rn t known). ?B a = b} = set (take ?f (rn b (?G b)))"
  proof (intro equalityI subsetI)
    fix a
    assume "a \<in> {a \<in> set (remote_targets ops rn t known). ?B a = b}"
    then obtain c where "a \<in> set (take ?f (rn c (?G c)))" "?B a = b"
      by (auto simp: remote_targets_def Let_def)
    then show "a \<in> set (take ?f (rn b (?G b)))"
      using taken [of c] by auto
  next
    fix a
    assume a: "a \<in> set (take ?f (rn b (?G b)))"
    then have "a \<in> set (?G b)"
      using taken by auto
    then have "b \<in> set (map ?B ?R)" "?B a = b"
      by auto
    then show "a \<in> {a \<in> set (remote_targets ops rn t known). ?B a = b}"
      using a by (auto simp: remote_targets_def Let_def)
  qed
  have "card (set (take ?f (rn b (?G b)))) = min ?f (length (?G b))"
    using d by (simp add: distinct_card len)
  also have "length (?G b) = card (set (?G b))"
    using dist by (metis distinct_card distinct_filter remote_peers_def)
  also have "set (?G b) = {a \<in> set known. \<not> nt_contains ops (tp_local_net t) a \<and> ?B a = b}"
    by (auto simp: remote_peers_def)
  finally show ?thesis
    using group by simp
qed

lemma remote_targets_subset:
  assumes perm: "\<And>b xs. mset (rn b xs) = mset xs"
  shows "set (remote_targets ops rn t known) \<subseteq> {a \<in> set known. \<not> nt_contains ops (tp_local_net t) a}"
proof -
  have "set (take n (rn c xs)) \<subseteq> set xs" for n c xs
    using set_take_subset [of n "rn c xs"] perm [of c xs] by (metis set_mset_mset)
  then show ?thesis
    by (fastforce simp: remote_targets_def remote_peers_def Let_def)
qed

section \<open>Held tombstones: lemmas\<close>

text \<open>The acknowledgement of a key, when the map holds a tombstone for it.\<close>

definition resent_ack :: "('e, 't, 'v, 's) EntryOps \<Rightarrow> (('agg, 'k, 'e, 's) Message \<Rightarrow> bytes) \<Rightarrow> ('k, 'e) kv \<Rightarrow> 'k \<Rightarrow> bytes list" where
  "resent_ack ops enc m k =
    (case map_of m k of None \<Rightarrow> [] | Some e \<Rightarrow> if en_is_tombstone ops e then [enc (TombstoneAck k (en_version ops e))] else [])"

definition acks_of :: "('e, 't, 'v, 's) EntryOps \<Rightarrow> (('agg, 'k, 'e, 's) Message \<Rightarrow> bytes) \<Rightarrow> ('k, 'e) kv \<Rightarrow> 'k list \<Rightarrow> bytes list" where
  "acks_of ops enc m ks = concat (map (resent_ack ops enc m) ks)"

lemma acks_of_simps [simp]:
  "acks_of ops enc m [] = []" "acks_of ops enc m (k # ks) = resent_ack ops enc m k @ acks_of ops enc m ks"
  by (simp_all add: acks_of_def)

lemma resend_loop_Cons:
  "resend_loop ops enc m budget (k # ks) buf c =
    (if budget \<le> length buf then (buf, c, Some k)
     else resend_loop ops enc m budget ks (buf @ concat (resent_ack ops enc m k)) (c + length (resent_ack ops enc m k)))"
  by (simp add: resent_ack_def split: option.split)

lemma resend_loop_prefix:
  "\<exists>j \<le> length ks. resend_loop ops enc m budget ks buf c =
      (buf @ concat (acks_of ops enc m (take j ks)), c + length (acks_of ops enc m (take j ks)), if j = length ks then None else Some (ks ! j)) \<and>
    (length buf < budget \<and> ks \<noteq> [] \<longrightarrow> 0 < j)"
proof (induction ks arbitrary: buf c)
  case (Cons k ks)
  show ?case
  proof (cases "budget \<le> length buf")
    case True
    then show ?thesis
      by (intro exI [of _ 0]) simp
  next
    case False
    obtain j where "j \<le> length ks"
      "resend_loop ops enc m budget ks (buf @ concat (resent_ack ops enc m k)) (c + length (resent_ack ops enc m k)) =
        ((buf @ concat (resent_ack ops enc m k)) @ concat (acks_of ops enc m (take j ks)),
         (c + length (resent_ack ops enc m k)) + length (acks_of ops enc m (take j ks)), if j = length ks then None else Some (ks ! j))"
      using Cons.IH by blast
    then show ?thesis
      using False by (intro exI [of _ "Suc j"]) (simp add: resend_loop_Cons del: resend_loop.simps)
  qed
qed simp

lemma search_index_nth:
  assumes "sorted ks" "distinct ks" "i < length ks"
  shows "search_index (ks ! i) ks = i"
proof -
  have "filter (\<lambda>x. x < ks ! i) (take i ks) = take i ks"
    using assms by (auto simp: filter_id_conv in_set_conv_nth sorted_iff_nth_mono_less nth_eq_iff_index_eq less_le)
  moreover have "filter (\<lambda>x. x < ks ! i) (drop i ks) = []"
    using assms by (auto simp: filter_empty_conv in_set_conv_nth not_less sorted_nth_mono)
  ultimately have "filter (\<lambda>x. x < ks ! i) (take i ks @ drop i ks) = take i ks"
    by (simp only: filter_append append_Nil2)
  then show ?thesis
    using assms(3) by (simp add: search_index_def)
qed

lemma resend_start_less: "ks \<noteq> [] \<Longrightarrow> resend_start c ks < length ks"
proof (cases c)
  case (Some k)
  assume "ks \<noteq> []"
  moreover have "k \<in> set ks \<Longrightarrow> search_index k ks < length ks"
    unfolding search_index_def by (rule length_filter_less [of k]) simp_all
  ultimately show ?thesis
    using Some by (simp add: resend_start_def)
qed (simp add: resend_start_def)

text \<open>One round walks a non-empty prefix of the rotated keys, and the next resumes where it stopped.\<close>

lemma resend_round:
  fixes st :: "('k::linorder, 'e, 's, 'p, 'c) Store" and cursor :: "'k option"
  assumes "live_tombstones st \<noteq> []" "distinct (live_tombstones st)"
  defines "ks \<equiv> sort (live_tombstones st)"
  defines "r \<equiv> rotate (resend_start cursor ks) ks"
  obtains j where "0 < j" "j \<le> length ks"
    "resend_held_tombstone_acks ops enc st cursor buf =
      (buf @ concat (acks_of ops enc (st_map st) (take j r)), length (acks_of ops enc (st_map st) (take j r)), if j = length ks then None else Some (r ! j))"
proof -
  have ne: "ks \<noteq> []"
    using assms by (metis ks_def length_0_conv length_sort)
  have r: "drop (resend_start cursor ks) ks @ take (resend_start cursor ks) ks = r"
    using resend_start_less [OF ne, of cursor] by (simp add: r_def rotate_drop_take)
  then have len: "length r = length ks" "r \<noteq> []"
    using ne by (auto simp: r_def)
  obtain j where "j \<le> length r" "0 < j" "resend_loop ops enc (st_map st) (length buf + TOMBSTONE_ACK_RESEND_BYTE_BUDGET) r buf 0 =
      (buf @ concat (acks_of ops enc (st_map st) (take j r)), 0 + length (acks_of ops enc (st_map st) (take j r)), if j = length r then None else Some (r ! j))"
    using resend_loop_prefix [of r ops enc "st_map st" "length buf + TOMBSTONE_ACK_RESEND_BYTE_BUDGET" buf 0] len
    by (auto simp: TOMBSTONE_ACK_RESEND_BYTE_BUDGET_def)
  then show ?thesis
    using assms(1) len r that [of j] by (simp add: resend_held_tombstone_acks_def Let_def ks_def)
qed

text \<open>The datagrams of successive rounds over an unchanged store.\<close>

fun resend_rounds ::
  "('e, 't, 'v, 's) EntryOps \<Rightarrow> (('agg, 'k::linorder, 'e, 's) Message \<Rightarrow> bytes) \<Rightarrow> ('k, 'e, 's, 'p, 'c) Store \<Rightarrow> 'k option \<Rightarrow> bytes list \<Rightarrow> bytes list" where
  "resend_rounds ops enc st cursor [] = []"
| "resend_rounds ops enc st cursor (buf # bufs) =
    (let (sent, _, cursor') = resend_held_tombstone_acks ops enc st cursor buf in sent # resend_rounds ops enc st cursor' bufs)"

lemma resend_rounds_length [simp]: "length (resend_rounds ops enc st cursor bufs) = length bufs"
  by (induction bufs arbitrary: cursor) (simp_all add: Let_def split: prod.split)

lemma acks_of_member: "k \<in> set ks \<Longrightarrow> map_of m k = Some e \<Longrightarrow> en_is_tombstone ops e \<Longrightarrow>
    enc (TombstoneAck k (en_version ops e)) \<in> set (acks_of ops enc m ks)"
  by (auto simp: acks_of_def resent_ack_def intro!: bexI [of _ k])

lemma acked_within:
  fixes st :: "('k::linorder, 'e, 's, 'p, 'c) Store"
  assumes tomb: "map_of (st_map st) k = Some e" "en_is_tombstone ops e" and dist: "distinct (live_tombstones st)"
  defines "ks \<equiv> sort (live_tombstones st)"
  shows "d < length ks \<Longrightarrow> rotate (resend_start cursor ks) ks ! d = k \<Longrightarrow> d < length bufs \<Longrightarrow>
    \<exists>i \<le> d. \<exists>acks. resend_rounds ops enc st cursor bufs ! i = bufs ! i @ concat acks \<and> enc (TombstoneAck k (en_version ops e)) \<in> set acks"
proof (induction d arbitrary: cursor bufs rule: less_induct)
  case (less d)
  let ?s = "resend_start cursor ks" and ?n = "length ks"
  let ?r = "rotate ?s ks"
  have ks: "sorted ks" "distinct ks"
    using dist by (simp_all add: ks_def)
  have "live_tombstones st \<noteq> []"
    using less.prems(1) by (auto simp: ks_def)
  then obtain j where j: "0 < j" "j \<le> ?n" and
    sent: "\<And>buf. buf = hd bufs \<Longrightarrow> resend_held_tombstone_acks ops enc st cursor buf =
      (buf @ concat (acks_of ops enc (st_map st) (take j ?r)), length (acks_of ops enc (st_map st) (take j ?r)), if j = ?n then None else Some (?r ! j))"
    using resend_round [where st = st and cursor = cursor and ops = ops and enc = enc and buf = "hd bufs"] dist unfolding ks_def by metis
  obtain buf rest where bufs: "bufs = buf # rest"
    using less.prems(3) by (cases bufs) auto
  show ?case
  proof (cases "d < j")
    case True
    then have "k \<in> set (take j ?r)"
      using less.prems j by (auto simp: in_set_conv_nth)
    then show ?thesis
      using acks_of_member [OF _ tomb] sent [of buf] bufs by (intro exI [of _ 0]) auto
  next
    case False
    let ?s' = "(?s + j) mod ?n"
    have jn: "j < ?n"
      using False less.prems(1) by simp
    have "?s' < ?n"
      using jn by (intro mod_less_divisor) linarith
    moreover have "?r ! j = ks ! ?s'"
      using jn by (simp add: nth_rotate)
    ultimately have start: "resend_start (Some (?r ! j)) ks = ?s'"
      using search_index_nth [OF ks] by (simp add: resend_start_def)
    have "rotate ?s' ks ! (d - j) = ks ! ((?s' + (d - j)) mod ?n)"
      using less.prems(1) by (simp add: nth_rotate)
    also have "(?s' + (d - j)) mod ?n = (?s + d) mod ?n"
      using False mod_add_left_eq [of "?s + j" ?n "d - j"] by simp
    also have "ks ! ((?s + d) mod ?n) = k"
      using less.prems by (simp add: nth_rotate)
    finally have next_d: "rotate ?s' ks ! (d - j) = k" .
    have "d - j < d" "d - j < ?n" "d - j < length rest"
      using False j less.prems bufs by auto
    then obtain i acks where "i \<le> d - j"
      "resend_rounds ops enc st (Some (?r ! j)) rest ! i = rest ! i @ concat acks" "enc (TombstoneAck k (en_version ops e)) \<in> set acks"
      using less.IH [of "d - j" "Some (?r ! j)" rest] start next_d by auto
    then show ?thesis
      using sent [of buf] bufs jn False j by (intro exI [of _ "Suc i"]) auto
  qed
qed

definition demo_ack :: "(unit, nat, nat \<times> nat option, nat option) Message \<Rightarrow> bytes" where
  "demo_ack msg = (case msg of TombstoneAck k v \<Rightarrow> replicate 5000 (of_nat k) | _ \<Rightarrow> [])"

definition demo_held :: "(nat, nat \<times> nat option, nat option, IpAddr, nat) Store" where
  "demo_held = (store_new 0 0 0)\<lparr>st_map := [(2, (7, None)), (3, (8, None)), (5, (9, None))], live_tombstones := [5, 2, 3]\<rparr>"

lemma demo_held_facts:
  "live_tombstones demo_held = [5, 2, 3]" "map_of (st_map demo_held) 5 = Some (9, None)" "en_is_tombstone demo_entry (9, None)"
  "en_version demo_entry (9, None) = 9"
  by (simp_all add: demo_held_def demo_entry_def)

text \<open>C22: every held tombstone is acknowledged again: over an unchanged store with \<open>n\<close> held tombstones, the datagrams
  of any \<open>n\<close> successive rounds, wherever the cursor stands and whatever each datagram already holds, contain the
  acknowledgement of each of them with its current version, even though each round stops at its byte budget.\<close>

theorem tombstone_acks_resent:
  assumes "k \<in> set (live_tombstones st)" "map_of (st_map st) k = Some e" "en_is_tombstone ops e"
    "distinct (live_tombstones st)" "length (live_tombstones st) \<le> length bufs"
  shows "\<exists>i < length (live_tombstones st). \<exists>acks. resend_rounds ops enc st cursor bufs ! i = bufs ! i @ concat acks \<and>
    enc (TombstoneAck k (en_version ops e)) \<in> set acks"
proof -
  let ?ks = "sort (live_tombstones st)"
  have "k \<in> set (rotate (resend_start cursor ?ks) ?ks)"
    using assms(1) by simp
  then obtain d where "d < length ?ks" "rotate (resend_start cursor ?ks) ?ks ! d = k"
    by (metis in_set_conv_nth length_rotate)
  then show ?thesis
    using acked_within [OF assms(2,3,4), where d = d and cursor = cursor and bufs = bufs and enc = enc] assms(5) by (auto intro: le_less_trans)
qed

theorem tombstone_acks_resent_witness:
  "\<exists>i < 3. \<exists>acks. resend_rounds demo_entry demo_ack demo_held (Some 4) [[0], [0], [0]] ! i = [[0], [0], [0]] ! i @ concat acks \<and>
    demo_ack (TombstoneAck 5 9) \<in> set acks"
  using tombstone_acks_resent [of 5 demo_held "(9, None)" demo_entry "[[0], [0], [0]]" demo_ack "Some 4"]
  by (simp add: demo_held_facts numeral_3_eq_3 del: resend_rounds.simps)

section \<open>The round: lemmas\<close>

lemma note_pending_repair_lookup:
  "map_of (note_pending_repair p now i m) a =
    (if a = p \<and> map_of m a = None then Some \<lparr>deadline = now + i, attempts = 0\<rparr> else map_of m a)"
  by (auto simp: note_pending_repair_def update_conv' split: option.split)

definition send_all :: "'p::linorder SendEnv \<Rightarrow> SendPorts \<Rightarrow> ('a \<Rightarrow> 'p) \<Rightarrow> bytes \<Rightarrow> 'a list \<Rightarrow> 'p SendState \<Rightarrow> 'p SendState" where
  "send_all env ports sock buf ps s = foldl (\<lambda>s p. snd (send_to_retry env ports (sock p) buf s)) s ps"

lemma contact_all:
  "\<exists>m. foldl (contact env ports sock buf sent_at) (snd_st, st) ps = (send_all env ports sock buf ps snd_st, st\<lparr>pending_repairs := m\<rparr>) \<and>
    (\<forall>a. map_of m a = (if a \<in> set ps \<and> map_of (pending_repairs st) a = None
       then Some \<lparr>deadline = sent_at a + repair_interval st, attempts = 0\<rparr> else map_of (pending_repairs st) a))"
proof (induction ps arbitrary: snd_st st)
  case Nil
  show ?case
    by (intro exI [of _ "pending_repairs st"]) (simp add: send_all_def)
next
  case (Cons p ps)
  let ?st = "st\<lparr>pending_repairs := note_pending_repair p (sent_at p) (repair_interval st) (pending_repairs st)\<rparr>"
  let ?snd = "snd (send_to_retry env ports (sock p) buf snd_st)"
  have step: "contact env ports sock buf sent_at (snd_st, st) p = (?snd, ?st)"
    by (simp add: contact_def)
  obtain m where ih: "foldl (contact env ports sock buf sent_at) (?snd, ?st) ps = (send_all env ports sock buf ps ?snd, ?st\<lparr>pending_repairs := m\<rparr>)"
    "\<And>a. map_of m a = (if a \<in> set ps \<and> map_of (pending_repairs ?st) a = None
       then Some \<lparr>deadline = sent_at a + repair_interval ?st, attempts = 0\<rparr> else map_of (pending_repairs ?st) a)"
    using Cons.IH [of ?snd ?st] by blast
  have "map_of m a = (if a \<in> set (p # ps) \<and> map_of (pending_repairs st) a = None
       then Some \<lparr>deadline = sent_at a + repair_interval st, attempts = 0\<rparr> else map_of (pending_repairs st) a)" for a
    using ih(2) [of a] by (simp add: note_pending_repair_lookup)
  then show ?case
    using ih(1) step by (intro exI [of _ m]) (simp add: send_all_def)
qed

text \<open>Whom the round contacts, and what it announces before the acknowledgements.\<close>

definition contacted :: "('net, 'e, 't, 'v, 's, 'agg, 'k::linorder, 'p::linorder) RoundEnv \<Rightarrow> IpAddr list option \<Rightarrow> Readings \<Rightarrow> instant \<Rightarrow>
    ('net, 'k, 'e, 's, 'c, 'p) RoundNode \<Rightarrow> IpAddr list" where
  "contacted env discovered rd now nd =
    filter (\<lambda>a. \<not> still_receiving_bulk (map_of (receiving_bulk_from (nd_store nd)) a) now (repair_interval (nd_store nd)))
      (round_targets (rn_nets env) (rn_shuffle env) (nd_topology nd) (case discovered of None \<Rightarrow> [] | Some ps \<Rightarrow> ps)
        (fst (get_peers rd (nd_store nd))))"

definition round_summary :: "('net, 'e, 't, 'v, 's, 'agg, 'k::linorder, 'p::linorder) RoundEnv \<Rightarrow> SendPorts \<Rightarrow> ('net, 'k, 'e, 's, 'c, 'p) RoundNode \<Rightarrow> bytes" where
  "round_summary env ports nd = append_capability (rn_enc env) (sp_framing ports)
    (concat (map (\<lambda>seg. rn_enc env (EntryFingerprint seg)) (rn_initial_ranges env (st_map (nd_store nd)))))"

lemma get_peers_frame:
  "receiving_bulk_from (snd (get_peers rd st)) = receiving_bulk_from st" "repair_interval (snd (get_peers rd st)) = repair_interval st"
  "pending_repairs (snd (get_peers rd st)) = pending_repairs st"
  "resend_held_tombstone_acks ops enc (snd (get_peers rd st)) = resend_held_tombstone_acks ops enc st"
  by (simp_all add: get_peers_def Let_def resend_held_tombstone_acks_def fun_eq_iff)

lemma get_peers_distinct: "keys_distinct (st_peers st) \<Longrightarrow> distinct (fst (get_peers rd st))"
  by (simp add: get_peers_def Let_def distinct_map_filter)

lemma start_reconciliation_state:
  assumes "nd' = start_reconciliation env ports discovered rd now sent_at nd"
  shows "nd_topology nd' = (nd_topology nd)\<lparr>tp_round := tp_round (nd_topology nd) + 1, tp_last_round_at := Some (rd_mono rd)\<rparr> \<and>
    nd_send nd' = send_all (rn_send env) ports (rn_sock env)
      (fst (resend_held_tombstone_acks (rn_entry env) (rn_enc env) (nd_store nd) (nd_cursor nd) (round_summary env ports nd)))
      (contacted env discovered rd now nd) (nd_send nd) \<and>
    nd_cursor nd' = snd (snd (resend_held_tombstone_acks (rn_entry env) (rn_enc env) (nd_store nd) (nd_cursor nd) (round_summary env ports nd))) \<and>
    map_of (pending_repairs (nd_store nd')) a =
      (if a \<in> set (contacted env discovered rd now nd) \<and> map_of (pending_repairs (nd_store nd)) a = None
       then Some \<lparr>deadline = sent_at a + repair_interval (nd_store nd), attempts = 0\<rparr> else map_of (pending_repairs (nd_store nd)) a)"
proof -
  obtain known st1 where peers: "get_peers rd (nd_store nd) = (known, st1)"
    by fastforce
  then have frame: "receiving_bulk_from st1 = receiving_bulk_from (nd_store nd)" "repair_interval st1 = repair_interval (nd_store nd)"
    "pending_repairs st1 = pending_repairs (nd_store nd)"
    "resend_held_tombstone_acks (rn_entry env) (rn_enc env) st1 = resend_held_tombstone_acks (rn_entry env) (rn_enc env) (nd_store nd)"
    using get_peers_frame [where rd = rd and st = "nd_store nd"] by simp_all
  obtain buf1 n cursor1 where acks:
    "resend_held_tombstone_acks (rn_entry env) (rn_enc env) (nd_store nd) (nd_cursor nd) (round_summary env ports nd) = (buf1, n, cursor1)"
    by (metis prod_cases3)
  let ?sent = "send_all (rn_send env) ports (rn_sock env) buf1 (contacted env discovered rd now nd) (nd_send nd)"
  obtain m where sends: "foldl (contact (rn_send env) ports (rn_sock env) buf1 sent_at) (nd_send nd, st1) (contacted env discovered rd now nd) =
      (?sent, st1\<lparr>pending_repairs := m\<rparr>)"
    "map_of m a = (if a \<in> set (contacted env discovered rd now nd) \<and> map_of (pending_repairs st1) a = None
       then Some \<lparr>deadline = sent_at a + repair_interval st1, attempts = 0\<rparr> else map_of (pending_repairs st1) a)"
    using contact_all [of "rn_send env" ports "rn_sock env" buf1 sent_at "nd_send nd" st1 "contacted env discovered rd now nd"] by blast
  have "nd' = nd\<lparr>nd_topology := (nd_topology nd)\<lparr>tp_round := tp_round (nd_topology nd) + 1, tp_last_round_at := Some (rd_mono rd)\<rparr>,
      nd_store := st1\<lparr>pending_repairs := m\<rparr>, nd_cursor := cursor1, nd_send := ?sent\<rparr>"
    using peers acks sends(1) frame
    unfolding assms start_reconciliation_def Let_def contacted_def round_summary_def by simp
  then show ?thesis
    using sends(2) frame acks by simp
qed

section \<open>A small instance\<close>

fun demo_net_parts :: "NetParts \<Rightarrow> NetParts" where
  "demo_net_parts (NetV4 a hostmask) = NetV4 (a AND NOT hostmask) hostmask"
| "demo_net_parts (NetV6 a hostmask) = NetV6 (a AND NOT hostmask) hostmask"

fun demo_new :: "IpAddr \<Rightarrow> nat \<Rightarrow> NetParts option" where
  "demo_new (V4 a) len = (if len \<le> 32 then Some (NetV4 a (mask (32 - len))) else None)"
| "demo_new (V6 a) len = (if len \<le> 128 then Some (NetV6 a (mask (128 - len))) else None)"

definition demo_net_ops :: "NetParts NetOps" where
  "demo_net_ops = \<lparr>nt_parts = demo_net_parts, nt_contains = (\<lambda>n. in_parts (demo_net_parts n)), nt_new = demo_new\<rparr>"

lemma demo_net_parts_ok: "net_parts_ok (demo_net_parts n)"
  by (cases n) (simp_all add: and.assoc)

lemma demo_net_ops_lawful: "net_ops_lawful demo_net_ops"
proof -
  have "\<exists>n. demo_new a (host_prefix a) = Some n \<and> in_parts (demo_net_parts n) a" for a
    by (cases a) simp_all
  then show ?thesis
    by (simp add: net_ops_lawful_def demo_net_ops_def demo_net_parts_ok)
qed

definition demo_round :: "(NetParts, nat \<times> nat option, nat, nat, nat option, unit, nat, nat) RoundEnv" where
  "demo_round = \<lparr>rn_nets = demo_net_ops, rn_shuffle = (\<lambda>_ xs. rev xs), rn_entry = demo_entry, rn_initial_ranges = (\<lambda>_. [()]),
    rn_enc = demo_ack, rn_send = demo_env, rn_sock = (\<lambda>a. case a of V4 w \<Rightarrow> unat w | V6 w \<Rightarrow> unat w)\<rparr>"

definition demo_node :: "(NetParts, nat, nat \<times> nat option, nat option, nat, nat) RoundNode" where
  "demo_node = \<lparr>nd_topology = topology_new demo_net_ops [NetV4 0 255] (NetV4 0 0) (V4 1) 3 2 100,
    nd_store = demo_held\<lparr>st_peers := [(V4 5, 2)], repair_interval := 30\<rparr>, nd_cursor = None, nd_send = demo_send\<rparr>"

lemma demo_node_facts:
  "keys_distinct (st_peers (nd_store demo_node))" "fst (get_peers demo_readings (nd_store demo_node)) = [V4 5]"
  "nt_contains (rn_nets demo_round) (tp_local_net (nd_topology demo_node)) (V4 5)"
  "repair_interval (nd_store demo_node) = 30" "receiving_bulk_from (nd_store demo_node) = []" "pending_repairs (nd_store demo_node) = []"
  by (simp_all add: demo_node_def demo_round_def demo_readings_def get_peers_def Let_def PEER_EXPIRATION_def from_secs_def topology_new_def
      derive_local_net_def net_of_def demo_net_ops_def demo_held_def store_new_def)

text \<open>The topology stays consistent. Whatever networks are declared at construction, at most
  eight, and whatever runtime changes follow, at most eight networks are declared, the local network
  contains the listen address and is a declared one unless none contains that address, and each round
  of random probing yields one address per declared network, inside it.\<close>

theorem topology_consistent:
  assumes "net_ops_lawful ops" "length declared \<le> MAX_NETS"
    "t = foldl (change_topology ops) (topology_new ops declared loopback addr interval fanout reconcile) changes"
  shows "length (tp_nets t) \<le> MAX_NETS \<and> nt_contains ops (tp_local_net t) addr \<and>
    (tp_local_net t \<in> set (tp_nets t) \<or> (\<forall>n \<in> set (tp_nets t). \<not> nt_contains ops n addr)) \<and>
    list_all2 (nt_contains ops) (tp_nets t) (probe_targets ops rng (tp_nets t))"
proof -
  have "topology_ok ops t" "tp_listen_addr t = addr"
    using changes_ok [OF topology_new_ok [OF assms(2)]] by (simp_all add: assms(3) topology_new_def Let_def)
  then have t: "length (tp_nets t) \<le> MAX_NETS" "tp_local_net t = derive_local_net ops (tp_nets t) addr"
    by (simp_all add: topology_ok_def)
  moreover have "list_all2 (nt_contains ops) (tp_nets t) (probe_targets ops rng (tp_nets t))"
    using gen_ip_contained [OF assms(1)] by (simp add: probe_targets_def list_all2_conv_all_nth)
  ultimately show ?thesis
    using derive_local_net_contains [OF assms(1)] net_of_cases [of "tp_nets t" ops addr] by (auto simp: derive_local_net_def)
qed

theorem topology_consistent_witness:
  "nt_contains demo_net_ops
    (tp_local_net (foldl (change_topology demo_net_ops) (topology_new demo_net_ops [NetV4 5 0] (NetV4 9 1) (V4 7) 3 2 100)
      [AddNet (NetV4 6 1), RemoveNet (NetV4 5 0)])) (V4 7)"
  using topology_consistent [OF demo_net_ops_lawful _ refl, where declared = "[NetV4 5 0]" and loopback = "NetV4 9 1" and addr = "V4 7" and
      interval = 3 and fanout = 2 and reconcile = 100 and changes = "[AddNet (NetV4 6 1), RemoveNet (NetV4 5 0)]"]
  by (simp add: MAX_NETS_def del: foldl.simps)

text \<open>C23: a round contacts exactly whom it should. It sends one datagram, the summaries of the map
  followed by acknowledgements of held tombstones, once to each of: the addresses discovery proposes, every known peer
  of the local network, and, on cross-network rounds only, from every group of the other known peers (by declared network,
  or none) as many as the fan-out allows and the group has; peers that are still sending bulk data are left
  out. It arms a repair timer for each contacted peer that has none and leaves every other timer
  as it is.\<close>

theorem round_contacts_exact:
  assumes "\<forall>b xs. mset (rn_shuffle env b xs) = mset xs" "keys_distinct (st_peers (nd_store nd))"
    "nd' = start_reconciliation env ports discovered rd now sent_at nd" "t = nd_topology nd"
    "known = set (fst (get_peers rd (nd_store nd)))" "near = nt_contains (rn_nets env) (tp_local_net t)"
    "bucket = bucket_of (rn_nets env) (filter (\<lambda>n. n \<noteq> tp_local_net t) (tp_nets t))"
    "busy = (\<lambda>a. still_receiving_bulk (map_of (receiving_bulk_from (nd_store nd)) a) now (repair_interval (nd_store nd)))"
  shows "\<exists>chosen ps. chosen \<subseteq> {a \<in> known. \<not> near a} \<and>
    (if tp_round t mod max (tp_remote_interval t) 1 = 0
     then \<forall>b. card {a \<in> chosen. bucket a = b} = min (tp_remote_fanout t) (card {a \<in> known. \<not> near a \<and> bucket a = b}) else chosen = {}) \<and>
    distinct ps \<and> set ps = {a \<in> set (case discovered of None \<Rightarrow> [] | Some l \<Rightarrow> l) \<union> {a \<in> known. near a} \<union> chosen. \<not> busy a} \<and>
    nd_send nd' = send_all (rn_send env) ports (rn_sock env)
      (fst (resend_held_tombstone_acks (rn_entry env) (rn_enc env) (nd_store nd) (nd_cursor nd) (round_summary env ports nd))) ps (nd_send nd) \<and>
    (\<forall>a. map_of (pending_repairs (nd_store nd')) a =
      (if a \<in> set ps \<and> map_of (pending_repairs (nd_store nd)) a = None
       then Some \<lparr>deadline = sent_at a + repair_interval (nd_store nd), attempts = 0\<rparr> else map_of (pending_repairs (nd_store nd)) a)) \<and>
    tp_round (nd_topology nd') = tp_round t + 1"
proof (intro exI conjI)
  let ?known = "fst (get_peers rd (nd_store nd))" and ?ps = "contacted env discovered rd now nd"
  let ?chosen = "if do_remote t then set (remote_targets (rn_nets env) (rn_shuffle env) t ?known) else {}"
  show "?chosen \<subseteq> {a \<in> known. \<not> near a}"
    using remote_targets_subset [where rn = "rn_shuffle env" and ops = "rn_nets env" and t = t and known = ?known] assms(1,5,6) by auto
  show "if tp_round t mod max (tp_remote_interval t) 1 = 0
     then \<forall>b. card {a \<in> ?chosen. bucket a = b} = min (tp_remote_fanout t) (card {a \<in> known. \<not> near a \<and> bucket a = b}) else ?chosen = {}"
    using remote_targets_group [where rn = "rn_shuffle env" and ops = "rn_nets env" and t = t and known = ?known]
      get_peers_distinct [OF assms(2)] assms(1,5,6,7) by (simp add: do_remote_def)
  show "distinct ?ps"
    by (simp add: contacted_def round_targets_def)
  show "set ?ps = {a \<in> set (case discovered of None \<Rightarrow> [] | Some l \<Rightarrow> l) \<union> {a \<in> known. near a} \<union> ?chosen. \<not> busy a}"
    using assms(4,5,6,8) by (auto simp: contacted_def round_targets_def)
qed (use start_reconciliation_state [OF assms(3)] assms(4) in auto)

theorem round_contacts_exact_witness:
  "map_of (pending_repairs (nd_store (start_reconciliation demo_round demo_ports None demo_readings 8 (\<lambda>_. 9) demo_node))) (V4 5) =
    Some \<lparr>deadline = 39, attempts = 0\<rparr>"
proof -
  have "\<forall>b xs. mset (rn_shuffle demo_round b xs) = mset xs"
    by (simp add: demo_round_def)
  from round_contacts_exact [OF this demo_node_facts(1) refl refl refl refl refl refl,
      where ports = demo_ports and discovered = None and rd = demo_readings and now = 8 and sent_at = "\<lambda>_. 9"]
  show ?thesis
    by (auto simp: demo_node_facts still_receiving_bulk_def)
qed

end
