(* ===== verification/SnapshotFile.thy ===== *)
theory SnapshotFile
  imports Journal
begin

text \<open>
  The file backend (\<open>src/snapshot.rs\<close>, \<open>src/snapshot/incremental.rs\<close> and its \<open>storage.rs\<close>): a base segment
  and an ordered chain of delta segments behind one atomically replaced manifest. Every file
  operation can fail, before or after its effect is visible; the faults, the serializer and the
  checksum are parameters. The lemmas show that what a load returns is the base with the committed
  deltas replayed, and that no fault pattern damages it.
\<close>

section \<open>The file system\<close>

datatype io_error = InvalidData | IoOther

text \<open>A write that fails before its rename leaves the old file; one that fails in the final directory
  sync reports an error although the new file is in place.\<close>

datatype fault = NoFault | FailBefore | FailAfter

text \<open>A segment file is named by its kind and generation.\<close>

datatype seg_kind = BaseKind | DeltaKind

record Disk =
  dk_manifest :: "bytes option"
  dk_segments :: "(seg_kind \<times> nat, bytes) kv"
  dk_single :: "bytes option"
  dk_calls :: nat

record Manifest =
  base_generation :: nat
  base_bytes :: nat
  current_generation :: nat
  delta_bytes :: nat

record ('k, 'e, 'p) BaseSegment =
  bs_generation :: nat
  bs_state :: "('k, 'e, 'p) PersistedState"

record ('k, 'e, 'p) DeltaSegment =
  from_generation :: nat
  to_generation :: nat
  ds_delta :: "('k, 'e, 'p) PersistenceDelta"

text \<open>The serializer of each object, the checksum and the fault of each file operation.\<close>

record ('k, 'e, 'p) SnapEnv =
  ser_manifest :: "Manifest \<Rightarrow> bytes option"
  de_manifest :: "bytes \<Rightarrow> Manifest option"
  ser_base :: "('k, 'e, 'p) BaseSegment \<Rightarrow> bytes option"
  de_base :: "bytes \<Rightarrow> ('k, 'e, 'p) BaseSegment option"
  ser_delta :: "('k, 'e, 'p) DeltaSegment \<Rightarrow> bytes option"
  de_delta :: "bytes \<Rightarrow> ('k, 'e, 'p) DeltaSegment option"
  de_state :: "bytes \<Rightarrow> ('k, 'e, 'p) PersistedState option"
  sn_hash :: "bytes \<Rightarrow> 32 arr"
  sn_fault :: "nat \<Rightarrow> fault"

type_synonym 'a io = "Disk \<Rightarrow> (io_error + 'a) \<times> Disk"

definition io_bind :: "'a io \<Rightarrow> ('a \<Rightarrow> 'b io) \<Rightarrow> 'b io" where
  "io_bind m f d = (case m d of (Inl e, d') \<Rightarrow> (Inl e, d') | (Inr x, d') \<Rightarrow> f x d')"

definition io_return :: "'a \<Rightarrow> 'a io" where
  "io_return x d = (Inr x, d)"

definition io_lift :: "io_error + 'a \<Rightarrow> 'a io" where
  "io_lift r d = (r, d)"

text \<open>Every operation counts one call; the fault of that call decides its outcome.\<close>

definition tick :: "Disk \<Rightarrow> Disk" where
  "tick d = d\<lparr>dk_calls := dk_calls d + 1\<rparr>"

definition fs_check :: "('k, 'e, 'p) SnapEnv \<Rightarrow> unit io" where
  "fs_check env d = (if sn_fault env (dk_calls d) = NoFault then Inr () else Inl IoOther, tick d)"

definition fs_read :: "('k, 'e, 'p) SnapEnv \<Rightarrow> (Disk \<Rightarrow> bytes option) \<Rightarrow> bytes option io" where
  "fs_read env file d = (if sn_fault env (dk_calls d) = NoFault then Inr (file d) else Inl IoOther, tick d)"

definition write_atomic :: "('k, 'e, 'p) SnapEnv \<Rightarrow> (bytes \<Rightarrow> Disk \<Rightarrow> Disk) \<Rightarrow> bytes \<Rightarrow> unit io" where
  "write_atomic env put bytes d =
    (case sn_fault env (dk_calls d) of
       NoFault \<Rightarrow> (Inr (), tick (put bytes d))
     | FailBefore \<Rightarrow> (Inl IoOther, tick d)
     | FailAfter \<Rightarrow> (Inl IoOther, tick (put bytes d)))"

definition put_manifest :: "bytes \<Rightarrow> Disk \<Rightarrow> Disk" where
  "put_manifest b d = d\<lparr>dk_manifest := Some b\<rparr>"

definition put_segment :: "seg_kind \<Rightarrow> nat \<Rightarrow> bytes \<Rightarrow> Disk \<Rightarrow> Disk" where
  "put_segment kind generation b d = d\<lparr>dk_segments := AList.update (kind, generation) b (dk_segments d)\<rparr>"

section \<open>Objects\<close>

definition FORMAT_VERSION :: nat where "FORMAT_VERSION = 1"
definition PEER_ID_FORMAT_VERSION :: nat where "PEER_ID_FORMAT_VERSION = 2"
definition HEADER_LEN :: nat where "HEADER_LEN = 8"
definition OBJECT_CHECKSUM_LEN :: nat where "OBJECT_CHECKSUM_LEN = 32"
definition BASE_MAGIC :: bytes where "BASE_MAGIC = [82, 67, 78, 66]"
definition DELTA_MAGIC :: bytes where "DELTA_MAGIC = [82, 67, 78, 68]"
definition MANIFEST_MAGIC :: bytes where "MANIFEST_MAGIC = [82, 67, 78, 77]"
definition MAX_COMMITTED_DELTAS :: nat where "MAX_COMMITTED_DELTAS = 512"

definition SNAPSHOT_MAGIC :: bytes where "SNAPSHOT_MAGIC = [82, 67, 78, 76]"
definition SNAPSHOT_FORMAT_VERSION :: nat where "SNAPSHOT_FORMAT_VERSION = 1"
definition SNAPSHOT_HEADER_LEN :: nat where "SNAPSHOT_HEADER_LEN = 8"

definition encode_version :: "(bytes \<Rightarrow> 32 arr) \<Rightarrow> bytes \<Rightarrow> bytes option \<Rightarrow> nat \<Rightarrow> io_error + bytes" where
  "encode_version hash magic serialized format_version =
    (case serialized of
       None \<Rightarrow> Inl InvalidData
     | Some body \<Rightarrow> Inr (magic @ le_bytes 4 format_version @ body @ arr_bytes (hash body)))"

definition decode_version :: "(bytes \<Rightarrow> 32 arr) \<Rightarrow> (bytes \<Rightarrow> 'a option) \<Rightarrow> bytes \<Rightarrow> bytes \<Rightarrow> nat \<Rightarrow> io_error + 'a" where
  "decode_version hash de bs expected_magic expected_version =
    (if length bs < HEADER_LEN + OBJECT_CHECKSUM_LEN then Inl InvalidData
     else if take 4 bs \<noteq> expected_magic then Inl InvalidData
     else if le_val (take 4 (drop 4 bs)) \<noteq> expected_version then Inl InvalidData
     else let checksum_offset = length bs - OBJECT_CHECKSUM_LEN;
              body = drop HEADER_LEN (take checksum_offset bs);
              expected = drop checksum_offset bs
          in if arr_bytes (hash body) \<noteq> expected then Inl InvalidData
             else case de body of None \<Rightarrow> Inl InvalidData | Some x \<Rightarrow> Inr x)"

definition decode_snapshot_for :: "(bytes \<Rightarrow> 'a option) \<Rightarrow> bytes \<Rightarrow> nat \<Rightarrow> io_error + 'a" where
  "decode_snapshot_for de bs expected_version =
    (if length bs < SNAPSHOT_HEADER_LEN then Inl InvalidData
     else if take 4 bs \<noteq> SNAPSHOT_MAGIC then Inl InvalidData
     else if le_val (take 4 (drop 4 bs)) \<noteq> expected_version then Inl InvalidData
     else case de (drop SNAPSHOT_HEADER_LEN bs) of None \<Rightarrow> Inl InvalidData | Some x \<Rightarrow> Inr x)"

definition decode_snapshot :: "(bytes \<Rightarrow> 'a option) \<Rightarrow> bytes \<Rightarrow> io_error + 'a" where
  "decode_snapshot de bs = decode_snapshot_for de bs SNAPSHOT_FORMAT_VERSION"

section \<open>Manifest\<close>

definition delta_count :: "Manifest \<Rightarrow> nat" where
  "delta_count m = current_generation m - base_generation m"

definition segment_count :: "Manifest \<Rightarrow> nat" where
  "segment_count m = sat_add (delta_count m) 1"

definition segment_bytes :: "Manifest \<Rightarrow> nat" where
  "segment_bytes m = sat_add (base_bytes m) (delta_bytes m)"

definition should_materialize :: "Manifest \<Rightarrow> nat \<Rightarrow> bool" where
  "should_materialize m candidate_delta_bytes \<longleftrightarrow>
    MAX_COMMITTED_DELTAS \<le> delta_count m \<or> base_bytes m \<le> sat_add (delta_bytes m) candidate_delta_bytes"

definition validate_manifest :: "Manifest \<Rightarrow> io_error + unit" where
  "validate_manifest m =
    (if base_generation m = 0 \<or> current_generation m < base_generation m then Inl InvalidData
     else if base_bytes m = 0 then Inl InvalidData
     else if base_generation m = current_generation m \<and> delta_bytes m \<noteq> 0 then Inl InvalidData
     else if base_generation m < current_generation m \<and> delta_bytes m = 0 then Inl InvalidData
     else Inr ())"

definition decode_manifest :: "('k, 'e, 'p) SnapEnv \<Rightarrow> nat \<Rightarrow> bytes \<Rightarrow> io_error + Manifest" where
  "decode_manifest env format_version bs =
    (case decode_version (sn_hash env) (de_manifest env) bs MANIFEST_MAGIC format_version of
       Inl e \<Rightarrow> Inl e
     | Inr m \<Rightarrow> (case validate_manifest m of Inl e \<Rightarrow> Inl e | Inr _ \<Rightarrow> Inr m))"

definition read_manifest_version :: "('k, 'e, 'p) SnapEnv \<Rightarrow> nat \<Rightarrow> Manifest option io" where
  "read_manifest_version env format_version =
    io_bind (fs_read env dk_manifest) (\<lambda>file.
      case file of
        None \<Rightarrow> io_return None
      | Some bs \<Rightarrow> io_bind (io_lift (decode_manifest env format_version bs)) (\<lambda>m. io_return (Some m)))"

definition read_segment_bytes :: "('k, 'e, 'p) SnapEnv \<Rightarrow> seg_kind \<Rightarrow> nat \<Rightarrow> nat option \<Rightarrow> bytes io" where
  "read_segment_bytes env kind generation expected_bytes =
    io_bind (fs_read env (\<lambda>d. map_of (dk_segments d) (kind, generation))) (\<lambda>file.
      io_lift (case file of
        None \<Rightarrow> Inl InvalidData
      | Some bs \<Rightarrow>
         (case expected_bytes of
            None \<Rightarrow> Inr bs
          | Some expected \<Rightarrow> if length bs \<noteq> expected then Inl InvalidData else Inr bs)))"

definition write_encoded_segment :: "('k, 'e, 'p) SnapEnv \<Rightarrow> seg_kind \<Rightarrow> nat \<Rightarrow> bytes \<Rightarrow> nat io" where
  "write_encoded_segment env kind generation bytes =
    io_bind (write_atomic env (put_segment kind generation) bytes) (\<lambda>_. io_return (length bytes))"

definition write_segment_version ::
  "('k, 'e, 'p) SnapEnv \<Rightarrow> bytes \<Rightarrow> seg_kind \<Rightarrow> nat \<Rightarrow> bytes option \<Rightarrow> nat \<Rightarrow> nat io" where
  "write_segment_version env magic kind generation serialized format_version =
    io_bind (io_lift (encode_version (sn_hash env) magic serialized format_version)) (\<lambda>bytes.
      write_encoded_segment env kind generation bytes)"

definition publish_manifest_version :: "('k, 'e, 'p) SnapEnv \<Rightarrow> Manifest \<Rightarrow> nat \<Rightarrow> unit io" where
  "publish_manifest_version env m format_version =
    io_bind (io_lift (validate_manifest m)) (\<lambda>_.
      io_bind (io_lift (encode_version (sn_hash env) MANIFEST_MAGIC (ser_manifest env m) format_version)) (\<lambda>bytes.
        write_atomic env put_manifest bytes))"

text \<open>Old segments are removed one by one; a removal that fails leaves its file behind.\<close>

fun cleanup_segments :: "('k, 'e, 'p) SnapEnv \<Rightarrow> nat \<Rightarrow> (seg_kind \<times> nat) list \<Rightarrow> Disk \<Rightarrow> Disk" where
  "cleanup_segments env keep [] d = d"
| "cleanup_segments env keep (name # names) d =
    (if name = (BaseKind, keep) then cleanup_segments env keep names d
     else cleanup_segments env keep names
       (tick (if sn_fault env (dk_calls d) = FailBefore then d else d\<lparr>dk_segments := AList.delete name (dk_segments d)\<rparr>)))"

definition cleanup_after_full_materialization :: "('k, 'e, 'p) SnapEnv \<Rightarrow> nat \<Rightarrow> Disk \<Rightarrow> Disk" where
  "cleanup_after_full_materialization env keep_base_generation d =
    (let d1 = (if sn_fault env (dk_calls d) = NoFault
               then cleanup_segments env keep_base_generation (map fst (dk_segments d)) (tick d) else tick d)
     in tick (if sn_fault env (dk_calls d1) = FailBefore then d1 else d1\<lparr>dk_single := None\<rparr>))"

section \<open>Load and save\<close>

fun load_deltas ::
  "('k, 'e, 'p) SnapEnv \<Rightarrow> nat \<Rightarrow> nat list \<Rightarrow> nat \<Rightarrow> ('k, 'e) kv \<times> 'p list \<times> ('k, 'p) acks \<Rightarrow>
    (nat \<times> (('k, 'e) kv \<times> 'p list \<times> ('k, 'p) acks)) io" where
  "load_deltas env format_version [] observed s = io_return (observed, s)"
| "load_deltas env format_version (generation # gens) observed s =
    io_bind (read_segment_bytes env DeltaKind generation None) (\<lambda>bytes.
      io_bind (io_lift (decode_version (sn_hash env) (de_delta env) bytes DELTA_MAGIC format_version)) (\<lambda>segment.
        if from_generation segment \<noteq> generation - 1 \<or> to_generation segment \<noteq> generation then io_lift (Inl InvalidData)
        else load_deltas env format_version gens (sat_add observed (length bytes)) (apply_delta s (ds_delta segment))))"

definition collect_entries :: "('k \<times> 'e) list \<Rightarrow> ('k, 'e) kv" where
  "collect_entries es = foldl (\<lambda>m (k, e). AList.update k e m) [] es"

definition load_from :: "('k, 'e, 'p) SnapEnv \<Rightarrow> nat \<Rightarrow> Manifest \<Rightarrow> ('k, 'e, 'p) PersistedState option io" where
  "load_from env format_version m =
    io_bind (read_segment_bytes env BaseKind (base_generation m) (Some (base_bytes m))) (\<lambda>bytes.
      io_bind (io_lift (decode_version (sn_hash env) (de_base env) bytes BASE_MAGIC format_version)) (\<lambda>base.
        if bs_generation base \<noteq> base_generation m then io_lift (Inl InvalidData)
        else if current_generation m = base_generation m then io_return (Some (bs_state base))
        else io_bind (load_deltas env format_version [sat_add (base_generation m) 1..<Suc (current_generation m)] 0
               (collect_entries (ps_entries (bs_state base)), ps_members (bs_state base), ps_tombstone_acks (bs_state base))) (\<lambda>(observed, s).
          if observed \<noteq> delta_bytes m then io_lift (Inl InvalidData)
          else io_return (Some (persisted_new (fst s) (fst (snd s)) (snd (snd s)))))))"

definition load_for :: "('k, 'e, 'p) SnapEnv \<Rightarrow> nat \<Rightarrow> ('k, 'e, 'p) PersistedState option io" where
  "load_for env format_version =
    io_bind (read_manifest_version env format_version) (\<lambda>m.
      case m of None \<Rightarrow> io_return None | Some manifest \<Rightarrow> load_from env format_version manifest)"

definition save_base :: "('k, 'e, 'p) SnapEnv \<Rightarrow> ('k, 'e, 'p) PersistedState \<Rightarrow> nat \<Rightarrow> nat \<Rightarrow> unit io" where
  "save_base env state generation format_version =
    io_bind (fs_check env) (\<lambda>_.
      io_bind (write_segment_version env BASE_MAGIC BaseKind generation
          (ser_base env \<lparr>bs_generation = generation, bs_state = state\<rparr>) format_version) (\<lambda>bytes.
        let m = \<lparr>base_generation = generation, base_bytes = bytes, current_generation = generation, delta_bytes = 0\<rparr>
        in io_bind (publish_manifest_version env m format_version) (\<lambda>_ d.
          (Inr (), cleanup_after_full_materialization env (base_generation m) d))))"

definition save_full_for :: "('k, 'e, 'p) SnapEnv \<Rightarrow> ('k, 'e, 'p) PersistedState \<Rightarrow> nat \<Rightarrow> unit io" where
  "save_full_for env state format_version =
    io_bind (read_manifest_version env format_version) (\<lambda>previous d.
      if format_version \<noteq> FORMAT_VERSION \<and> previous = None \<and> dk_single d \<noteq> None then (Inl InvalidData, d)
      else save_base env state (case previous of None \<Rightarrow> 1 | Some m \<Rightarrow> sat_add (current_generation m) 1) format_version d)"

definition append_delta :: "('k, 'e, 'p) SnapEnv \<Rightarrow> ('k, 'e, 'p) PersistenceDelta \<Rightarrow> nat \<Rightarrow> Manifest \<Rightarrow> bool io" where
  "append_delta env delta format_version m =
    (let from_gen = current_generation m; to_gen = sat_add from_gen 1
     in io_bind (io_lift (encode_version (sn_hash env) DELTA_MAGIC
            (ser_delta env \<lparr>from_generation = from_gen, to_generation = to_gen, ds_delta = delta\<rparr>) format_version)) (\<lambda>encoded.
          if should_materialize m (length encoded) then io_return False
          else io_bind (write_encoded_segment env DeltaKind to_gen encoded) (\<lambda>bytes.
            io_bind (publish_manifest_version env
                (m\<lparr>current_generation := to_gen, delta_bytes := sat_add (delta_bytes m) bytes\<rparr>) format_version) (\<lambda>_.
              io_return True))))"

definition try_save_delta_for :: "('k, 'e, 'p) SnapEnv \<Rightarrow> ('k, 'e, 'p) PersistenceDelta option \<Rightarrow> nat \<Rightarrow> bool io" where
  "try_save_delta_for env delta format_version =
    io_bind (read_manifest_version env format_version) (\<lambda>m d.
      case m of
        None \<Rightarrow> if format_version \<noteq> FORMAT_VERSION \<and> dk_single d \<noteq> None then (Inl InvalidData, d) else (Inr False, d)
      | Some manifest \<Rightarrow>
         (case delta of None \<Rightarrow> (Inr True, d) | Some dl \<Rightarrow> append_delta env dl format_version manifest d))"

text \<open>The two \<open>Persistence\<close> impls, for IP and for signed identities.\<close>

definition file_load :: "('k, 'e, 'p) SnapEnv \<Rightarrow> nat \<Rightarrow> ('k, 'e, 'p) PersistedState option io" where
  "file_load env format_version =
    io_bind (load_for env format_version) (\<lambda>s.
      case s of
        Some state \<Rightarrow> io_return (Some state)
      | None \<Rightarrow>
         io_bind (fs_read env dk_single) (\<lambda>file.
           case file of
             None \<Rightarrow> io_return None
           | Some bs \<Rightarrow> io_bind (io_lift (decode_snapshot_for (de_state env) bs format_version)) (\<lambda>x. io_return (Some x))))"

section \<open>Objects decode to what was encoded\<close>

lemmas object_consts = HEADER_LEN_def OBJECT_CHECKSUM_LEN_def

lemma decode_version_iff:
  assumes "length magic = 4" "ver < 2 ^ 32"
  shows "decode_version hash de bs magic ver = Inr x \<longleftrightarrow>
    (\<exists>body. bs = magic @ le_bytes 4 ver @ body @ arr_bytes (hash body) \<and> de body = Some x)"
proof
  assume dec: "decode_version hash de bs magic ver = Inr x"
  define body where "body = drop 8 (take (length bs - 32) bs)"
  have len: "40 \<le> length bs" and magic: "take 4 bs = magic" and version: "le_val (take 4 (drop 4 bs)) = ver"
    and sum: "arr_bytes (hash body) = drop (length bs - 32) bs" and body: "de body = Some x"
    using dec by (auto simp: decode_version_def object_consts Let_def body_def split: if_splits option.splits)
  have "take 4 (drop 4 bs) = le_bytes 4 ver" using le_bytes_le_val [of "take 4 (drop 4 bs)" 4] len version by simp
  moreover have "bs = take 4 bs @ take 4 (drop 4 bs) @ body @ drop (length bs - 32) bs"
  proof -
    have "take 8 (take (length bs - 32) bs) = take 8 bs" using len by simp
    then have front: "take (length bs - 32) bs = take 8 bs @ body"
      using append_take_drop_id [of 8 "take (length bs - 32) bs"] by (simp only: body_def)
    have "take 8 bs = take 4 bs @ take 4 (drop 4 bs)" using take_add [of 4 4 bs] by simp
    then show ?thesis using append_take_drop_id [of "length bs - 32" bs] unfolding front by (simp only: append_assoc)
  qed
  ultimately show "\<exists>body. bs = magic @ le_bytes 4 ver @ body @ arr_bytes (hash body) \<and> de body = Some x"
    using magic sum body by (intro exI [of _ body]) simp
next
  assume "\<exists>body. bs = magic @ le_bytes 4 ver @ body @ arr_bytes (hash body) \<and> de body = Some x"
  then obtain body where bs: "bs = magic @ le_bytes 4 ver @ body @ arr_bytes (hash body)" and body: "de body = Some x" by blast
  have "length bs = 40 + length body" using assms(1) by (simp add: bs)
  moreover have "take 4 bs = magic" "take 4 (drop 4 bs) = le_bytes 4 ver" using assms(1) by (simp_all add: bs)
  moreover have "drop (8 + length body) bs = arr_bytes (hash body)" "drop 8 (take (8 + length body) bs) = body"
    using assms(1) by (simp_all add: bs)
  ultimately show "decode_version hash de bs magic ver = Inr x"
    using assms(2) body by (simp add: decode_version_def object_consts Let_def)
qed

lemma decode_encoded:
  assumes "encode_version hash magic (ser x) ver = Inr bs" "\<And>b. ser x = Some b \<Longrightarrow> de b = Some x" "length magic = 4" "ver < 2 ^ 32"
  shows "decode_version hash de bs magic ver = Inr x" "bs \<noteq> []"
proof -
  obtain body where body: "ser x = Some body" "bs = magic @ le_bytes 4 ver @ body @ arr_bytes (hash body)"
    using assms(1) by (auto simp: encode_version_def split: option.splits)
  then show "decode_version hash de bs magic ver = Inr x"
    using assms(2) unfolding decode_version_iff [OF assms(3,4)] by blast
  show "bs \<noteq> []" using body(2) assms(3) by auto
qed

section \<open>What the files hold\<close>

definition snap_codec :: "('k, 'e, 'p) SnapEnv \<Rightarrow> bool" where
  "snap_codec env \<longleftrightarrow>
    (\<forall>x b. ser_manifest env x = Some b \<longrightarrow> de_manifest env b = Some x) \<and>
    (\<forall>x b. ser_base env x = Some b \<longrightarrow> de_base env b = Some x) \<and>
    (\<forall>x b. ser_delta env x = Some b \<longrightarrow> de_delta env b = Some x)"

definition base_file ::
  "('k, 'e, 'p) SnapEnv \<Rightarrow> nat \<Rightarrow> Disk \<Rightarrow> Manifest \<Rightarrow> ('k, 'e, 'p) PersistedState \<Rightarrow> bool" where
  "base_file env ver d m base \<longleftrightarrow>
    (\<exists>bs. map_of (dk_segments d) (BaseKind, base_generation m) = Some bs \<and> length bs = base_bytes m \<and>
      decode_version (sn_hash env) (de_base env) bs BASE_MAGIC ver = Inr \<lparr>bs_generation = base_generation m, bs_state = base\<rparr>)"

text \<open>The delta files from a generation on, with the number of their bytes.\<close>

fun delta_files ::
  "('k, 'e, 'p) SnapEnv \<Rightarrow> nat \<Rightarrow> Disk \<Rightarrow> nat \<Rightarrow> ('k, 'e, 'p) PersistenceDelta list \<Rightarrow> nat \<Rightarrow> nat \<Rightarrow> bool" where
  "delta_files env ver d g [] observed nbytes \<longleftrightarrow> observed = nbytes"
| "delta_files env ver d g (dl # dls) observed nbytes \<longleftrightarrow>
    (\<exists>bs. map_of (dk_segments d) (DeltaKind, Suc g) = Some bs \<and>
      decode_version (sn_hash env) (de_delta env) bs DELTA_MAGIC ver = Inr \<lparr>from_generation = g, to_generation = Suc g, ds_delta = dl\<rparr> \<and>
      delta_files env ver d (Suc g) dls (sat_add observed (length bs)) nbytes)"

definition committed ::
  "('k, 'e, 'p) SnapEnv \<Rightarrow> nat \<Rightarrow> Disk \<Rightarrow> Manifest \<Rightarrow> ('k, 'e, 'p) PersistedState \<Rightarrow> ('k, 'e, 'p) PersistenceDelta list \<Rightarrow> bool" where
  "committed env ver d m base dls \<longleftrightarrow>
    (\<exists>bs. dk_manifest d = Some bs \<and> decode_manifest env ver bs = Inr m) \<and> base_file env ver d m base \<and>
    delta_files env ver d (base_generation m) dls 0 (delta_bytes m) \<and> current_generation m = base_generation m + length dls \<and>
    current_generation m \<le> usize_max"

definition state_parts :: "('k, 'e, 'p) PersistedState \<Rightarrow> ('k, 'e) kv \<times> 'p list \<times> ('k, 'p) acks" where
  "state_parts s = (ps_entries s, ps_members s, ps_tombstone_acks s)"

definition recovered :: "('k, 'e, 'p) PersistedState \<Rightarrow> ('k, 'e, 'p) PersistenceDelta list \<Rightarrow> ('k, 'e, 'p) PersistedState" where
  "recovered base dls =
    (if dls = [] then base
     else case foldl apply_delta (collect_entries (ps_entries base), ps_members base, ps_tombstone_acks base) dls of
       (es, ms, as) \<Rightarrow> persisted_new es ms as)"

lemma delta_files_segments:
  "(\<And>g. map_of (dk_segments d') (DeltaKind, g) = map_of (dk_segments d) (DeltaKind, g)) \<Longrightarrow>
    delta_files env ver d' g dls o' n = delta_files env ver d g dls o' n"
  by (induction dls arbitrary: g o') simp_all

lemma dk_tick [simp]: "dk_segments (tick d) = dk_segments d" "dk_manifest (tick d) = dk_manifest d" "dk_single (tick d) = dk_single d"
  by (simp_all add: tick_def)

lemma delta_files_tick [simp]: "delta_files env ver (tick d) g dls o' n = delta_files env ver d g dls o' n"
  by (rule delta_files_segments) simp

lemma delta_files_manifest [simp]: "delta_files env ver (put_manifest b d) g dls o' n = delta_files env ver d g dls o' n"
  by (rule delta_files_segments) (simp add: put_manifest_def)

lemma committed_tick [simp]: "committed env ver (tick d) m base dls = committed env ver d m base dls"
  by (simp add: committed_def base_file_def)

lemma load_deltas_cases:
  "delta_files env ver d g dls observed nbytes \<Longrightarrow>
    fst (load_deltas env ver [Suc g..<Suc (g + length dls)] observed s d) \<in> {Inl IoOther, Inr (nbytes, foldl apply_delta s dls)}"
proof (induction dls arbitrary: d g observed s)
  case (Cons dl dls)
  obtain bs where bs: "map_of (dk_segments d) (DeltaKind, Suc g) = Some bs"
    "decode_version (sn_hash env) (de_delta env) bs DELTA_MAGIC ver = Inr \<lparr>from_generation = g, to_generation = Suc g, ds_delta = dl\<rparr>"
    "delta_files env ver (tick d) (Suc g) dls (sat_add observed (length bs)) nbytes"
    using Cons.prems by auto
  have upt: "[Suc g..<Suc (g + length (dl # dls))] = Suc g # [Suc (Suc g)..<Suc (Suc g + length dls)]" by (simp add: upt_conv_Cons del: upt_Suc)
  show ?case using Cons.IH [OF bs(3), of "apply_delta s dl"] bs(1,2)
    unfolding upt by (simp add: io_bind_def read_segment_bytes_def fs_read_def io_lift_def del: upt_Suc)
qed (simp add: io_return_def)

lemma decode_manifest_ok: "decode_manifest env ver bs = Inr m \<Longrightarrow> validate_manifest m = Inr ()"
  by (auto simp: decode_manifest_def split: sum.splits)

lemma load_committed:
  assumes "committed env ver d m base dls"
  shows "fst (load_for env ver d) \<in> {Inl IoOther, Inr (Some (recovered base dls))}"
proof -
  obtain mb bs where mb: "dk_manifest d = Some mb" "decode_manifest env ver mb = Inr m"
    and bs: "map_of (dk_segments d) (BaseKind, base_generation m) = Some bs" "length bs = base_bytes m"
      "decode_version (sn_hash env) (de_base env) bs BASE_MAGIC ver = Inr \<lparr>bs_generation = base_generation m, bs_state = base\<rparr>"
    and dl: "delta_files env ver d (base_generation m) dls 0 (delta_bytes m)"
    and gens: "current_generation m = base_generation m + length dls" "current_generation m \<le> usize_max"
    using assms by (auto simp: committed_def base_file_def)
  let ?s = "(collect_entries (ps_entries base), ps_members base, ps_tombstone_acks base)"
  obtain r d2 where run: "load_deltas env ver [Suc (base_generation m)..<Suc (current_generation m)] 0 ?s (tick (tick d)) = (r, d2)"
    by fastforce
  then have r: "r = Inl IoOther \<or> r = Inr (delta_bytes m, foldl apply_delta ?s dls)"
    using load_deltas_cases [of env ver "tick (tick d)" "base_generation m" dls 0 "delta_bytes m" ?s] dl by (simp add: gens(1) del: upt_Suc)
  have from_base: "fst (load_from env ver m (tick d)) \<in> {Inl IoOther, Inr (Some (recovered base dls))}"
  proof (cases "dls = []")
    case True
    then show ?thesis using bs gens(1)
      by (simp add: load_from_def io_bind_def read_segment_bytes_def fs_read_def io_lift_def io_return_def recovered_def)
  next
    case False
    then have "sat_add (base_generation m) 1 = Suc (base_generation m)" "current_generation m \<noteq> base_generation m"
      using gens by (auto simp: sat_add_def neq_Nil_conv)
    then show ?thesis using bs run r False
      by (auto simp: load_from_def io_bind_def read_segment_bytes_def fs_read_def io_lift_def io_return_def recovered_def split_beta
          simp del: upt_Suc)
  qed
  then show ?thesis using mb
    by (auto simp: load_for_def read_manifest_version_def io_bind_def fs_read_def io_lift_def io_return_def)
qed

section \<open>Saving survives every fault\<close>

definition same_files :: "Disk \<Rightarrow> Disk \<Rightarrow> bool" where
  "same_files d d' \<longleftrightarrow> dk_manifest d' = dk_manifest d \<and> dk_segments d' = dk_segments d \<and> dk_single d' = dk_single d"

lemma committed_same: "same_files d d' \<Longrightarrow> committed env ver d' m base dls = committed env ver d m base dls"
  using delta_files_segments [of d' d env ver] by (simp add: same_files_def committed_def base_file_def)

lemma write_segment_cases:
  assumes "write_encoded_segment env kind g bytes d = (r, d')"
  shows "r = Inr (length bytes) \<and> same_files (put_segment kind g bytes d) d' \<or>
    r = Inl IoOther \<and> (same_files d d' \<or> same_files (put_segment kind g bytes d) d')"
  using assms
  by (auto simp: write_encoded_segment_def io_bind_def write_atomic_def io_return_def same_files_def split: fault.splits)

lemma decode_encoded_manifest:
  assumes "encode_version (sn_hash env) MANIFEST_MAGIC (ser_manifest env m) ver = Inr bs" "snap_codec env" "ver < 2 ^ 32"
    "validate_manifest m = Inr ()"
  shows "decode_manifest env ver bs = Inr m"
proof -
  have "length MANIFEST_MAGIC = 4" by (simp add: MANIFEST_MAGIC_def)
  then have "decode_version (sn_hash env) (de_manifest env) bs MANIFEST_MAGIC ver = Inr m"
    using assms by (intro decode_encoded(1) [where ser = "ser_manifest env", OF assms(1)]) (auto simp: snap_codec_def)
  then show ?thesis using assms(4) by (simp add: decode_manifest_def)
qed

lemma publish_cases:
  assumes "publish_manifest_version env m ver d = (r, d')" "snap_codec env" "ver < 2 ^ 32"
  shows "(\<exists>e. r = Inl e) \<and> same_files d d' \<or>
    (\<exists>bs. decode_manifest env ver bs = Inr m \<and> same_files (put_manifest bs d) d')"
proof (cases "validate_manifest m")
  case (Inr u)
  then have valid: "validate_manifest m = Inr ()" by simp
  show ?thesis
  proof (cases "encode_version (sn_hash env) MANIFEST_MAGIC (ser_manifest env m) ver")
    case (Inr bs)
    note dec = decode_encoded_manifest [OF Inr assms(2,3) valid]
    then show ?thesis using assms(1) Inr valid
      by (auto simp: publish_manifest_version_def io_bind_def io_lift_def write_atomic_def same_files_def split: fault.splits)
  next
    case (Inl e)
    then have "r = Inl e \<and> d' = d" using assms(1) valid by (auto simp: publish_manifest_version_def io_bind_def io_lift_def)
    then show ?thesis by (simp add: same_files_def)
  qed
next
  case (Inl e)
  then have "r = Inl e \<and> d' = d" using assms(1) by (auto simp: publish_manifest_version_def io_bind_def io_lift_def)
  then show ?thesis by (simp add: same_files_def)
qed

lemma delta_files_put:
  "g + length dls < n \<Longrightarrow> delta_files env ver (put_segment DeltaKind n b d) g dls o' t = delta_files env ver d g dls o' t"
  by (induction dls arbitrary: g o') (auto simp: put_segment_def update_conv)

lemma delta_files_snoc:
  "delta_files env ver d g (dls @ [dl]) o' t \<longleftrightarrow>
    (\<exists>t0 bs. delta_files env ver d g dls o' t0 \<and> map_of (dk_segments d) (DeltaKind, Suc (g + length dls)) = Some bs \<and>
      decode_version (sn_hash env) (de_delta env) bs DELTA_MAGIC ver =
        Inr \<lparr>from_generation = g + length dls, to_generation = Suc (g + length dls), ds_delta = dl\<rparr> \<and> sat_add t0 (length bs) = t)"
  by (induction dls arbitrary: g o') auto

lemma committed_put_delta:
  assumes "committed env ver d m base dls" "current_generation m < n"
  shows "committed env ver (put_segment DeltaKind n b d) m base dls"
  using assms delta_files_put [of "base_generation m" dls n env ver b d]
  by (auto simp: committed_def base_file_def) (auto simp: put_segment_def update_conv)

lemma append_delta_cases:
  assumes "committed env ver d m base dls" "append_delta env dl ver m d = (r, d')" "snap_codec env" "ver < 2 ^ 32"
    and "current_generation m < usize_max"
  shows "r \<noteq> Inr True \<and> committed env ver d' m base dls \<or> r \<noteq> Inr False \<and> (\<exists>m'. committed env ver d' m' base (dls @ [dl]))"
proof -
  let ?to = "Suc (current_generation m)"
  have sat: "sat_add (current_generation m) 1 = ?to" using assms(5) by (simp add: sat_add_def)
  let ?enc = "encode_version (sn_hash env) DELTA_MAGIC
    (ser_delta env \<lparr>from_generation = current_generation m, to_generation = ?to, ds_delta = dl\<rparr>) ver"
  show ?thesis
  proof (cases "\<exists>bytes. ?enc = Inr bytes \<and> \<not> should_materialize m (length bytes)")
    case False
    then have "r \<noteq> Inr True \<and> d' = d" using assms(2) sat
      by (cases ?enc) (auto simp: append_delta_def Let_def io_bind_def io_lift_def io_return_def)
    then show ?thesis using assms(1) by simp
  next
    case True
    then obtain bytes where bytes: "?enc = Inr bytes" "\<not> should_materialize m (length bytes)" by blast
    let ?m' = "m\<lparr>current_generation := ?to, delta_bytes := sat_add (delta_bytes m) (length bytes)\<rparr>"
    obtain r1 d1 where w: "write_encoded_segment env DeltaKind ?to bytes d = (r1, d1)" by fastforce
    have old: "committed env ver d1 m base dls"
      using write_segment_cases [OF w] committed_same assms(1) committed_put_delta [OF assms(1)] by blast
    show ?thesis
    proof (cases r1)
      case (Inl e)
      then have "r = Inl e" "d' = d1" using assms(2) sat bytes w by (auto simp: append_delta_def Let_def io_bind_def io_lift_def)
      then show ?thesis using old by simp
    next
      case (Inr len)
      then have d1: "same_files (put_segment DeltaKind ?to bytes d) d1" "len = length bytes" using write_segment_cases [OF w] by auto
      obtain r2 d2 where p: "publish_manifest_version env ?m' ver d1 = (r2, d2)" by fastforce
      have r: "d' = d2" "r = (case r2 of Inl e \<Rightarrow> Inl e | Inr _ \<Rightarrow> Inr True)"
        using assms(2) sat bytes w Inr d1(2) p by (auto simp: append_delta_def Let_def io_bind_def io_lift_def io_return_def split: sum.splits)
      have dec: "decode_version (sn_hash env) (de_delta env) bytes DELTA_MAGIC ver =
          Inr \<lparr>from_generation = current_generation m, to_generation = ?to, ds_delta = dl\<rparr>"
        using assms(3,4) by (intro decode_encoded(1) [where ser = "ser_delta env", OF bytes(1)]) (auto simp: snap_codec_def DELTA_MAGIC_def)
      have segs: "dk_segments d1 = AList.update (DeltaKind, ?to) bytes (dk_segments d)"
        using d1(1) by (simp add: same_files_def put_segment_def)
      have gens: "current_generation m = base_generation m + length dls" "delta_files env ver d1 (base_generation m) dls 0 (delta_bytes m)"
        using old by (simp_all add: committed_def)
      have "delta_files env ver d1 (base_generation m) (dls @ [dl]) 0 (sat_add (delta_bytes m) (length bytes))"
        unfolding delta_files_snoc using gens dec by (intro exI [of _ "delta_bytes m"] exI [of _ bytes]) (simp add: segs)
      then have new: "committed env ver (put_manifest bs d1) ?m' base (dls @ [dl])" if "decode_manifest env ver bs = Inr ?m'" for bs
        using old that assms(5) gens(1) by (simp add: committed_def base_file_def) (simp add: put_manifest_def)
      from publish_cases [OF p assms(3,4)] show ?thesis
      proof (elim disjE conjE exE)
        fix e assume "r2 = Inl e" "same_files d1 d2"
        then show ?thesis using old committed_same [of d1 d2 env ver m base dls] r by simp
      next
        fix bs assume "decode_manifest env ver bs = Inr ?m'" "same_files (put_manifest bs d1) d2"
        then have "committed env ver d' ?m' base (dls @ [dl])" using new committed_same r(1) by blast
        then show ?thesis using r(2) by (auto split: sum.splits)
      qed
    qed
  qed
qed

lemma committed_put_base:
  assumes "committed env ver d m base dls" "n \<noteq> base_generation m"
  shows "committed env ver (put_segment BaseKind n b d) m base dls"
proof -
  have "delta_files env ver (put_segment BaseKind n b d) g dls o' t = delta_files env ver d g dls o' t" for g o' t
    by (rule delta_files_segments) (simp add: put_segment_def)
  then show ?thesis using assms by (simp add: committed_def base_file_def) (simp add: put_segment_def)
qed

lemma cleanup_segments_keeps:
  "map_of (dk_segments (cleanup_segments env keep names d)) (BaseKind, keep) = map_of (dk_segments d) (BaseKind, keep)"
  "dk_manifest (cleanup_segments env keep names d) = dk_manifest d"
  by (induction names arbitrary: d) auto

lemma cleanup_committed:
  assumes "committed env ver d m base []" "base_generation m = keep"
  shows "committed env ver (cleanup_after_full_materialization env keep d) m base []"
proof -
  have "map_of (dk_segments (cleanup_after_full_materialization env keep d)) (BaseKind, keep) = map_of (dk_segments d) (BaseKind, keep)"
    "dk_manifest (cleanup_after_full_materialization env keep d) = dk_manifest d"
    by (simp_all add: cleanup_after_full_materialization_def Let_def cleanup_segments_keeps)
  then show ?thesis using assms by (simp add: committed_def base_file_def)
qed

text \<open>The files before a save: no manifest, or a committed chain.\<close>

definition holds ::
  "('k, 'e, 'p) SnapEnv \<Rightarrow> nat \<Rightarrow> Disk \<Rightarrow> (Manifest \<times> ('k, 'e, 'p) PersistedState \<times> ('k, 'e, 'p) PersistenceDelta list) option \<Rightarrow> bool" where
  "holds env ver d c \<longleftrightarrow> (case c of None \<Rightarrow> dk_manifest d = None \<and> dk_single d = None | Some (m, base, dls) \<Rightarrow> committed env ver d m base dls)"

lemma holds_same: "same_files d d' \<Longrightarrow> holds env ver d' c = holds env ver d c"
  using committed_same [of d d' env ver] by (auto simp: holds_def same_files_def split: option.split)

lemma holds_tick [simp]: "holds env ver (tick d) c = holds env ver d c"
  by (rule holds_same) (simp add: same_files_def)

lemma save_base_cases:
  assumes "holds env ver d c" "save_base env s g ver d = (r, d')" "snap_codec env" "ver < 2 ^ 32" "g \<le> usize_max"
    and "\<And>m base dls. c = Some (m, base, dls) \<Longrightarrow> g \<noteq> base_generation m"
  shows "(\<exists>e. r = Inl e) \<and> holds env ver d' c \<or> (\<exists>m'. committed env ver d' m' s [])"
proof -
  let ?enc = "encode_version (sn_hash env) BASE_MAGIC (ser_base env \<lparr>bs_generation = g, bs_state = s\<rparr>) ver"
  have keep: "holds env ver (put_segment BaseKind g b (tick d)) c" for b
    using assms(1,6) committed_put_base [of env ver "tick d"] by (auto simp: holds_def put_segment_def [of _ _ _ "tick d"] split: option.splits)
  show ?thesis
  proof (cases "sn_fault env (dk_calls d) = NoFault \<and> (\<exists>bytes. ?enc = Inr bytes)")
    case False
    then have "(\<exists>e. r = Inl e) \<and> d' = tick d" using assms(2)
      by (cases ?enc; cases "sn_fault env (dk_calls d) = NoFault")
        (auto simp: save_base_def write_segment_version_def fs_check_def io_bind_def io_lift_def)
    then show ?thesis using assms(1) by (auto simp: holds_def split: option.splits)
  next
    case True
    then obtain bytes where bytes: "?enc = Inr bytes" and nf: "sn_fault env (dk_calls d) = NoFault" by blast
    let ?m = "\<lparr>base_generation = g, base_bytes = length bytes, current_generation = g, delta_bytes = 0\<rparr>"
    obtain r1 d1 where w: "write_encoded_segment env BaseKind g bytes (tick d) = (r1, d1)" by fastforce
    have old: "holds env ver d1 c"
      using write_segment_cases [OF w] holds_same [of "tick d" d1 env ver c] keep [of bytes] assms(1)
        holds_same [of "put_segment BaseKind g bytes (tick d)" d1 env ver c] by auto
    show ?thesis
    proof (cases r1)
      case (Inl e)
      then have "r = Inl e \<and> d' = d1" using assms(2) bytes w nf
        by (auto simp: save_base_def write_segment_version_def fs_check_def io_bind_def io_lift_def)
      then show ?thesis using old by simp
    next
      case (Inr len)
      then have d1: "same_files (put_segment BaseKind g bytes (tick d)) d1" "len = length bytes" using write_segment_cases [OF w] by auto
      obtain r2 d2 where p: "publish_manifest_version env ?m ver d1 = (r2, d2)" by fastforce
      have r: "r = r2 \<and> d' = (if r2 = Inr () then cleanup_after_full_materialization env g d2 else d2)"
        using assms(2) bytes w nf Inr d1(2) p
        by (cases r2) (auto simp: save_base_def write_segment_version_def fs_check_def io_bind_def io_lift_def)
      have "decode_version (sn_hash env) (de_base env) bytes BASE_MAGIC ver = Inr \<lparr>bs_generation = g, bs_state = s\<rparr>"
        using assms(3,4) by (intro decode_encoded(1) [where ser = "ser_base env", OF bytes]) (auto simp: snap_codec_def BASE_MAGIC_def)
      then have new: "committed env ver (put_manifest b d1) ?m s []" if "decode_manifest env ver b = Inr ?m" for b
        using that d1(1) assms(5) by (simp add: committed_def base_file_def same_files_def put_segment_def) (simp add: put_manifest_def)
      from publish_cases [OF p assms(3,4)] show ?thesis
      proof (elim disjE conjE exE)
        fix e assume "r2 = Inl e" "same_files d1 d2"
        then show ?thesis using old holds_same [of d1 d2 env ver c] r by simp
      next
        fix b assume "decode_manifest env ver b = Inr ?m" "same_files (put_manifest b d1) d2"
        then have "committed env ver d2 ?m s []" using new [of b] committed_same [of "put_manifest b d1" d2 env ver ?m s "[]"] by simp
        then have "committed env ver d' ?m s []" using r cleanup_committed [of env ver d2 ?m s g] by simp
        then show ?thesis by blast
      qed
    qed
  qed
qed

section \<open>The backend as a store of views\<close>

definition state_view :: "('k, 'e, 'p) PersistedState \<Rightarrow> ('k, 'e, 'p) view" where
  "state_view s = view_of (state_parts s)"

lemma map_of_collect: "keys_distinct es \<Longrightarrow> map_of (collect_entries es) = map_of es"
proof -
  have "keys_distinct es \<Longrightarrow> map_of (foldl (\<lambda>m (k, e). AList.update k e m) m es) = map_of m ++ map_of es" for m
  proof (induction es arbitrary: m)
    case (Cons op es)
    then have "map_of es (fst op) = None" by (simp add: map_of_eq_None_iff)
    then show ?case using Cons by (cases op) (auto simp: fun_eq_iff map_add_def update_conv split: option.split)
  qed simp
  then show "keys_distinct es \<Longrightarrow> map_of (collect_entries es) = map_of es" by (simp add: collect_entries_def)
qed

lemma recovered_view:
  assumes "keys_distinct (ps_entries base)"
  shows "state_view (recovered base dls) =
    view_of (foldl apply_delta (collect_entries (ps_entries base), ps_members base, ps_tombstone_acks base) dls)"
  using map_of_collect [OF assms]
  by (auto simp: recovered_def state_view_def state_parts_def view_of_def persisted_new_def split: prod.split)

lemma recovered_snoc:
  assumes "keys_distinct (ps_entries base)" "generation_ok g"
  shows "state_view (recovered base (dls @ [persistence_delta g])) = eff g (state_view (recovered base dls))"
  using recovered_view [OF assms(1)] view_apply_delta [OF assms(2)] by simp

text \<open>The shape a persisted state has by its types: maps and sets hold every key once.\<close>

definition parts_ok :: "('k, 'e) kv \<times> 'p list \<times> ('k, 'p) acks \<Rightarrow> bool" where
  "parts_ok t \<longleftrightarrow> keys_distinct (fst t) \<and> distinct (fst (snd t)) \<and> keys_distinct (snd (snd t)) \<and>
    list_all (\<lambda>(_, a). keys_distinct a) (snd (snd t))"

definition persisted_ok :: "('k, 'e, 'p) PersistedState \<Rightarrow> bool" where
  "persisted_ok s \<longleftrightarrow> parts_ok (state_parts s)"

lemma persisted_ok_entries: "persisted_ok s \<Longrightarrow> keys_distinct (ps_entries s)"
  by (simp add: persisted_ok_def parts_ok_def state_parts_def)

lemma distinct_apply_entries: "keys_distinct m \<Longrightarrow> keys_distinct (foldl apply_entry m ops)"
  by (induction ops arbitrary: m) (auto simp: apply_entry_def split: option.split)

lemma distinct_apply_members: "distinct m \<Longrightarrow> distinct (foldl apply_member m ops)"
  by (induction ops arbitrary: m) (auto simp: apply_member_def distinct_removeAll)

lemma distinct_apply_acks:
  assumes "keys_distinct m \<and> list_all (\<lambda>(_, a). keys_distinct a) m" "keys_distinct ops"
  shows "keys_distinct (apply_acks m (k, ops)) \<and> list_all (\<lambda>(_, a). keys_distinct a) (apply_acks m (k, ops))"
proof -
  have filtered: "keys_distinct (List.map_filter (\<lambda>(peer, version). map_option (Pair peer) version) ops)"
    using assms(2) by (induction ops) (auto simp: List.map_filter_def image_iff split: option.splits)
  have "keys_distinct occ" if "map_of m k = Some occ" for occ using assms(1) map_of_SomeD [OF that] by (auto simp: list_all_iff)
  moreover have "list_all P m \<Longrightarrow> list_all P (AList.delete k m)" for P by (auto simp: AList.delete_eq list_all_iff)
  ultimately show ?thesis using assms filtered
    by (auto simp: apply_acks_def Let_def distinct_apply_entries list_all_update split: option.split)
qed

lemma parts_ok_apply_delta:
  assumes "parts_ok t" "generation_ok g"
  shows "parts_ok (apply_delta t (persistence_delta g))"
proof -
  have clears: "keys_distinct a \<and> list_all (\<lambda>(_, x). keys_distinct x) a \<Longrightarrow>
      keys_distinct (foldl (\<lambda>m k. AList.delete k m) a cs) \<and> list_all (\<lambda>(_, x). keys_distinct x) (foldl (\<lambda>m k. AList.delete k m) a cs)" for a cs
  proof (induction cs arbitrary: a)
    case (Cons c cs)
    moreover have "list_all (\<lambda>(_, x). keys_distinct x) (AList.delete c a)" using Cons.prems by (auto simp: AList.delete_eq list_all_iff)
    ultimately show ?case by simp
  qed simp
  have acks: "keys_distinct a \<and> list_all (\<lambda>(_, x). keys_distinct x) a \<Longrightarrow> list_all (\<lambda>(_, x). keys_distinct x) ops \<Longrightarrow>
      keys_distinct (foldl apply_acks a ops) \<and> list_all (\<lambda>(_, x). keys_distinct x) (foldl apply_acks a ops)" for a ops
  proof (induction ops arbitrary: a)
    case (Cons op ops)
    obtain k o' where op: "op = (k, o')" by (cases op)
    show ?case using Cons distinct_apply_acks [of a o' k] by (simp add: op)
  qed simp
  obtain es ms as where t: "t = (es, ms, as)" by (cases t)
  have "keys_distinct as \<and> list_all (\<lambda>(_, x). keys_distinct x) as" "list_all (\<lambda>(_, x). keys_distinct x) (sg_ack_peers g)"
    using assms by (simp_all add: t parts_ok_def generation_ok_def)
  note acks [OF clears [OF this(1), of "sg_ack_key_clears g"] this(2)]
  then show ?thesis using assms
    by (simp add: t parts_ok_def apply_delta_def persistence_delta_def delta_new_def generation_ok_def distinct_apply_entries distinct_apply_members)
qed

lemma distinct_collect: "keys_distinct (collect_entries es)"
proof -
  have "keys_distinct m \<Longrightarrow> keys_distinct (foldl (\<lambda>m (k, e). AList.update k e m) m es)" for m
    by (induction es arbitrary: m) auto
  then show ?thesis by (simp add: collect_entries_def)
qed

lemma recovered_ok_snoc:
  assumes "persisted_ok (recovered base dls)" "generation_ok g"
  shows "persisted_ok (recovered base (dls @ [persistence_delta g]))"
proof -
  let ?t = "foldl apply_delta (collect_entries (ps_entries base), ps_members base, ps_tombstone_acks base) dls"
  have "parts_ok ?t"
  proof (cases "dls = []")
    case True
    then show ?thesis using assms(1) distinct_collect by (simp add: persisted_ok_def parts_ok_def recovered_def state_parts_def)
  next
    case False
    then show ?thesis using assms(1) by (auto simp: persisted_ok_def recovered_def state_parts_def persisted_new_def split: prod.splits)
  qed
  from parts_ok_apply_delta [OF this assms(2)] show ?thesis
    by (auto simp: persisted_ok_def recovered_def state_parts_def persisted_new_def split: prod.split)
qed

text \<open>What a \<open>Persistence\<close> backend promises. \<open>saved b c\<close> reads off the view a load would return, if
  anything was ever saved; \<open>room\<close> says that its generation counter is not exhausted. A failed call
  may have taken effect.\<close>

locale snapshot_backend =
  fixes load :: "'b \<Rightarrow> (io_error + ('k, 'e, 'p) PersistedState option) \<times> 'b"
    and try_save_delta :: "('k, 'e, 'p) PersistenceDelta option \<Rightarrow> 'b \<Rightarrow> (io_error + bool) \<times> 'b"
    and save :: "('k, 'e, 'p) PersistedState \<Rightarrow> 'b \<Rightarrow> (io_error + unit) \<times> 'b"
    and saved :: "'b \<Rightarrow> ('k, 'e, 'p) view option \<Rightarrow> bool"
    and room :: "'b \<Rightarrow> bool"
  assumes load_law: "\<And>b c r b'. saved b c \<Longrightarrow> load b = (r, b') \<Longrightarrow>
      saved b' c \<and> (\<forall>s. r = Inr s \<longrightarrow> map_option state_view s = c \<and> (\<forall>x. s = Some x \<longrightarrow> persisted_ok x))"
    and none_law: "\<And>b c r b'. saved b c \<Longrightarrow> room b \<Longrightarrow> try_save_delta None b = (r, b') \<Longrightarrow> saved b' c \<and> (r = Inr True \<longrightarrow> c \<noteq> None)"
    and delta_law: "\<And>b c g r b'. saved b c \<Longrightarrow> room b \<Longrightarrow> generation_ok g \<Longrightarrow> try_save_delta (Some (persistence_delta g)) b = (r, b') \<Longrightarrow>
      r \<noteq> Inr True \<and> saved b' c \<or> r \<noteq> Inr False \<and> (\<exists>v. c = Some v \<and> saved b' (Some (eff g v)))"
    and save_law: "\<And>b c s r b'. saved b c \<Longrightarrow> room b \<Longrightarrow> persisted_ok s \<Longrightarrow> save s b = (r, b') \<Longrightarrow>
      (\<exists>e. r = Inl e) \<and> saved b' c \<or> saved b' (Some (state_view s))"

section \<open>The file backend keeps the promise\<close>

definition file_saved :: "('k, 'e, 'p) SnapEnv \<Rightarrow> nat \<Rightarrow> Disk \<Rightarrow> ('k, 'e, 'p) view option \<Rightarrow> bool" where
  "file_saved env ver d c \<longleftrightarrow> snap_codec env \<and> ver < 2 ^ 32 \<and>
    (case c of
       None \<Rightarrow> dk_manifest d = None \<and> dk_single d = None
     | Some v \<Rightarrow> \<exists>m base dls. committed env ver d m base dls \<and> keys_distinct (ps_entries base) \<and>
         persisted_ok (recovered base dls) \<and> v = state_view (recovered base dls))"

definition file_room :: "('k, 'e, 'p) SnapEnv \<Rightarrow> nat \<Rightarrow> Disk \<Rightarrow> bool" where
  "file_room env ver d \<longleftrightarrow>
    (case dk_manifest d of
       None \<Rightarrow> True
     | Some bs \<Rightarrow> (case decode_manifest env ver bs of Inl _ \<Rightarrow> True | Inr m \<Rightarrow> current_generation m < usize_max))"

lemma file_saved_same: "same_files d d' \<Longrightarrow> file_saved env ver d' c = file_saved env ver d c"
  using committed_same [of d d' env ver] by (cases c) (simp_all add: file_saved_def, simp add: same_files_def)

lemma file_saved_tick [simp]: "file_saved env ver (tick d) c = file_saved env ver d c"
  by (rule file_saved_same) (simp add: same_files_def)

text \<open>Reading changes no file.\<close>

lemma read_manifest_cases:
  assumes "read_manifest_version env ver d = (r, d')"
  shows "d' = tick d" "dk_manifest d = None \<Longrightarrow> r = Inl IoOther \<or> r = Inr None"
    "committed env ver d m base dls \<Longrightarrow> r = Inl IoOther \<or> r = Inr (Some m)"
  using assms
  by (auto simp: read_manifest_version_def io_bind_def fs_read_def io_lift_def io_return_def committed_def split: option.splits sum.splits if_splits)

lemma try_save_delta_file:
  assumes "file_saved env ver d c" "file_room env ver d" "try_save_delta_for env dl ver d = (r, d')"
  shows "dl = None \<Longrightarrow> file_saved env ver d' c \<and> (r = Inr True \<longrightarrow> c \<noteq> None)"
    "dl = Some (persistence_delta g) \<Longrightarrow> generation_ok g \<Longrightarrow>
      r \<noteq> Inr True \<and> file_saved env ver d' c \<or> r \<noteq> Inr False \<and> (\<exists>v. c = Some v \<and> file_saved env ver d' (Some (eff g v)))"
proof -
  obtain rm d1 where rm: "read_manifest_version env ver d = (rm, d1)" by fastforce
  note read = read_manifest_cases [OF rm]
  have tick: "file_saved env ver (tick d) c" using assms(1) by simp
  have stop: "(\<nexists>m. rm = Inr (Some m)) \<Longrightarrow> r \<noteq> Inr True \<and> d' = tick d"
    using assms(3) rm read(1) by (auto simp: try_save_delta_for_def io_bind_def split: sum.splits option.splits if_splits)
  have absent: "c = None \<Longrightarrow> r \<noteq> Inr True \<and> d' = tick d"
    using assms(1) read(2) stop by (auto simp: file_saved_def)
  have goes: "(case dl of None \<Rightarrow> (Inr True, tick d) | Some x \<Rightarrow> append_delta env x ver m (tick d)) = (r, d')" if "rm = Inr (Some m)" for m
    using assms(3) rm read(1) that by (auto simp: try_save_delta_for_def io_bind_def split: option.splits)
  show "dl = None \<Longrightarrow> file_saved env ver d' c \<and> (r = Inr True \<longrightarrow> c \<noteq> None)"
  proof -
    assume "dl = None"
    then have "d' = tick d" using stop goes by (cases "\<exists>m. rm = Inr (Some m)") auto
    then have "file_saved env ver d' c" using tick by simp
    then show ?thesis using absent by (intro conjI impI notI) simp_all
  qed
  assume dl: "dl = Some (persistence_delta g)" and ok: "generation_ok g"
  show "r \<noteq> Inr True \<and> file_saved env ver d' c \<or> r \<noteq> Inr False \<and> (\<exists>v. c = Some v \<and> file_saved env ver d' (Some (eff g v)))"
  proof (cases "\<exists>m. rm = Inr (Some m)")
    case False
    then show ?thesis using stop tick by simp
  next
    case True
    then obtain m v where m: "rm = Inr (Some m)" and v: "c = Some v" using read(2) assms(1) by (cases c) (auto simp: file_saved_def)
    then obtain base dls where com: "committed env ver d m base dls" "keys_distinct (ps_entries base)" "v = state_view (recovered base dls)"
      "snap_codec env" "ver < 2 ^ 32" and pok: "persisted_ok (recovered base dls)" using assms(1) read(3) by (fastforce simp: file_saved_def)
    have "current_generation m < usize_max" using assms(2) com(1) by (auto simp: file_room_def committed_def)
    from append_delta_cases [OF _ _ com(4,5) this, of "tick d" base dls "persistence_delta g" r d'] goes [OF m] com(1) dl
    have "r \<noteq> Inr True \<and> committed env ver d' m base dls \<or>
        r \<noteq> Inr False \<and> (\<exists>m'. committed env ver d' m' base (dls @ [persistence_delta g]))" by simp
    then show ?thesis using com pok recovered_ok_snoc [OF pok ok] recovered_snoc [OF com(2) ok, of dls] v unfolding file_saved_def by fastforce
  qed
qed

lemma save_file:
  assumes "file_saved env ver d c" "file_room env ver d" "persisted_ok s" "save_full_for env s ver d = (r, d')"
  shows "(\<exists>e. r = Inl e) \<and> file_saved env ver d' c \<or> file_saved env ver d' (Some (state_view s))"
proof -
  have law: "snap_codec env" "ver < 2 ^ 32" using assms(1) by (simp_all add: file_saved_def)
  have view: "committed env ver d' m' s [] \<Longrightarrow> file_saved env ver d' (Some (state_view s))" for m'
    unfolding file_saved_def using law assms(3) persisted_ok_entries [OF assms(3)] by (auto simp: recovered_def)
  obtain rm d1 where rm: "read_manifest_version env ver d = (rm, d1)" by fastforce
  note read = read_manifest_cases [OF rm]
  show ?thesis
  proof (cases rm)
    case (Inl e)
    then have "r = Inl e \<and> d' = tick d" using assms(4) rm read(1) by (auto simp: save_full_for_def io_bind_def)
    then show ?thesis using assms(1) by simp
  next
    case (Inr prev)
    show ?thesis
    proof (cases c)
      case None
      then have "prev = None" "dk_single d = None" "dk_manifest d = None" using Inr read(2) assms(1) by (auto simp: file_saved_def)
      then have save: "save_base env s 1 ver (tick d) = (r, d')" and free: "holds env ver (tick d) None"
        using assms(4) rm read(1) Inr by (auto simp: save_full_for_def io_bind_def holds_def)
      from save_base_cases [OF free save law] show ?thesis using view None law by (auto simp: usize_max_def file_saved_def holds_def)
    next
      case (Some v)
      then obtain m base dls where com: "committed env ver d m base dls" "keys_distinct (ps_entries base)" "v = state_view (recovered base dls)"
        "persisted_ok (recovered base dls)" using assms(1) by (auto simp: file_saved_def)
      then have prev: "prev = Some m" using Inr read(3) by fastforce
      have gen: "current_generation m < usize_max" "base_generation m \<le> current_generation m"
        using assms(2) com(1) by (auto simp: file_room_def committed_def)
      have save: "save_base env s (Suc (current_generation m)) ver (tick d) = (r, d')"
        using assms(4) rm read(1) Inr prev gen(1) by (auto simp: save_full_for_def io_bind_def sat_add_def)
      have "holds env ver (tick d) (Some (m, base, dls))" using com(1) by (simp add: holds_def)
      from save_base_cases [OF this save law] gen
      have "(\<exists>e. r = Inl e) \<and> committed env ver d' m base dls \<or> (\<exists>m'. committed env ver d' m' s [])" by (auto simp: holds_def)
      then show ?thesis using view Some com law unfolding file_saved_def by auto
    qed
  qed
qed

definition reads_only :: "'a io \<Rightarrow> bool" where
  "reads_only m \<longleftrightarrow> (\<forall>d. same_files d (snd (m d)))"

lemma reads_only_bind: "reads_only m \<Longrightarrow> (\<And>x. reads_only (f x)) \<Longrightarrow> reads_only (io_bind m f)"
  unfolding reads_only_def
proof
  fix d
  assume m: "\<forall>d. same_files d (snd (m d))" and f: "\<And>x. \<forall>d. same_files d (snd (f x d))"
  obtain r d1 where md: "m d = (r, d1)" by fastforce
  have "same_files d d1" using m md by (metis snd_conv)
  then show "same_files d (snd (io_bind m f d))" using f by (cases r) (auto simp: io_bind_def md same_files_def)
qed

lemma reads_only_basic: "reads_only (fs_read env file)" "reads_only (io_lift r)" "reads_only (io_return x)"
  by (simp_all add: reads_only_def fs_read_def io_lift_def io_return_def same_files_def)

lemma reads_only_if: "reads_only a \<Longrightarrow> reads_only b \<Longrightarrow> reads_only (if c then a else b)"
  "reads_only a \<Longrightarrow> (\<And>x. reads_only (g x)) \<Longrightarrow> reads_only (case o' of None \<Rightarrow> a | Some x \<Rightarrow> g x)"
  "(\<And>x y. reads_only (h x y)) \<Longrightarrow> reads_only (case p of (x, y) \<Rightarrow> h x y)"
  by (simp_all split: option.split prod.split)

lemmas reads_only_rules = reads_only_bind reads_only_basic reads_only_if

lemma reads_only_deltas: "reads_only (load_deltas env ver gs o' s)"
proof (induction gs arbitrary: o' s)
  case (Cons g gs)
  show ?case unfolding load_deltas.simps read_segment_bytes_def by (intro reads_only_rules Cons.IH)
qed (simp add: reads_only_basic)

lemma load_for_same:
  assumes "load_for env ver d = (r, d')"
  shows "same_files d d'"
proof -
  have "reads_only (load_for env ver)"
    unfolding load_for_def load_from_def read_manifest_version_def read_segment_bytes_def
    by (intro reads_only_rules reads_only_deltas)
  then show ?thesis using assms by (metis reads_only_def snd_conv)
qed

lemma load_file_cases:
  assumes "file_saved env ver d c" "file_load env ver d = (r, d')"
  shows "file_saved env ver d' c \<and>
    (r = Inl IoOther \<or> (\<exists>s. r = Inr s \<and> map_option state_view s = c \<and> (\<forall>x. s = Some x \<longrightarrow> persisted_ok x)))"
proof -
  obtain rl d1 where rl: "load_for env ver d = (rl, d1)" by fastforce
  have "same_files d d1" using rl by (rule load_for_same)
  then have files: "file_saved env ver d1 c" "dk_single d1 = dk_single d"
    using assms(1) file_saved_same [of d d1 env ver c] by (simp_all add: same_files_def)
  show ?thesis
  proof (cases c)
    case None
    then have "rl = Inl IoOther \<or> rl = Inr None" "dk_single d = None"
      using rl assms(1) by (auto simp: file_saved_def load_for_def read_manifest_version_def io_bind_def fs_read_def io_return_def split: if_splits)
    then show ?thesis using assms(2) rl files None
      by (auto simp: file_load_def io_bind_def fs_read_def io_return_def split: if_splits)
  next
    case (Some v)
    then obtain m base dls where com: "committed env ver d m base dls" "v = state_view (recovered base dls)" "persisted_ok (recovered base dls)"
      using assms(1) by (auto simp: file_saved_def)
    then have "rl = Inl IoOther \<or> rl = Inr (Some (recovered base dls))" using load_committed [OF com(1)] rl by simp
    then show ?thesis using assms(2) rl files(1) Some com(2,3)
      by (auto simp: file_load_def io_bind_def io_return_def)
  qed
qed

lemma load_file:
  assumes "file_saved env ver d c" "file_load env ver d = (r, d')"
  shows "file_saved env ver d' c \<and>
    (\<forall>s. r = Inr s \<longrightarrow> map_option state_view s = c \<and> (\<forall>x. s = Some x \<longrightarrow> persisted_ok x))"
  using load_file_cases [OF assms] by auto

text \<open>Without a fault a load does not fail for want of the files.\<close>

definition io_clean :: "'a io \<Rightarrow> bool" where
  "io_clean m \<longleftrightarrow> (\<forall>d. fst (m d) \<noteq> Inl IoOther)"

definition quiet_files :: "('k, 'e, 'p) SnapEnv \<Rightarrow> ('k, 'e, 'p) SnapEnv" where
  "quiet_files env = env\<lparr>sn_fault := \<lambda>_. NoFault\<rparr>"

lemma io_clean_bind: "io_clean m \<Longrightarrow> (\<And>x. io_clean (f x)) \<Longrightarrow> io_clean (io_bind m f)"
  unfolding io_clean_def io_bind_def by (auto split: prod.split sum.split) (metis fst_conv)

lemma io_clean_basic: "io_clean (fs_read (quiet_files env) file)" "io_clean (io_return x)"
  "io_clean (io_lift (Inr y))" "io_clean (io_lift (Inl InvalidData))"
  "io_clean (io_lift (decode_version hash de bs magic ver))" "io_clean (io_lift (decode_snapshot_for de bs ver))"
  "io_clean (io_lift (decode_manifest env ver bs))"
  by (auto simp: io_clean_def fs_read_def io_return_def io_lift_def quiet_files_def decode_version_def decode_snapshot_for_def
      decode_manifest_def validate_manifest_def Let_def split: option.splits sum.splits if_splits)

lemma io_clean_if: "io_clean a \<Longrightarrow> io_clean b \<Longrightarrow> io_clean (if c then a else b)"
  "io_clean a \<Longrightarrow> (\<And>x. io_clean (g x)) \<Longrightarrow> io_clean (case o' of None \<Rightarrow> a | Some x \<Rightarrow> g x)"
  "(\<And>x y. io_clean (h x y)) \<Longrightarrow> io_clean (case p of (x, y) \<Rightarrow> h x y)"
  by (simp_all split: option.split prod.split)

lemmas io_clean_rules = io_clean_bind io_clean_basic io_clean_if

lemma io_clean_segment: "io_clean (read_segment_bytes (quiet_files env) kind g expected)"
proof -
  have "io_clean (io_lift (case f of None \<Rightarrow> Inl InvalidData
      | Some bs \<Rightarrow> (case expected of None \<Rightarrow> Inr bs | Some e \<Rightarrow> if length bs \<noteq> e then Inl InvalidData else Inr bs)))" for f :: "bytes option"
    by (auto simp: io_clean_def io_lift_def split: option.split)
  then show ?thesis unfolding read_segment_bytes_def by (intro io_clean_rules)
qed

lemma io_clean_deltas: "io_clean (load_deltas (quiet_files env) ver gs o' s)"
proof (induction gs arbitrary: o' s)
  case (Cons g gs)
  show ?case unfolding load_deltas.simps by (intro io_clean_rules io_clean_segment Cons.IH)
qed (simp add: io_clean_basic)

lemma io_clean_load: "io_clean (file_load (quiet_files env) ver)"
  unfolding file_load_def load_for_def load_from_def read_manifest_version_def
  by (intro io_clean_rules io_clean_segment io_clean_deltas)

lemma delta_files_quiet [simp]: "delta_files (quiet_files env) ver d g dls o' n = delta_files env ver d g dls o' n"
  by (induction dls arbitrary: g o') (simp_all add: quiet_files_def)

lemma file_saved_quiet [simp]: "file_saved (quiet_files env) ver d c = file_saved env ver d c"
proof -
  have "decode_manifest (quiet_files env) = decode_manifest env" by (simp add: fun_eq_iff decode_manifest_def quiet_files_def)
  then have com: "committed (quiet_files env) ver d m base dls = committed env ver d m base dls" for m base dls
    by (simp add: committed_def base_file_def) (simp add: quiet_files_def)
  have "snap_codec (quiet_files env) = snap_codec env" by (simp add: snap_codec_def quiet_files_def)
  then show ?thesis by (cases c) (simp_all add: file_saved_def com)
qed

lemma load_quiet:
  assumes "file_saved env ver d c"
  shows "\<exists>s. fst (file_load (quiet_files env) ver d) = Inr s \<and> map_option state_view s = c"
proof -
  obtain r d' where r: "file_load (quiet_files env) ver d = (r, d')" by fastforce
  then have "r \<noteq> Inl IoOther" using io_clean_load [of env ver] by (metis io_clean_def fst_conv)
  then show ?thesis using load_file_cases [of "quiet_files env" ver d c r d'] assms r by auto
qed

interpretation file_backend: snapshot_backend "file_load env ver" "\<lambda>dl. try_save_delta_for env dl ver" "\<lambda>s. save_full_for env s ver"
  "file_saved env ver" "file_room env ver" for env ver
  by unfold_locales (rule load_file try_save_delta_file(1) [OF _ _ _ refl] try_save_delta_file(2) [OF _ _ _ refl] save_file; assumption)+

section \<open>The in-memory backend\<close>

definition mem_load :: "('k, 'e, 'p) PersistedState option \<Rightarrow> (io_error + ('k, 'e, 'p) PersistedState option) \<times> ('k, 'e, 'p) PersistedState option" where
  "mem_load b = (Inr b, b)"

definition mem_save ::
  "('k, 'e, 'p) PersistedState \<Rightarrow> ('k, 'e, 'p) PersistedState option \<Rightarrow> (io_error + unit) \<times> ('k, 'e, 'p) PersistedState option" where
  "mem_save s b = (Inr (), Some s)"

text \<open>The default of the trait asks for a full save.\<close>

definition default_try_save_delta :: "('k, 'e, 'p) PersistenceDelta option \<Rightarrow> 'b \<Rightarrow> (io_error + bool) \<times> 'b" where
  "default_try_save_delta delta b = (Inr False, b)"

interpretation memory_backend: snapshot_backend mem_load default_try_save_delta mem_save
  "\<lambda>b c. map_option state_view b = c \<and> (\<forall>s. b = Some s \<longrightarrow> persisted_ok s)" "\<lambda>_. True"
  by unfold_locales (auto simp: mem_load_def mem_save_def default_try_save_delta_def)

end
