(* ===== verification/Persistence.thy ===== *)
theory Persistence
  imports MapApi SnapshotFile
begin

text \<open>
  Snapshots of a running replica (\<open>src/replicated_map/persistence.rs\<close>): freezing a generation, offering it
  to the backend, falling back to a full state, retiring what was saved, and loading on a restart.
  Writers run between any two of these steps, and every call of the backend can fail. The lemmas are
  proved once against the contract of a backend and hold for the file and the in-memory one.
\<close>

section \<open>Operations\<close>

text \<open>The \<open>Persistence\<close> trait object.\<close>

record ('k, 'e, 'p, 'b) Backend =
  bk_load :: "'b \<Rightarrow> (io_error + ('k, 'e, 'p) PersistedState option) \<times> 'b"
  bk_try_save_delta :: "('k, 'e, 'p) PersistenceDelta option \<Rightarrow> 'b \<Rightarrow> (io_error + bool) \<times> 'b"
  bk_save :: "('k, 'e, 'p) PersistedState \<Rightarrow> 'b \<Rightarrow> (io_error + unit) \<times> 'b"

record ('k, 'e, 's, 'p, 'c, 'b) Durable =
  du_store :: "('k, 'e, 's, 'p, 'c) Store"
  du_backend :: 'b
  last_snapshot_at :: "instant option"
  persistence_consecutive_failures :: nat

definition SNAPSHOT_CHUNK_SIZE :: nat where "SNAPSHOT_CHUNK_SIZE = 4096"
definition LOAD_RETRY_ATTEMPTS :: nat where "LOAD_RETRY_ATTEMPTS = 5"

text \<open>The pinned root is copied in chunks, each resuming after the last key of the one before.\<close>

definition after_cursor :: "'k::linorder option \<Rightarrow> ('k, 'e) kv \<Rightarrow> ('k, 'e) kv" where
  "after_cursor cursor m = (case cursor of None \<Rightarrow> m | Some l \<Rightarrow> filter (\<lambda>(k, _). l < k) m)"

lemma after_cursor_shrinks:
  assumes "take SNAPSHOT_CHUNK_SIZE (after_cursor cursor m) \<noteq> []"
  shows "length (after_cursor (Some (fst (last (take SNAPSHOT_CHUNK_SIZE (after_cursor cursor m))))) m) < length (after_cursor cursor m)"
proof -
  let ?x = "last (take SNAPSHOT_CHUNK_SIZE (after_cursor cursor m))"
  have x: "?x \<in> set (after_cursor cursor m)" using assms last_in_set in_set_takeD by fast
  have eq: "after_cursor (Some (fst ?x)) m = filter (\<lambda>(k, _). fst ?x < k) (after_cursor cursor m)"
    using x by (auto simp: after_cursor_def split: option.splits intro!: filter_cong)
  show ?thesis unfolding eq by (rule length_filter_less [OF x]) (simp add: split_beta)
qed

function collect_chunks :: "('k::linorder, 'e) kv \<Rightarrow> 'k option \<Rightarrow> ('k \<times> 'e) list" where
  "collect_chunks m cursor =
    (let chunk = take SNAPSHOT_CHUNK_SIZE (after_cursor cursor m)
     in if chunk = [] then [] else chunk @ collect_chunks m (Some (fst (last chunk))))"
  by pat_completeness auto

termination
  by (relation "measure (\<lambda>(m, cursor). length (after_cursor cursor m))") (auto simp: after_cursor_shrinks)

declare collect_chunks.simps [simp del]

definition collect_persisted_state :: "('k::linorder, 'e, 's, 'p, 'c) Store \<Rightarrow> ('k, 'e, 'p) PersistedState" where
  "collect_persisted_state st = persisted_new (collect_chunks (st_map st) None) (st_members st) (tombstone_acks st)"

definition snapshot_freeze :: "('k, 'e, 's, 'p, 'c) Store \<Rightarrow> ('k, 'e, 'p) SnapshotGeneration option \<times> ('k, 'e, 's, 'p, 'c) Store" where
  "snapshot_freeze st = (let (g, j) = freeze (snapshot_generations st) in (g, st\<lparr>snapshot_generations := j\<rparr>))"

definition counted_before_capture :: "('k, 'e, 'p) SnapshotGeneration option \<Rightarrow> nat" where
  "counted_before_capture g = (case g of None \<Rightarrow> 0 | Some gen \<Rightarrow> raw_changes gen)"

text \<open>The two ends of a snapshot: on success the saved changes are retired and the generation committed. The
  code asserts that the commit finds its generation, which \<open>commit_asserted\<close> below shows.\<close>

definition snapshot_success :: "instant \<Rightarrow> ('k, 'e, 'p) SnapshotGeneration option \<Rightarrow> ('k, 'e, 's, 'p, 'c, 'b) Durable \<Rightarrow> ('k, 'e, 's, 'p, 'c, 'b) Durable" where
  "snapshot_success now g du =
    (let st1 = retire_change_count (counted_before_capture g) (du_store du);
         st2 = (case g of None \<Rightarrow> st1 | Some gen \<Rightarrow> st1\<lparr>snapshot_generations := snd (commit (sg_id gen) (snapshot_generations st1))\<rparr>)
     in du\<lparr>du_store := st2, last_snapshot_at := Some now, persistence_consecutive_failures := 0\<rparr>)"

definition snapshot_failure :: "('k, 'e, 's, 'p, 'c, 'b) Durable \<Rightarrow> ('k, 'e, 's, 'p, 'c, 'b) Durable" where
  "snapshot_failure du = du\<lparr>persistence_consecutive_failures := (persistence_consecutive_failures du + 1) mod 2 ^ 64\<rparr>"

definition snapshot_inner ::
  "('k::linorder, 'e, 'p, 'b) Backend \<Rightarrow> instant \<Rightarrow> ('k, 'e, 's, 'p, 'c, 'b) Durable \<Rightarrow> (io_error + unit) \<times> ('k, 'e, 's, 'p, 'c, 'b) Durable" where
  "snapshot_inner bk now du =
    (let (g, st) = snapshot_freeze (du_store du);
         (r, b) = bk_try_save_delta bk (map_option persistence_delta g) (du_backend du);
         (result, b') = (case r of
            Inr True \<Rightarrow> (Inr (), b)
          | Inr False \<Rightarrow> bk_save bk (collect_persisted_state st) b
          | Inl e \<Rightarrow> (Inl e, b));
         du1 = du\<lparr>du_store := st, du_backend := b'\<rparr>
     in case result of Inr _ \<Rightarrow> (Inr (), snapshot_success now g du1) | Inl e \<Rightarrow> (Inl e, snapshot_failure du1))"

datatype PersistenceLoadError = Corrupt io_error | RetriesExhausted io_error

text \<open>\<open>attempt\<close> counts the failures so far.\<close>

function load_with_retries :: "('b \<Rightarrow> (io_error + 'a) \<times> 'b) \<Rightarrow> nat \<Rightarrow> 'b \<Rightarrow> (PersistenceLoadError + 'a) \<times> 'b" where
  "load_with_retries load attempt b =
    (let (r, b') = load b
     in case r of
          Inr s \<Rightarrow> (Inr s, b')
        | Inl e \<Rightarrow>
           if e = InvalidData then (Inl (Corrupt e), b')
           else if attempt + 1 < LOAD_RETRY_ATTEMPTS then load_with_retries load (attempt + 1) b'
           else (Inl (RetriesExhausted e), b'))"
  by pat_completeness auto

termination
  by (relation "measure (\<lambda>(load, attempt, b). LOAD_RETRY_ATTEMPTS - attempt)") (auto simp: LOAD_RETRY_ATTEMPTS_def)

declare load_with_retries.simps [simp del]

definition restore ::
  "('e, 't, 'v, 's, 'c) ReplicaEnv \<Rightarrow> Readings \<Rightarrow> ('k::linorder, 'e, 'p) PersistedState \<Rightarrow> ('k, 'e, 's, 'p, 'c) Store \<Rightarrow> ('k, 'e, 's, 'p, 'c) Store" where
  "restore env rd s st =
    (let st1 = st\<lparr>snapshot_generations := set_tracking_enabled False (snapshot_generations st),
                  st_members := ps_members s, tombstone_acks := ps_tombstone_acks s,
                  st_clock := foldl (\<lambda>c (_, e). ck_observe_trusted (re_clock env) (en_stamp (re_entry env) e) c) (st_clock st) (ps_entries s)\<rparr>;
         st2 = just_insert_bulk env rd (ps_entries s) st1;
         st3 = st2\<lparr>snapshot_generations := reset_clean (snapshot_generations st2)\<rparr>
     in retire_change_count (changes_since_snapshot st3) st3)"

definition with_persistence ::
  "('e, 't, 'v, 's, 'c) ReplicaEnv \<Rightarrow> Readings \<Rightarrow> ('k::linorder, 'e, 'p, 'b) Backend \<Rightarrow> 'b \<Rightarrow> ('k, 'e, 's, 'p, 'c) Store \<Rightarrow>
    PersistenceLoadError + ('k, 'e, 's, 'p, 'c, 'b) Durable" where
  "with_persistence env rd bk b st =
    (let (r, b') = load_with_retries (bk_load bk) 0 b
     in case r of
          Inl e \<Rightarrow> Inl e
        | Inr loaded \<Rightarrow>
           Inr \<lparr>du_store = (case loaded of None \<Rightarrow> st | Some s \<Rightarrow> restore env rd s st), du_backend = b',
                last_snapshot_at = None, persistence_consecutive_failures = 0\<rparr>)"

text \<open>One wake-up of the periodic task.\<close>

definition snapshot_wakeup ::
  "('k::linorder, 'e, 'p, 'b) Backend \<Rightarrow> nat \<Rightarrow> instant \<Rightarrow> ('k, 'e, 's, 'p, 'c, 'b) Durable \<Rightarrow> ('k, 'e, 's, 'p, 'c, 'b) Durable" where
  "snapshot_wakeup bk threshold now du =
    (if threshold \<le> changes_since_snapshot (du_store du) then snd (snapshot_inner bk now du) else du)"

section \<open>The state that is saved\<close>

lemma after_cursor_last:
  assumes "keys_sorted m" "after_cursor cursor m = xs @ ys" "xs \<noteq> []"
  shows "after_cursor (Some (fst (last xs))) m = ys"
proof -
  have sorted: "keys_sorted (after_cursor cursor m)"
    using assms(1) by (auto simp: after_cursor_def sorted_wrt_map sorted_wrt_filter split: option.split)
  let ?l = "fst (last xs)"
  have inx: "last xs \<in> set (after_cursor cursor m)" using assms(2,3) by simp
  have eq: "after_cursor (Some ?l) m = filter (\<lambda>(k, _). ?l < k) (after_cursor cursor m)"
    using inx by (auto simp: after_cursor_def split: option.splits intro!: filter_cong)
  have xs: "p \<in> set xs \<Longrightarrow> fst p \<le> ?l" for p
    using sorted assms(2,3) by (induction xs arbitrary: cursor rule: rev_induct) (auto simp: sorted_wrt_append)
  have ys: "p \<in> set ys \<Longrightarrow> ?l < fst p" for p
    using sorted assms(2,3) by (auto simp: sorted_wrt_append)
  have "filter (\<lambda>(k, _). ?l < k) xs = []" by (auto simp: filter_empty_conv dest!: xs)
  moreover have "filter (\<lambda>(k, _). ?l < k) ys = ys" using ys by (auto simp: filter_id_conv)
  ultimately show ?thesis unfolding eq assms(2) by simp
qed

text \<open>The chunks put together are the map.\<close>

lemma collect_chunks_after: "keys_sorted m \<Longrightarrow> collect_chunks m cursor = after_cursor cursor m"
proof (induction m cursor rule: collect_chunks.induct)
  case (1 m cursor)
  let ?c = "take SNAPSHOT_CHUNK_SIZE (after_cursor cursor m)" and ?d = "drop SNAPSHOT_CHUNK_SIZE (after_cursor cursor m)"
  show ?case
  proof (cases "?c = []")
    case True
    then show ?thesis by (simp add: collect_chunks.simps [of m cursor] SNAPSHOT_CHUNK_SIZE_def)
  next
    case False
    have "after_cursor (Some (fst (last ?c))) m = ?d" using after_cursor_last [OF 1(2), of cursor ?c ?d] False by simp
    then show ?thesis using 1 False by (simp add: collect_chunks.simps [of m cursor] Let_def)
  qed
qed

lemma collect_view:
  assumes "store_ok env st"
  shows "state_view (collect_persisted_state st) = runtime_view st" "persisted_ok (collect_persisted_state st)"
proof -
  have "keys_sorted (st_map st)" using assms by (simp add: store_ok_def)
  then have "collect_chunks (st_map st) None = st_map st" by (simp add: collect_chunks_after after_cursor_def)
  then show "state_view (collect_persisted_state st) = runtime_view st" "persisted_ok (collect_persisted_state st)"
    using assms keys_sorted_distinct [OF \<open>keys_sorted (st_map st)\<close>]
    by (simp_all add: collect_persisted_state_def persisted_new_def state_view_def state_parts_def runtime_view_def
        store_ok_def persisted_ok_def parts_ok_def)
qed

section \<open>Snapshots among writers\<close>

text \<open>Where a snapshot stands when a writer gets in between. The snapshot lock admits one at a time.\<close>

datatype ('k, 'e, 'p) phase =
    Idle
  | Deciding "('k, 'e, 'p) SnapshotGeneration option"
  | Collecting "('k, 'e, 'p) SnapshotGeneration option"
  | Writing "('k, 'e, 'p) SnapshotGeneration option" "('k, 'e, 'p) PersistedState"
  | Committing "('k, 'e, 'p) SnapshotGeneration option"

text \<open>The backend must have a free generation number when it is asked to save.\<close>

inductive snap_step ::
  "('e, 't::linorder, 'v, 's, 'c) ReplicaEnv \<Rightarrow> ('k::linorder, 'e, 'p, 'b) Backend \<Rightarrow> ('b \<Rightarrow> bool) \<Rightarrow>
    ('k, 'e, 's, 'p, 'c, 'b) Durable \<times> ('k, 'e, 'p) phase \<Rightarrow> ('k, 'e, 's, 'p, 'c, 'b) Durable \<times> ('k, 'e, 'p) phase \<Rightarrow> bool"
  for env bk room where
  mutate: "snap_step env bk room (du, ph) (du\<lparr>du_store := apply_op env rd op (du_store du)\<rparr>, ph)"
| begin_snapshot: "snapshot_freeze (du_store du) = (g, st) \<Longrightarrow> snap_step env bk room (du, Idle) (du\<lparr>du_store := st\<rparr>, Deciding g)"
| delta: "bk_try_save_delta bk (map_option persistence_delta g) (du_backend du) = (r, b) \<Longrightarrow> room (du_backend du) \<Longrightarrow>
    snap_step env bk room (du, Deciding g)
      (case r of
         Inr True \<Rightarrow> (du\<lparr>du_backend := b\<rparr>, Committing g)
       | Inr False \<Rightarrow> (du\<lparr>du_backend := b\<rparr>, Collecting g)
       | Inl e \<Rightarrow> (snapshot_failure (du\<lparr>du_backend := b\<rparr>), Idle))"
| cut: "snap_step env bk room (du, Collecting g) (du, Writing g (collect_persisted_state (du_store du)))"
| save: "bk_save bk s (du_backend du) = (r, b) \<Longrightarrow> room (du_backend du) \<Longrightarrow>
    snap_step env bk room (du, Writing g s)
      (case r of
         Inr _ \<Rightarrow> (du\<lparr>du_backend := b\<rparr>, Committing g)
       | Inl e \<Rightarrow> (snapshot_failure (du\<lparr>du_backend := b\<rparr>), Idle))"
| finish: "snap_step env bk room (du, Committing g) (snapshot_success now g du, Idle)"

inductive_simps snap_step_idle: "snap_step env bk room (du, Idle) x"

text \<open>Without writers in between the steps are the function.\<close>

lemma snapshot_inner_steps:
  assumes "room (du_backend du)" "room (snd (bk_try_save_delta bk (map_option persistence_delta (fst (snapshot_freeze (du_store du)))) (du_backend du)))"
  shows "(snap_step env bk room)\<^sup>*\<^sup>* (du, Idle) (snd (snapshot_inner bk now du), Idle)"
proof -
  obtain g st where f: "snapshot_freeze (du_store du) = (g, st)" by fastforce
  let ?d0 = "du\<lparr>du_store := st\<rparr>"
  obtain r b where r: "bk_try_save_delta bk (map_option persistence_delta g) (du_backend du) = (r, b)" by fastforce
  let ?d1 = "?d0\<lparr>du_backend := b\<rparr>"
  have s1: "(snap_step env bk room)\<^sup>*\<^sup>* (du, Idle) (?d0, Deciding g)" using begin_snapshot [OF f] by blast
  have s2: "snap_step env bk room (?d0, Deciding g)
      (case r of Inr True \<Rightarrow> (?d1, Committing g) | Inr False \<Rightarrow> (?d1, Collecting g) | Inl e \<Rightarrow> (snapshot_failure ?d1, Idle))"
    using delta [of bk g ?d0 r b room env] r assms(1) by simp
  show ?thesis
  proof (cases r)
    case (Inl e)
    then show ?thesis using rtranclp.rtrancl_into_rtrancl [OF s1 s2] f r by (simp add: snapshot_inner_def)
  next
    case (Inr ok)
    show ?thesis
    proof (cases ok)
      case True
      then have "(snap_step env bk room)\<^sup>*\<^sup>* (du, Idle) (?d1, Committing g)" using rtranclp.rtrancl_into_rtrancl [OF s1 s2] Inr by simp
      from rtranclp.rtrancl_into_rtrancl [OF this finish [of env bk room ?d1 g now]] show ?thesis
        using f r Inr True by (simp add: snapshot_inner_def)
    next
      case False
      let ?s = "collect_persisted_state st"
      obtain r2 b2 where sv: "bk_save bk ?s b = (r2, b2)" by fastforce
      let ?d2 = "?d1\<lparr>du_backend := b2\<rparr>"
      have "(snap_step env bk room)\<^sup>*\<^sup>* (du, Idle) (?d1, Collecting g)" using rtranclp.rtrancl_into_rtrancl [OF s1 s2] Inr False by simp
      from rtranclp.rtrancl_into_rtrancl [OF this cut] have s3: "(snap_step env bk room)\<^sup>*\<^sup>* (du, Idle) (?d1, Writing g ?s)" by simp
      have s4: "snap_step env bk room (?d1, Writing g ?s) (case r2 of Inr _ \<Rightarrow> (?d2, Committing g) | Inl e \<Rightarrow> (snapshot_failure ?d2, Idle))"
        using save [of bk ?s ?d1 r2 b2 room env g] sv assms(2) f r by simp
      note s5 = rtranclp.rtrancl_into_rtrancl [OF s3 s4]
      show ?thesis
      proof (cases r2)
        case (Inl e)
        then show ?thesis using s5 f r Inr False sv by (simp add: snapshot_inner_def)
      next
        case (Inr u)
        then have "(snap_step env bk room)\<^sup>*\<^sup>* (du, Idle) (?d2, Committing g)" using s5 by simp
        from rtranclp.rtrancl_into_rtrancl [OF this finish [of env bk room ?d2 g now]] show ?thesis
          using f r \<open>r = Inr ok\<close> False sv Inr by (simp add: snapshot_inner_def)
      qed
    qed
  qed
qed

section \<open>No write is lost\<close>

text \<open>A durable view \<open>v\<close> is behind the replica by what the journal still holds: the open generation alone
  (after a save), or the frozen one and then the open one.\<close>

definition behind :: "('k, 'e, 'p) view \<Rightarrow> ('k, 'e, 's, 'p, 'c) Store \<Rightarrow> bool" where
  "behind v st \<longleftrightarrow> pending (snapshot_generations st) v = runtime_view st"

definition behind_open :: "('k, 'e, 'p) view \<Rightarrow> ('k, 'e, 's, 'p, 'c) Store \<Rightarrow> bool" where
  "behind_open v st \<longleftrightarrow> eff (open_gen (snapshot_generations st)) v = runtime_view st"

lemma sound_behind:
  assumes "sound env st st'" "store_ok env st"
  shows "behind v st \<Longrightarrow> behind v st'" "behind_open v st \<Longrightarrow> behind_open v st'" "store_ok env st'"
    "frozen (snapshot_generations st') = frozen (snapshot_generations st)"
  using assms by (auto simp: sound_def behind_def behind_open_def pending_def eff_frozen_def simp del: split_paired_All)

lemma behind_cut:
  assumes "behind v st"
  shows "behind (runtime_view st) st" "behind_open (runtime_view st) st"
  using assms by (auto simp: behind_def behind_open_def pending_def eff_frozen_def split: option.splits) (metis eff_pair_idem eff_idem)+

lemma eff_renamed [simp]: "eff (g\<lparr>sg_id := n\<rparr>) v = eff g v"
  by (simp add: eff_def)

lemma freeze_behind:
  assumes "snapshot_freeze st = (g, st')" "store_ok env st"
  shows "store_ok env st'" "frozen (snapshot_generations st') = g" "behind v st' = behind v st" "runtime_view st' = runtime_view st"
proof -
  obtain j where f: "freeze (snapshot_generations st) = (g, j)" "st' = st\<lparr>snapshot_generations := j\<rparr>"
    using assms(1) by (auto simp: snapshot_freeze_def split: prod.splits)
  have "journal_ok (snapshot_generations st)" using assms(2) by (simp add: store_ok_def)
  note fp = freeze_pending [OF this f(1)]
  show "store_ok env st'" "frozen (snapshot_generations st') = g" "behind v st' = behind v st" "runtime_view st' = runtime_view st"
    using assms(2) fp by (auto simp: f(2) store_ok_def behind_def runtime_view_def)
qed

lemma success_behind:
  assumes "store_ok env (du_store du)" "frozen (snapshot_generations (du_store du)) = g" "behind_open v (du_store du)"
  shows "store_ok env (du_store (snapshot_success now g du))" "behind v (du_store (snapshot_success now g du))"
    "frozen (snapshot_generations (du_store (snapshot_success now g du))) = None"
proof -
  let ?st = "du_store du" and ?st' = "du_store (snapshot_success now g du)"
  have j: "journal_ok (snapshot_generations ?st)" using assms(1) by (simp add: store_ok_def)
  have "snapshot_generations ?st' = (case g of None \<Rightarrow> snapshot_generations ?st | Some gen \<Rightarrow> snd (commit (sg_id gen) (snapshot_generations ?st)))"
    by (simp add: snapshot_success_def Let_def retire_change_count_def split: option.split)
  moreover have "g = Some gen \<Longrightarrow> let s' = snd (commit (sg_id gen) (snapshot_generations ?st)) in
      journal_ok s' \<and> frozen s' = None \<and> open_gen s' = open_gen (snapshot_generations ?st)" for gen
    using commit_pending [OF j, of gen, OF _ prod.collapse [symmetric]] assms(2) by (simp add: Let_def)
  ultimately have g': "journal_ok (snapshot_generations ?st') \<and> frozen (snapshot_generations ?st') = None \<and>
      open_gen (snapshot_generations ?st') = open_gen (snapshot_generations ?st)"
    using j assms(2) by (cases g) (simp_all add: Let_def)
  have rest: "st_map ?st' = st_map ?st" "st_projection ?st' = st_projection ?st" "live_tombstones ?st' = live_tombstones ?st"
    "tombstone_acks ?st' = tombstone_acks ?st" "st_members ?st' = st_members ?st"
    by (simp_all add: snapshot_success_def Let_def retire_change_count_def split: option.split)
  show "store_ok env ?st'" "behind v ?st'" "frozen (snapshot_generations ?st') = None"
    using assms g' by (simp_all add: store_ok_def behind_def behind_open_def pending_def eff_frozen_def runtime_view_def rest)
qed

section \<open>A restored replica holds the saved state\<close>

text \<open>An insert into the map does the same whatever the journal holds.\<close>

lemma inserts_any_journal:
  "(foldl (\<lambda>s (k, e). snd (map_insert env k e s)) st kvs)\<lparr>snapshot_generations := j\<rparr> =
    (foldl (\<lambda>s (k, e). snd (map_insert env k e s)) (st\<lparr>snapshot_generations := j'\<rparr>) kvs)\<lparr>snapshot_generations := j\<rparr>"
proof (induction kvs arbitrary: st j')
  case (Cons p kvs)
  obtain k e where p: "p = (k, e)" by (cases p)
  have "snd (map_insert env k e (st\<lparr>snapshot_generations := j'\<rparr>)) = (snd (map_insert env k e st))\<lparr>snapshot_generations := record_entry k e j'\<rparr>"
    by (simp add: map_insert_def)
  then show ?case using Cons.IH [of "snd (map_insert env k e st)" "record_entry k e j'"] by (simp add: p)
qed simp

lemma inserts_map:
  assumes "keys_sorted (st_map st)"
  shows "map_of (st_map (foldl (\<lambda>s (k, e). snd (map_insert env k e s)) st kvs)) = map_of (st_map st) ++ map_of (rev kvs) \<and>
    keys_sorted (st_map (foldl (\<lambda>s (k, e). snd (map_insert env k e s)) st kvs))"
    "st_members (foldl (\<lambda>s (k, e). snd (map_insert env k e s)) st kvs) = st_members st"
    "tombstone_acks (foldl (\<lambda>s (k, e). snd (map_insert env k e s)) st kvs) = tombstone_acks st"
proof -
  show "map_of (st_map (foldl (\<lambda>s (k, e). snd (map_insert env k e s)) st kvs)) = map_of (st_map st) ++ map_of (rev kvs) \<and>
    keys_sorted (st_map (foldl (\<lambda>s (k, e). snd (map_insert env k e s)) st kvs))"
    using assms by (induction kvs rule: rev_induct) (auto simp: map_insert_def)
  show "st_members (foldl (\<lambda>s (k, e). snd (map_insert env k e s)) st kvs) = st_members st"
    "tombstone_acks (foldl (\<lambda>s (k, e). snd (map_insert env k e s)) st kvs) = tombstone_acks st"
    by (induction kvs rule: rev_induct) (auto simp: map_insert_def)
qed

lemma restored:
  assumes "persisted_ok s"
  shows "store_ok env (restore env rd s (store_new clock window repair))"
    "runtime_view (restore env rd s (store_new clock window repair)) = state_view s"
    "pending (snapshot_generations (restore env rd s (store_new clock window repair))) v = v"
proof -
  let ?es = "ps_entries s" and ?st = "restore env rd s (store_new clock window repair)"
  define st1 where "st1 = foldl (\<lambda>st (k, e). pre_insert env rd k e st)
    ((store_new clock window repair)\<lparr>snapshot_generations := set_tracking_enabled False generations_default,
       st_members := ps_members s, tombstone_acks := ps_tombstone_acks s,
       st_clock := foldl (\<lambda>c (_, e). ck_observe_trusted (re_clock env) (en_stamp (re_entry env) e) c) clock ?es\<rparr>) ?es"
  define st2 where "st2 = foldl (\<lambda>st (k, e). snd (map_insert env k e st)) (st1\<lparr>snapshot_generations := generations_default\<rparr>) ?es"
  define j where "j = snapshot_generations ?st"
  have core1: "core st1 = ([], [], [], ps_tombstone_acks s, ps_members s, set_tracking_enabled False generations_default)"
    unfolding st1_def core_hooks by (simp add: core_def store_new_def)
  have ok1: "store_ok env (st1\<lparr>snapshot_generations := generations_default\<rparr>)"
    using assms core1 by (auto simp: store_ok_def core_def persisted_ok_def parts_ok_def state_parts_def journal_ok_def generations_default_def)
  have ok2: "store_ok env st2" using ok1 sound_inserts [of env "st1\<lparr>snapshot_generations := generations_default\<rparr>" ?es] by (simp add: st2_def sound_def)
  obtain j0 where j: "j = reset_clean j0" by (simp add: j_def restore_def Let_def retire_change_count_def)
  have core2: "core ?st = core (st2\<lparr>snapshot_generations := j\<rparr>)"
    using inserts_any_journal [where env = env and st = st1 and kvs = ?es and j = j and j' = generations_default]
    by (simp add: st2_def j_def restore_def Let_def retire_change_count_def just_insert_bulk_def record_changes_def st1_def store_new_def core_def)
  have "store_ok env (st2\<lparr>snapshot_generations := j\<rparr>)" using ok2 reset_clean_ok(1) [of j0] by (simp add: store_ok_def j)
  then show "store_ok env ?st" unfolding core_frame(1) [OF core2] .
  have "keys_distinct ?es" using assms by (rule persisted_ok_entries)
  then have "map_of (rev ?es) = map_of ?es" by (subst map_of_inject_set) (simp_all add: rev_map [symmetric])
  then show "runtime_view ?st = state_view s"
    using inserts_map [of "st1\<lparr>snapshot_generations := generations_default\<rparr>" env ?es] core1 core_frame(2) [OF core2]
    by (simp add: runtime_view_def st2_def core_def state_view_def state_parts_def view_of_def)
  show "pending (snapshot_generations ?st) v = v" using reset_clean_ok(2) [of j0] j by (simp add: j_def)
qed

declare split_paired_Ex [simp del] split_paired_All [simp del]

text \<open>What holds between any two steps, for a backend that reads back \<open>saved\<close>.\<close>

definition snap_inv ::
  "('e, 't, 'v, 's, 'c) ReplicaEnv \<Rightarrow> ('b \<Rightarrow> ('k, 'e, 'p) view option \<Rightarrow> bool) \<Rightarrow> ('k::linorder, 'e, 's, 'p, 'c, 'b) Durable \<Rightarrow> ('k, 'e, 'p) phase \<Rightarrow> bool" where
  "snap_inv env saved du ph \<longleftrightarrow> store_ok env (du_store du) \<and>
    (\<exists>c v. saved (du_backend du) c \<and> (c = None \<or> c = Some v) \<and> behind v (du_store du) \<and> (c = None \<longrightarrow> last_snapshot_at du = None) \<and>
      (case ph of
         Idle \<Rightarrow> True
       | Deciding g \<Rightarrow> frozen (snapshot_generations (du_store du)) = g
       | Collecting g \<Rightarrow> frozen (snapshot_generations (du_store du)) = g
       | Writing g s \<Rightarrow> frozen (snapshot_generations (du_store du)) = g \<and> persisted_ok s \<and>
           behind (state_view s) (du_store du) \<and> behind_open (state_view s) (du_store du)
       | Committing g \<Rightarrow> frozen (snapshot_generations (du_store du)) = g \<and> c = Some v \<and> behind_open v (du_store du)))"

lemma commit_asserted:
  assumes "snap_inv env saved du (Committing (Some gen))"
  shows "fst (commit (sg_id gen) (snapshot_generations (du_store du)))"
  using assms by (auto simp: snap_inv_def commit_def)

locale ordered_backend = snapshot_backend load try_save_delta save saved room
  for load :: "'b \<Rightarrow> (io_error + ('k::linorder, 'e, 'p) PersistedState option) \<times> 'b"
    and try_save_delta :: "('k, 'e, 'p) PersistenceDelta option \<Rightarrow> 'b \<Rightarrow> (io_error + bool) \<times> 'b"
    and save :: "('k, 'e, 'p) PersistedState \<Rightarrow> 'b \<Rightarrow> (io_error + unit) \<times> 'b"
    and saved :: "'b \<Rightarrow> ('k, 'e, 'p) view option \<Rightarrow> bool"
    and room :: "'b \<Rightarrow> bool"
begin

text \<open>Offering the frozen generation.\<close>

lemma delta_keeps:
  assumes "saved b c" "c = None \<or> c = Some v" "behind v st" "store_ok env st" "frozen (snapshot_generations st) = g" "room b"
    and "try_save_delta (map_option persistence_delta g) b = (r, b')"
  shows "\<exists>c' v'. saved b' c' \<and> (c' = None \<or> c' = Some v') \<and> behind v' st \<and> (c' = None \<longrightarrow> c = None) \<and> (r = Inr True \<longrightarrow> c' = Some v' \<and> behind_open v' st)"
proof (cases g)
  case None
  then have "saved b' c \<and> (r = Inr True \<longrightarrow> c \<noteq> None)" using none_law [OF assms(1,6)] assms(7) by simp
  moreover have "behind_open v st" using assms(3,5) None by (simp add: behind_def behind_open_def pending_def eff_frozen_def)
  ultimately show ?thesis using assms(2,3) by blast
next
  case (Some gen)
  then have ok: "generation_ok gen" using assms(4,5) by (simp add: store_ok_def journal_ok_def)
  have gone: "behind (eff gen v) st" "behind_open (eff gen v) st"
    using assms(3,5) Some by (simp_all add: behind_def behind_open_def pending_def eff_frozen_def)
  from delta_law [OF assms(1,6) ok, of r b'] assms(7) Some
  have "r \<noteq> Inr True \<and> saved b' c \<or> r \<noteq> Inr False \<and> (\<exists>v. c = Some v \<and> saved b' (Some (eff gen v)))" by simp
  then show ?thesis
  proof
    assume "r \<noteq> Inr True \<and> saved b' c"
    then show ?thesis using assms(2,3) by blast
  next
    assume "r \<noteq> Inr False \<and> (\<exists>v. c = Some v \<and> saved b' (Some (eff gen v)))"
    then have "saved b' (Some (eff gen v))" using assms(2) by auto
    then show ?thesis using gone by blast
  qed
qed

lemma step_inv:
  assumes "snap_step env \<lparr>bk_load = load, bk_try_save_delta = try_save_delta, bk_save = save\<rparr> room x y"
    and "entry_laws (re_entry env)" "snap_inv env saved (fst x) (snd x)"
  shows "snap_inv env saved (fst y) (snd y)"
  using assms(1,3)
proof cases
  case (mutate du ph rd op)
  have ok: "store_ok env (du_store du)" using assms(3) mutate by (simp add: snap_inv_def)
  note b = sound_behind [OF sound_apply_op [OF assms(2), of "du_store du" rd op] ok]
  show ?thesis using assms(3) mutate b unfolding snap_inv_def by (cases ph) (simp; blast)+
next
  case (begin_snapshot du g st)
  have ok: "store_ok env (du_store du)" using assms(3) begin_snapshot by (simp add: snap_inv_def)
  note f = freeze_behind [OF begin_snapshot(3) ok]
  show ?thesis using assms(3) begin_snapshot f unfolding snap_inv_def by simp
next
  case (delta g du r b)
  then obtain c v where c: "saved (du_backend du) c" "c = None \<or> c = Some v" "behind v (du_store du)" "store_ok env (du_store du)"
    "frozen (snapshot_generations (du_store du)) = g" "c = None \<longrightarrow> last_snapshot_at du = None" using assms(3) by (auto simp: snap_inv_def)
  from delta_keeps [OF c(1-5)] delta obtain c' v' where n: "saved b c'" "c' = None \<or> c' = Some v'" "behind v' (du_store du)"
    "c' = None \<longrightarrow> c = None" "r = Inr True \<longrightarrow> c' = Some v' \<and> behind_open v' (du_store du)" by auto
  show ?thesis
  proof (cases r)
    case (Inl e)
    then show ?thesis using n c(4,6) delta by (auto simp: snap_inv_def snapshot_failure_def)
  next
    case (Inr ok)
    then show ?thesis using n c(4-6) delta by (cases ok) (auto simp: snap_inv_def)
  qed
next
  case (cut du g)
  then obtain c v where c: "saved (du_backend du) c" "c = None \<or> c = Some v" "behind v (du_store du)" "store_ok env (du_store du)"
    "frozen (snapshot_generations (du_store du)) = g" "c = None \<longrightarrow> last_snapshot_at du = None" using assms(3) by (auto simp: snap_inv_def)
  then show ?thesis using cut collect_view [OF c(4)] behind_cut [OF c(3)] by (auto simp: snap_inv_def)
next
  case (save s du r b g)
  then obtain c v where c: "saved (du_backend du) c" "c = None \<or> c = Some v" "behind v (du_store du)" "store_ok env (du_store du)"
    "frozen (snapshot_generations (du_store du)) = g" "persisted_ok s" "behind (state_view s) (du_store du)" "behind_open (state_view s) (du_store du)"
    "c = None \<longrightarrow> last_snapshot_at du = None"
    using assms(3) by (auto simp: snap_inv_def)
  have "(\<exists>e. r = Inl e) \<and> saved b c \<or> saved b (Some (state_view s))" using save_law [OF c(1) _ c(6)] save by simp
  then show ?thesis using c save by (cases r) (auto simp: snap_inv_def snapshot_failure_def)
next
  case (finish du g now)
  then obtain v where "saved (du_backend du) (Some v)" "store_ok env (du_store du)" "frozen (snapshot_generations (du_store du)) = g"
    "behind_open v (du_store du)" using assms(3) by (auto simp: snap_inv_def)
  moreover have "du_backend (snapshot_success now g du) = du_backend du" by (simp add: snapshot_success_def Let_def)
  ultimately show ?thesis using success_behind [of env du g v now] finish by (auto simp: snap_inv_def)
qed

lemma steps_inv:
  assumes "(snap_step env \<lparr>bk_load = load, bk_try_save_delta = try_save_delta, bk_save = save\<rparr> room)\<^sup>*\<^sup>* x y"
    and "entry_laws (re_entry env)" "snap_inv env saved (fst x) (snd x)"
  shows "snap_inv env saved (fst y) (snd y)"
  using assms by (induction rule: rtranclp_induct) (auto intro: step_inv)

text \<open>A load that is retried returns what was saved, or an error.\<close>

lemma retries_saved:
  assumes "saved b c" "load_with_retries load attempt b = (Inr s, b')"
  shows "saved b' c \<and> map_option state_view s = c \<and> (\<forall>x. s = Some x \<longrightarrow> persisted_ok x)"
  using assms
proof (induction "LOAD_RETRY_ATTEMPTS - attempt" arbitrary: attempt b rule: less_induct)
  case less
  obtain r b1 where r: "load b = (r, b1)" by fastforce
  note kept = load_law [OF less.prems(1) r]
  show ?case
  proof (cases r)
    case (Inr x)
    then show ?thesis using less.prems(2) r kept by (simp add: load_with_retries.simps [of load attempt])
  next
    case (Inl e)
    then have again: "attempt + 1 < LOAD_RETRY_ATTEMPTS" "load_with_retries load (attempt + 1) b1 = (Inr s, b')"
      using less.prems(2) r by (auto simp: load_with_retries.simps [of load attempt] split: if_splits)
    then have "LOAD_RETRY_ATTEMPTS - (attempt + 1) < LOAD_RETRY_ATTEMPTS - attempt" by simp
    from less.hyps [OF this _ again(2)] kept show ?thesis by blast
  qed
qed

text \<open>A replica opened on a backend holds what was saved there, with nothing left to save.\<close>

lemma opened:
  assumes "saved b c"
    and "with_persistence env rd \<lparr>bk_load = load, bk_try_save_delta = try_save_delta, bk_save = save\<rparr> b (store_new clock window repair) = Inr du"
  shows "snap_inv env saved du Idle" "saved (du_backend du) c" "c = Some v \<Longrightarrow> runtime_view (du_store du) = v"
    "c = None \<Longrightarrow> runtime_view (du_store du) = view_of ([], [], [])"
proof -
  obtain s b' where l: "load_with_retries load 0 b = (Inr s, b')" and st: "du_store du =
      (case s of None \<Rightarrow> store_new clock window repair | Some x \<Rightarrow> restore env rd x (store_new clock window repair))" "du_backend du = b'"
    and fresh: "last_snapshot_at du = None"
    using assms(2) by (auto simp: with_persistence_def split: prod.splits sum.splits)
  note k = retries_saved [OF assms(1) l]
  show "saved (du_backend du) c" using k st by simp
  show "c = Some v \<Longrightarrow> runtime_view (du_store du) = v" using k st restored(2) by fastforce
  show "c = None \<Longrightarrow> runtime_view (du_store du) = view_of ([], [], [])"
    using k st by (simp add: runtime_view_def store_new_def view_of_def)
  show "snap_inv env saved du Idle"
  proof (cases s)
    case None
    then have "behind (runtime_view (du_store du)) (du_store du)" "store_ok env (du_store du)"
      using st store_new_ok(1) by (simp_all add: behind_def store_new_def pending_def eff_frozen_def generations_default_def)
    then show ?thesis using None k st fresh by (auto simp: snap_inv_def)
  next
    case (Some x)
    then have "persisted_ok x" "c = Some (state_view x)" using k by auto
    moreover have "behind (state_view x) (du_store du)" "store_ok env (du_store du)"
      using restored(1) [OF \<open>persisted_ok x\<close>, of env rd clock window repair] restored(2) [OF \<open>persisted_ok x\<close>, of env rd clock window repair]
        restored(3) [OF \<open>persisted_ok x\<close>, of env rd clock window repair "state_view x"] st Some by (simp_all add: behind_def)
    ultimately show ?thesis using k st by (auto simp: snap_inv_def)
  qed
qed

text \<open>What a successful snapshot made durable: the whole state, unless an earlier snapshot had failed and
  left its generation frozen; then possibly that generation only, on top of what was saved.\<close>

lemma snapshot_exact:
  assumes "snap_inv env saved du Idle" "room (du_backend du)"
    and "\<And>g r b. fst (snapshot_freeze (du_store du)) = g \<Longrightarrow>
      try_save_delta (map_option persistence_delta g) (du_backend du) = (r, b) \<Longrightarrow> room b"
    and "snapshot_inner \<lparr>bk_load = load, bk_try_save_delta = try_save_delta, bk_save = save\<rparr> now du = (Inr (), du')"
  shows "saved (du_backend du') (Some (runtime_view (du_store du))) \<or>
    (\<exists>g v. frozen (snapshot_generations (du_store du)) = Some g \<and> saved (du_backend du) (Some v) \<and> saved (du_backend du') (Some (eff g v)))"
proof -
  let ?st = "du_store du"
  obtain c v where c: "saved (du_backend du) c" "c = None \<or> c = Some v" "behind v ?st" "store_ok env ?st"
    using assms(1) by (auto simp: snap_inv_def)
  obtain g st where f: "snapshot_freeze ?st = (g, st)" by fastforce
  note fr = freeze_behind [OF f c(4)]
  obtain r b where r: "try_save_delta (map_option persistence_delta g) (du_backend du) = (r, b)" by fastforce
  have room: "room b" using assms(3) f r by simp
  have b': "r = Inr True \<Longrightarrow> du_backend du' = b" "r = Inr False \<Longrightarrow> save (collect_persisted_state st) b = (Inr (), du_backend du')"
    "r = Inr True \<or> r = Inr False"
    using assms(4) f r by (auto simp: snapshot_inner_def snapshot_success_def Let_def split: sum.splits prod.splits bool.splits)
  from delta_keeps [OF c(1,2) _ fr(1,2) assms(2) r] fr(3) c(3)
  obtain c' v' where k: "saved b c'" "r = Inr True \<longrightarrow> c' = Some v' \<and> behind_open v' st" by auto
  show ?thesis
  proof (cases "r = Inr True")
    case False
    then have sv: "save (collect_persisted_state st) b = (Inr (), du_backend du')" using b' by blast
    note cv = collect_view [OF fr(1)]
    show ?thesis using save_law [OF k(1) room cv(2) sv] cv(1) fr(4) by auto
  next
    case True
    show ?thesis
    proof (cases g)
      case None
      then have "saved b c \<and> c \<noteq> None" using none_law [OF c(1) assms(2)] r True by simp
      moreover have "v = runtime_view ?st"
        using f None c(3,4) by (auto simp: snapshot_freeze_def freeze_def behind_def pending_def eff_frozen_def store_ok_def journal_ok_def Let_def
            split: option.splits if_splits prod.splits)
      ultimately show ?thesis using c(2) b'(1) True by auto
    next
      case (Some gen)
      then have "generation_ok gen" using fr(1,2) by (simp add: store_ok_def journal_ok_def)
      from delta_law [OF c(1) assms(2) this, of r b] r True Some c(2) have sv: "saved (du_backend du') (Some (eff gen v))" "c = Some v"
        using b'(1) by auto
      show ?thesis
      proof (cases "frozen (snapshot_generations ?st)")
        case None
        then have "eff gen v = runtime_view ?st"
          using f Some c(3) by (auto simp: snapshot_freeze_def freeze_def behind_def pending_def eff_frozen_def Let_def
              split: option.splits if_splits prod.splits)
        then show ?thesis using sv by simp
      next
        case (Some old)
        then have "old = gen" using f \<open>g = Some gen\<close> by (auto simp: snapshot_freeze_def freeze_def split: prod.splits)
        then show ?thesis using Some sv c(1) by blast
      qed
    qed
  qed
qed

end

section \<open>The two backends\<close>

definition file_ops :: "('k, 'e, 'p) SnapEnv \<Rightarrow> nat \<Rightarrow> ('k, 'e, 'p, Disk) Backend" where
  "file_ops env ver = \<lparr>bk_load = file_load env ver, bk_try_save_delta = (\<lambda>dl. try_save_delta_for env dl ver), bk_save = (\<lambda>s. save_full_for env s ver)\<rparr>"

definition memory_ops :: "('k, 'e, 'p, ('k, 'e, 'p) PersistedState option) Backend" where
  "memory_ops = \<lparr>bk_load = mem_load, bk_try_save_delta = default_try_save_delta, bk_save = mem_save\<rparr>"

interpretation file_client: ordered_backend "file_load env ver" "\<lambda>dl. try_save_delta_for env dl ver" "\<lambda>s. save_full_for env s ver"
  "file_saved env ver" "file_room env ver" for env ver
  by unfold_locales

interpretation memory_client: ordered_backend mem_load default_try_save_delta mem_save
  "\<lambda>b c. map_option state_view b = c \<and> (\<forall>s. b = Some s \<longrightarrow> persisted_ok s)" "\<lambda>_. True"
  by unfold_locales

lemma file_opened_inv:
  assumes "entry_laws (re_entry renv)" "file_saved env ver d c"
    and "with_persistence renv rd (file_ops env ver) d (store_new clock window repair) = Inr du0"
    and "(snap_step renv (file_ops env ver) (file_room env ver))\<^sup>*\<^sup>* (du0, Idle) (du, ph)"
  shows "snap_inv renv (file_saved env ver) du ph"
  using file_client.steps_inv [OF assms(4) [unfolded file_ops_def] assms(1)]
    file_client.opened(1) [OF assms(2,3) [unfolded file_ops_def]] by simp

text \<open>A small instance: a codec that knows one manifest and one base, and no fault.\<close>

definition demo_manifest :: Manifest where
  "demo_manifest = \<lparr>base_generation = 1, base_bytes = 41, current_generation = 1, delta_bytes = 0\<rparr>"

definition demo_base :: "(nat, nat \<times> nat option, nat) BaseSegment" where
  "demo_base = \<lparr>bs_generation = 1, bs_state = persisted_new [(2, (0, Some 10))] [] []\<rparr>"

definition demo_files :: "(nat, nat \<times> nat option, nat) SnapEnv" where
  "demo_files =
    \<lparr>ser_manifest = (\<lambda>m. if m = demo_manifest then Some [1] else None), de_manifest = (\<lambda>b. if b = [1] then Some demo_manifest else None),
     ser_base = (\<lambda>s. if s = demo_base then Some [2] else None), de_base = (\<lambda>b. if b = [2] then Some demo_base else None),
     ser_delta = (\<lambda>_. None), de_delta = (\<lambda>_. None), de_state = (\<lambda>_. None), sn_hash = (\<lambda>_. arr_zero), sn_fault = (\<lambda>_. NoFault)\<rparr>"

definition demo_disk :: Disk where
  "demo_disk = \<lparr>dk_manifest = None, dk_segments = [], dk_single = None, dk_calls = 0\<rparr>"

definition demo_open :: "(nat, nat \<times> nat option, nat option, nat, nat, Disk) Durable" where
  "demo_open = \<lparr>du_store = demo_store, du_backend = tick (tick demo_disk), last_snapshot_at = None, persistence_consecutive_failures = 0\<rparr>"

definition demo_written :: "(nat, nat \<times> nat option, nat option, nat, nat, Disk) Durable" where
  "demo_written = demo_open\<lparr>du_store := apply_op demo_replica demo_readings (Insert 2 10) demo_store\<rparr>"

lemma demo_opens: "with_persistence demo_replica demo_readings (file_ops demo_files 2) demo_disk demo_store = Inr demo_open"
  by (simp add: with_persistence_def load_with_retries.simps file_ops_def file_load_def load_for_def read_manifest_version_def io_bind_def
      io_return_def fs_read_def demo_files_def demo_disk_def demo_open_def)

lemma demo_saved: "file_saved demo_files 2 demo_disk None"
  by (simp add: file_saved_def snap_codec_def demo_files_def demo_disk_def)

lemma demo_core: "core (du_store demo_written) =
    ([(2, (0, Some 10))], [(2, Some 10)], [], [], [], record_entry 2 (0, Some 10) generations_default)"
  by (simp add: demo_written_def rm_insert_def replica_insert_def clock_now_def just_insert_def core_simps split_beta)
    (simp add: core_def map_insert_def pre_insert_def demo_store_def store_new_def demo_replica_def demo_entry_def)

lemma demo_parts: "st_map (du_store demo_written) = [(2, (0, Some 10))]" "st_members (du_store demo_written) = []"
  "tombstone_acks (du_store demo_written) = []" "snapshot_generations (du_store demo_written) = record_entry 2 (0, Some 10) generations_default"
  using demo_core by (simp_all add: core_def)

lemma demo_collected: "collect_persisted_state (du_store demo_written\<lparr>snapshot_generations := j\<rparr>) = bs_state demo_base"
  by (simp add: collect_persisted_state_def collect_chunks_after after_cursor_def demo_parts demo_base_def)

lemma demo_delta: "try_save_delta_for demo_files dl 2 (du_backend demo_written) = (Inr False, tick (du_backend demo_written))"
  by (simp add: try_save_delta_for_def io_bind_def read_manifest_version_def fs_read_def io_return_def demo_written_def demo_open_def
      demo_disk_def demo_files_def tick_def)

lemma demo_room: "file_room demo_files 2 (du_backend demo_written)" "file_room demo_files 2 (tick (du_backend demo_written))"
  by (simp_all add: file_room_def demo_written_def demo_open_def demo_disk_def)

lemma demo_save: "fst (save_full_for demo_files (bs_state demo_base) 2 (tick (du_backend demo_written))) = Inr ()"
  by (simp add: save_full_for_def io_bind_def read_manifest_version_def fs_read_def io_return_def io_lift_def demo_written_def demo_open_def
      demo_disk_def demo_files_def tick_def save_base_def fs_check_def write_segment_version_def encode_version_def write_encoded_segment_def
      write_atomic_def publish_manifest_version_def validate_manifest_def demo_manifest_def Let_def demo_base_def BASE_MAGIC_def)

lemma demo_snapshot: "fst (snapshot_inner (file_ops demo_files 2) 5 demo_written) = Inr ()"
proof -
  obtain g j where f: "freeze (record_entry 2 (0, Some 10) generations_default :: (nat, nat \<times> nat option, nat) GenerationState) = (g, j)" by fastforce
  obtain b where b: "save_full_for demo_files (bs_state demo_base) 2 (tick (du_backend demo_written)) = (Inr (), b)"
    using demo_save by (metis prod.collapse)
  show ?thesis by (simp add: snapshot_inner_def snapshot_freeze_def demo_parts f file_ops_def demo_delta demo_collected b)
qed

lemma demo_steps: "(snap_step demo_replica (file_ops demo_files 2) (file_room demo_files 2))\<^sup>*\<^sup>* (demo_open, Idle) (demo_written, Idle)"
  using mutate [of demo_replica "file_ops demo_files 2" "file_room demo_files 2" demo_open Idle demo_readings "Insert 2 10"]
  by (simp add: demo_written_def demo_open_def)

text \<open>C3: writers run between any two steps of the snapshots of a replica opened on its files, and every
  file operation may fail, before or after taking effect. At every moment the files can be loaded once the
  faults stop, and replaying the changes still journalled in memory onto what is loaded gives exactly the
  live map, members and acknowledgements: no write is retired before it is durable. Only before the first
  successful snapshot may there be nothing to load.\<close>

theorem no_write_lost:
  assumes "entry_laws (re_entry renv)" "file_saved env ver d c"
    and "with_persistence renv rd (file_ops env ver) d (store_new clock window repair) = Inr du0"
    and "(snap_step renv (file_ops env ver) (file_room env ver))\<^sup>*\<^sup>* (du0, Idle) (du, ph)"
  shows "\<exists>s. fst (file_load (quiet_files env) ver (du_backend du)) = Inr s \<and>
    (case s of
       None \<Rightarrow> last_snapshot_at du = None
     | Some x \<Rightarrow> pending (snapshot_generations (du_store du)) (state_view x) = runtime_view (du_store du))"
proof -
  from file_opened_inv [OF assms] obtain c v where c: "file_saved env ver (du_backend du) c" "c = None \<or> c = Some v"
    "behind v (du_store du)" "c = None \<longrightarrow> last_snapshot_at du = None" by (auto simp: snap_inv_def)
  from load_quiet [OF c(1)] obtain s where s: "fst (file_load (quiet_files env) ver (du_backend du)) = Inr s" "map_option state_view s = c" by blast
  then show ?thesis using c(2-4) by (intro exI [of _ s]) (auto simp: behind_def split: option.splits)
qed

theorem no_write_lost_witness:
  "let du = snd (snapshot_inner (file_ops demo_files 2) 5 demo_written) in
    \<exists>x. fst (file_load (quiet_files demo_files) 2 (du_backend du)) = Inr (Some x) \<and>
      pending (snapshot_generations (du_store du)) (state_view x) = runtime_view (du_store du)"
proof -
  let ?du = "snd (snapshot_inner (file_ops demo_files 2) 5 demo_written)"
  have "(snap_step demo_replica (file_ops demo_files 2) (file_room demo_files 2))\<^sup>*\<^sup>* (demo_written, Idle) (?du, Idle)"
    by (rule snapshot_inner_steps) (simp_all add: demo_room file_ops_def demo_delta)
  from no_write_lost [OF demo_laws demo_saved demo_opens [unfolded demo_store_def] rtranclp_trans [OF demo_steps this]]
  obtain s where s: "fst (file_load (quiet_files demo_files) 2 (du_backend ?du)) = Inr s"
    "case s of None \<Rightarrow> last_snapshot_at ?du = None
     | Some x \<Rightarrow> pending (snapshot_generations (du_store ?du)) (state_view x) = runtime_view (du_store ?du)" by blast
  have "last_snapshot_at ?du = Some 5"
    using demo_snapshot by (auto simp: snapshot_inner_def snapshot_success_def Let_def split: prod.splits sum.splits bool.splits)
  then show ?thesis using s by (cases s) (simp_all add: Let_def)
qed

text \<open>C6: when a snapshot of such a replica returns success, a restart on its files restores exactly the
  live state, unless an earlier snapshot had failed and left a generation frozen: then the retry may have
  added that generation alone, and the restart gives the earlier durable state with it.\<close>

theorem restart_restores_snapshot:
  assumes "entry_laws (re_entry renv)" "file_saved env ver d c"
    and "with_persistence renv rd (file_ops env ver) d (store_new clock window repair) = Inr du0"
    and "(snap_step renv (file_ops env ver) (file_room env ver))\<^sup>*\<^sup>* (du0, Idle) (du, Idle)"
    and "file_room env ver (du_backend du)" "\<And>dl. file_room env ver (snd (try_save_delta_for env dl ver (du_backend du)))"
    and "snapshot_inner (file_ops env ver) now du = (Inr (), du1)"
    and "with_persistence renv rd' (file_ops env ver) (du_backend du1) (store_new clock' window repair) = Inr du2"
  shows "runtime_view (du_store du2) = runtime_view (du_store du) \<or>
    (\<exists>g v. frozen (snapshot_generations (du_store du)) = Some g \<and> file_saved env ver (du_backend du) (Some v) \<and>
      runtime_view (du_store du2) = eff g v)"
proof -
  have "file_saved env ver (du_backend du1) (Some (runtime_view (du_store du))) \<or>
    (\<exists>g v. frozen (snapshot_generations (du_store du)) = Some g \<and> file_saved env ver (du_backend du) (Some v) \<and>
      file_saved env ver (du_backend du1) (Some (eff g v)))"
    using file_client.snapshot_exact [OF file_opened_inv [OF assms(1-4)] assms(5) _ assms(7) [unfolded file_ops_def]] assms(6) by (metis snd_conv)
  then show ?thesis using file_client.opened(3) [OF _ assms(8) [unfolded file_ops_def] refl] by metis
qed

lemma demo_restarts:
  "\<exists>du2. with_persistence demo_replica demo_readings (file_ops demo_files 2)
    (du_backend (snd (snapshot_inner (file_ops demo_files 2) 5 demo_written))) (store_new 0 0 0 :: (nat, nat \<times> nat option, nat option, nat, nat) Store) = Inr du2"
proof -
  let ?b = "du_backend (snd (snapshot_inner (file_ops demo_files 2) 5 demo_written))"
  have inv: "snap_inv demo_replica (file_saved demo_files 2) (snd (snapshot_inner (file_ops demo_files 2) 5 demo_written)) Idle"
    by (rule file_opened_inv [OF demo_laws demo_saved demo_opens [unfolded demo_store_def]])
      (rule rtranclp_trans [OF demo_steps snapshot_inner_steps], simp_all add: demo_room file_ops_def demo_delta)
  then obtain c where "file_saved demo_files 2 ?b c" by (auto simp: snap_inv_def)
  moreover have "quiet_files demo_files = demo_files" by (simp add: quiet_files_def demo_files_def)
  ultimately obtain s b' where "bk_load (file_ops demo_files 2) ?b = (Inr s, b')" using load_quiet by (metis Backend.select_convs(1) file_ops_def prod.collapse)
  then show ?thesis by (simp add: with_persistence_def load_with_retries.simps)
qed

theorem restart_restores_snapshot_witness:
  "\<exists>du2. with_persistence demo_replica demo_readings (file_ops demo_files 2)
      (du_backend (snd (snapshot_inner (file_ops demo_files 2) 5 demo_written))) (store_new 0 0 0) = Inr du2 \<and>
    runtime_view (du_store du2 :: (nat, nat \<times> nat option, nat option, nat, nat) Store) = runtime_view (du_store demo_written)"
proof -
  let ?du1 = "snd (snapshot_inner (file_ops demo_files 2) 5 demo_written)"
  obtain du2 where du2: "with_persistence demo_replica demo_readings (file_ops demo_files 2) (du_backend ?du1) (store_new 0 0 0) = Inr du2"
    using demo_restarts by blast
  have "snapshot_inner (file_ops demo_files 2) 5 demo_written = (Inr (), ?du1)" using demo_snapshot by (metis prod.collapse)
  from restart_restores_snapshot [OF demo_laws demo_saved demo_opens [unfolded demo_store_def] demo_steps demo_room(1) _ this du2]
  have "runtime_view (du_store du2) = runtime_view (du_store demo_written)"
    by (simp add: demo_room demo_delta demo_parts record_entry_def generations_default_def)
  then show ?thesis using du2 by blast
qed

text \<open>C7: a save of the files is atomic under every fault pattern. Whatever call fails, before or after its
  effect, the files then load as the new state, or, when the save reported an error, as the old one; the
  same holds for appending a delta, which never reports the outcome that did not happen.\<close>

theorem snapshot_files_crash_safe:
  assumes "file_saved env ver d c" "file_room env ver d" "persisted_ok s" "generation_ok g"
  shows "(\<exists>x. fst (file_load (quiet_files env) ver (snd (save_full_for env s ver d))) = Inr x \<and>
      (map_option state_view x = Some (state_view s) \<or>
        (\<exists>e. fst (save_full_for env s ver d) = Inl e) \<and> map_option state_view x = c)) \<and>
    (\<exists>x. fst (file_load (quiet_files env) ver (snd (try_save_delta_for env (Some (persistence_delta g)) ver d))) = Inr x \<and>
      (fst (try_save_delta_for env (Some (persistence_delta g)) ver d) \<noteq> Inr True \<and> map_option state_view x = c \<or>
       fst (try_save_delta_for env (Some (persistence_delta g)) ver d) \<noteq> Inr False \<and>
         (\<exists>v. c = Some v \<and> map_option state_view x = Some (eff g v))))"
proof
  let ?s = "save_full_for env s ver d" and ?t = "try_save_delta_for env (Some (persistence_delta g)) ver d"
  from save_file [OF assms(1-3) prod.collapse [symmetric]]
  show "\<exists>x. fst (file_load (quiet_files env) ver (snd ?s)) = Inr x \<and>
      (map_option state_view x = Some (state_view s) \<or> (\<exists>e. fst ?s = Inl e) \<and> map_option state_view x = c)"
    using load_quiet by metis
  from try_save_delta_file(2) [OF assms(1,2) prod.collapse [symmetric] refl assms(4)]
  show "\<exists>x. fst (file_load (quiet_files env) ver (snd ?t)) = Inr x \<and>
      (fst ?t \<noteq> Inr True \<and> map_option state_view x = c \<or> fst ?t \<noteq> Inr False \<and> (\<exists>v. c = Some v \<and> map_option state_view x = Some (eff g v)))"
    using load_quiet by metis
qed

theorem snapshot_files_crash_safe_witness:
  "\<exists>x. fst (file_load (quiet_files demo_files) 2 (snd (save_full_for demo_files (bs_state demo_base) 2 (tick (du_backend demo_written))))) = Inr (Some x) \<and>
    state_view x = state_view (bs_state demo_base)"
proof -
  have "file_saved demo_files 2 (tick (du_backend demo_written)) None" using demo_saved by (simp add: demo_written_def demo_open_def)
  moreover have "persisted_ok (bs_state demo_base)" by (simp add: persisted_ok_def parts_ok_def state_parts_def demo_base_def persisted_new_def)
  ultimately show ?thesis
    using snapshot_files_crash_safe [of demo_files 2 "tick (du_backend demo_written)" None "bs_state demo_base" generation_default] demo_room(2) demo_save
    by (auto simp: generation_ok_def)
qed

end
