(* ===== verification/Peer.thy ===== *)
theory Peer
  imports RecoveryBook Protocol
begin

text \<open>
  Signed peers (\<open>gossip/src/peer/\<close>): the identity proof (\<open>identity.rs\<close>), the signed envelope around a sealed
  datagram (\<open>envelope.rs\<close>), the signed-only boundary with its replay filter (\<open>runtime.rs\<close>) and the directory of
  routes that a challenge has confirmed (\<open>routes.rs\<close>). The lemmas show that the envelope parser accepts exactly what
  the signer prints, that a route enters the directory only through an answered challenge, and that the directory
  stays within its bound.
\<close>

section \<open>Identity\<close>

type_synonym PeerId = "32 arr"

text \<open>
  The external signature package: the public key of a seed, signing, whether 32 bytes are a verification
  key, and strict verification.
\<close>

record Ed25519 =
  ed_public :: "32 arr \<Rightarrow> 32 arr"
  ed_sign :: "32 arr \<Rightarrow> bytes \<Rightarrow> 64 arr"
  ed_key_ok :: "32 arr \<Rightarrow> bool"
  ed_verify_strict :: "32 arr \<Rightarrow> bytes \<Rightarrow> 64 arr \<Rightarrow> bool"

definition ascii :: "string \<Rightarrow> bytes" where
  "ascii s = map of_char s"

definition SIGNATURE_DOMAIN :: bytes where
  "SIGNATURE_DOMAIN = ascii ''reconcile/gossip/peer-datagram/v1'' @ [0]"

definition signed_bytes :: "bytes \<Rightarrow> bytes" where
  "signed_bytes datagram = SIGNATURE_DOMAIN @ u64_to_le (of_nat (length datagram)) @ datagram"

text \<open>A signer is its seed.\<close>

type_synonym PeerSigner = "32 arr"

definition signer_peer_id :: "Ed25519 \<Rightarrow> PeerSigner \<Rightarrow> PeerId" where
  "signer_peer_id ed seed = ed_public ed seed"

record PeerProof =
  claimed :: PeerId
  signature :: "64 arr"

definition sign_datagram :: "Ed25519 \<Rightarrow> PeerSigner \<Rightarrow> bytes \<Rightarrow> PeerProof" where
  "sign_datagram ed seed datagram = \<lparr>claimed = signer_peer_id ed seed, signature = ed_sign ed seed (signed_bytes datagram)\<rparr>"

type_synonym PeerAllowlist = "PeerId list"

definition allowlist_verify :: "Ed25519 \<Rightarrow> PeerAllowlist \<Rightarrow> bytes \<Rightarrow> PeerProof \<Rightarrow> PeerId option" where
  "allowlist_verify ed allowed datagram proof =
    (if claimed proof \<notin> set allowed then None
     else if \<not> ed_key_ok ed (claimed proof) then None
     else if \<not> ed_verify_strict ed (claimed proof) (signed_bytes datagram) (signature proof) then None
     else Some (claimed proof))"

section \<open>Envelope\<close>

definition IDENTITY_MAGIC :: bytes where "IDENTITY_MAGIC = [0x52, 0x43, 0x50, 0x45]"
definition IDENTITY_ENVELOPE_VERSION :: byte where "IDENTITY_ENVELOPE_VERSION = 1"
definition IDENTITY_ENVELOPE_OVERHEAD :: nat where "IDENTITY_ENVELOPE_OVERHEAD = 4 + 1 + 32 + 64 + 4"

datatype EnvelopeError =
    TooLarge
  | InvalidEnvelopeLength
  | InvalidMagic
  | UnsupportedVersion byte
  | InvalidProof
  | InnerAuthentication
  | InnerVersion byte

definition signed_contents :: "byte \<Rightarrow> bytes \<Rightarrow> bytes \<Rightarrow> bytes" where
  "signed_contents version len inner = IDENTITY_MAGIC @ [version] @ len @ inner"

definition envelope_seal :: "Ed25519 \<Rightarrow> PeerSigner \<Rightarrow> bytes \<Rightarrow> nat \<Rightarrow> EnvelopeError + bytes" where
  "envelope_seal ed seed inner max_outer_bytes =
    (if 2 ^ 32 \<le> length inner then Inl TooLarge
     else case checked_add IDENTITY_ENVELOPE_OVERHEAD (length inner) of
       None \<Rightarrow> Inl TooLarge
     | Some full \<Rightarrow>
        if max_outer_bytes < full then Inl TooLarge
        else let len = le_bytes 4 (length inner);
                 proof = sign_datagram ed seed (signed_contents IDENTITY_ENVELOPE_VERSION len inner)
             in Inr (IDENTITY_MAGIC @ [IDENTITY_ENVELOPE_VERSION] @ arr_bytes (claimed proof) @ arr_bytes (signature proof) @ len @ inner))"

text \<open>The fields of a frame that is long enough, at their fixed places.\<close>

definition envelope_open :: "Ed25519 \<Rightarrow> PeerAllowlist \<Rightarrow> bytes \<Rightarrow> nat \<Rightarrow> EnvelopeError + (PeerId \<times> bytes)" where
  "envelope_open ed allowed frame max_outer_bytes =
    (if max_outer_bytes < length frame then Inl TooLarge
     else if length frame < IDENTITY_ENVELOPE_OVERHEAD then Inl InvalidEnvelopeLength
     else if take 4 frame \<noteq> IDENTITY_MAGIC then Inl InvalidMagic
     else let version = frame ! 4
          in if version \<noteq> IDENTITY_ENVELOPE_VERSION then Inl (UnsupportedVersion version)
             else let len = take 4 (drop 101 frame); inner = drop 105 frame
                  in if \<not> (length inner < 2 ^ 32 \<and> length inner = le_val len) then Inl InvalidEnvelopeLength
                     else let proof = \<lparr>claimed = Abs_arr (take 32 (drop 5 frame)), signature = Abs_arr (take 64 (drop 37 frame))\<rparr>
                          in case allowlist_verify ed allowed (signed_contents version len inner) proof of
                               None \<Rightarrow> Inl InvalidProof
                             | Some peer \<Rightarrow> Inr (peer, inner))"

text \<open>The inner authentication of a verified envelope.\<close>

definition envelope_authenticate :: "Crypto \<Rightarrow> Authenticator \<Rightarrow> bytes \<Rightarrow> EnvelopeError + Payload" where
  "envelope_authenticate c a inner =
    (case open_datagram c a inner of
       None \<Rightarrow> Inl InnerAuthentication
     | Some p \<Rightarrow> (case check_version p of Inl v \<Rightarrow> Inl (InnerVersion v) | Inr payload \<Rightarrow> Inr payload))"

text \<open>Without an inner replay header nothing passes.\<close>

definition envelope_verify_replay ::
  "Authenticator \<Rightarrow> Payload \<Rightarrow> PeerId \<Rightarrow> Stamp \<Rightarrow> PeerId VerifiedPeerReplayFilter \<Rightarrow> Payload option \<times> PeerId VerifiedPeerReplayFilter" where
  "envelope_verify_replay a payload peer now f =
    (if a = Disabled then (None, f) else verify_replay_from_signed_envelope f payload peer now)"

section \<open>The signed boundary\<close>

datatype SignedDatagramError =
    MissingInnerAuthentication
  | MtuTooSmall
  | Envelope EnvelopeError
  | SignedPeerCap nat nat
  | SignedReplay

record SignedDatagramBoundary =
  bd_authenticator :: Authenticator
  bd_signer :: PeerSigner
  bd_allowlist :: PeerAllowlist
  bd_counter :: SenderCounter
  bd_replay :: "PeerId VerifiedPeerReplayFilter"
  bd_max_peers :: nat
  bd_mtu :: nat

text \<open>Nonces and wall-clock readings of the sealing side are inputs, indexed by the sequence number they go with.\<close>

record SignedEnv =
  sv_crypto :: Crypto
  sv_ed :: Ed25519
  sv_digest :: "bytes \<Rightarrow> 32 arr"
  sv_nonce :: "Seq \<Rightarrow> 24 arr"
  sv_clock_ms :: "Seq \<Rightarrow> 64 word"

definition boundary_new ::
  "Authenticator \<Rightarrow> PeerSigner \<Rightarrow> PeerAllowlist \<Rightarrow> 64 word \<Rightarrow> nat \<Rightarrow> nat \<Rightarrow> nat \<Rightarrow> SignedDatagramError + SignedDatagramBoundary" where
  "boundary_new a signer allowed window senders max_peers mtu =
    (if a = Disabled then Inl MissingInnerAuthentication
     else if mtu \<le> IDENTITY_ENVELOPE_OVERHEAD + overhead a then Inl MtuTooSmall
     else Inr \<lparr>bd_authenticator = a, bd_signer = signer, bd_allowlist = allowed, bd_counter = sender_counter_new,
               bd_replay = verified_with_max_senders (verified_filter_new window) senders, bd_max_peers = max_peers, bd_mtu = mtu\<rparr>)"

definition local_peer :: "SignedEnv \<Rightarrow> SignedDatagramBoundary \<Rightarrow> PeerId" where
  "local_peer env b = signer_peer_id (sv_ed env) (bd_signer b)"

definition payload_budget :: "SignedDatagramBoundary \<Rightarrow> nat" where
  "payload_budget b = bd_mtu b - IDENTITY_ENVELOPE_OVERHEAD - overhead (bd_authenticator b)"

definition boundary_seal :: "SignedEnv \<Rightarrow> bytes \<Rightarrow> SignedDatagramBoundary \<Rightarrow> (SignedDatagramError + bytes) \<times> SignedDatagramBoundary" where
  "boundary_seal env messages b =
    (if payload_budget b < length messages then (Inl (Envelope TooLarge), b)
     else let (seq, c1) = next_seq (bd_counter b); (stamp, c2) = next_stamp_at c1 (sv_clock_ms env seq);
              inner = seal (sv_crypto env) (sv_nonce env seq) (bd_authenticator b) seq stamp messages
          in (case envelope_seal (sv_ed env) (bd_signer b) inner (bd_mtu b) of Inl e \<Rightarrow> Inl (Envelope e) | Inr bs \<Rightarrow> Inr bs,
              b\<lparr>bd_counter := c2\<rparr>))"

definition boundary_open ::
  "SignedEnv \<Rightarrow> bytes \<Rightarrow> (PeerId \<Rightarrow> bool \<times> nat) \<Rightarrow> Stamp \<Rightarrow> SignedDatagramBoundary \<Rightarrow>
    (SignedDatagramError + (PeerId \<times> Payload)) \<times> SignedDatagramBoundary" where
  "boundary_open env datagram peer_state now b =
    (case envelope_open (sv_ed env) (bd_allowlist b) datagram (bd_mtu b) of
       Inl e \<Rightarrow> (Inl (Envelope e), b)
     | Inr (peer, inner) \<Rightarrow>
        (case envelope_authenticate (sv_crypto env) (bd_authenticator b) inner of
           Inl e \<Rightarrow> (Inl (Envelope e), b)
         | Inr payload \<Rightarrow>
            let (known, count) = peer_state peer
            in if \<not> known \<and> bd_max_peers b \<le> count then (Inl (SignedPeerCap count (bd_max_peers b)), b)
               else let (r, f) = envelope_verify_replay (bd_authenticator b) payload peer now (bd_replay b)
                    in (case r of None \<Rightarrow> Inl SignedReplay | Some p \<Rightarrow> Inr (peer, p), b\<lparr>bd_replay := f\<rparr>)))"

definition open_frame ::
  "SignedEnv \<Rightarrow> bytes \<Rightarrow> (PeerId \<Rightarrow> bool \<times> nat) \<Rightarrow> instant \<Rightarrow> Stamp \<Rightarrow> PeerId Reassembler \<Rightarrow> SignedDatagramBoundary \<Rightarrow>
    (SignedDatagramError + (PeerId \<times> ReceiveReport)) \<times> PeerId Reassembler \<times> SignedDatagramBoundary" where
  "open_frame env datagram peer_state now wall r b =
    (case boundary_open env datagram peer_state wall b of
       (Inl e, b') \<Rightarrow> (Inl e, r, b')
     | (Inr (peer, payload), b') \<Rightarrow>
        let (report, r') = reasm_accept (sv_digest env) r peer payload now in (Inr (peer, report), r', b'))"

definition replay_senders :: "SignedDatagramBoundary \<Rightarrow> nat" where
  "replay_senders b = length (vpeers (bd_replay b))"

section \<open>Confirmed routes\<close>

definition CHALLENGE :: byte where "CHALLENGE = 0xf0"
definition RESPONSE :: byte where "RESPONSE = 0xf1"
definition CONTROL_LEN :: nat where "CONTROL_LEN = 1 + 32 + 32"

lemmas control_consts = CHALLENGE_def RESPONSE_def CONTROL_LEN_def

definition encode_control :: "byte \<Rightarrow> PeerId \<Rightarrow> 32 arr \<Rightarrow> bytes" where
  "encode_control kind recipient nonce = kind # arr_bytes recipient @ arr_bytes nonce"

definition parse_control :: "bytes \<Rightarrow> (PeerId \<times> 32 arr) option" where
  "parse_control bs =
    (if length bs \<noteq> CONTROL_LEN then None else Some (Abs_arr (take 32 (drop 1 bs)), Abs_arr (drop 33 bs)))"

record 'a RoutedDatagram =
  dg_destination :: 'a
  dg_bytes :: bytes

datatype 'a SignedRouteReceive =
    Framed PeerId ReceiveReport
  | Probing PeerId "'a RoutedDatagram option"
  | Reply "'a RoutedDatagram"
  | RouteConfirmed PeerId
  | Recovery PeerId RecoveryControl
  | Ignored

datatype SignedRouteError = Signed SignedDatagramError | NoConfirmedRoute

record 'a Confirmed =
  cf_route :: 'a
  cf_signer :: PeerId

record 'a PendingRoute =
  pr_address :: 'a
  pr_nonce :: "32 arr"
  pr_issued :: instant

record 'a SignedPeerRoutes =
  sr_confirmed :: "(PeerId, 'a Confirmed) kv"
  sr_pending :: "(PeerId, 'a PendingRoute) kv"
  sr_max_peers :: nat
  sr_challenge_ttl :: duration

definition routes_new :: "nat \<Rightarrow> duration \<Rightarrow> 'a SignedPeerRoutes" where
  "routes_new max_peers ttl = \<lparr>sr_confirmed = [], sr_pending = [], sr_max_peers = max_peers, sr_challenge_ttl = ttl\<rparr>"

definition route :: "PeerId \<Rightarrow> 'a SignedPeerRoutes \<Rightarrow> 'a option" where
  "route peer r = map_option cf_route (map_of (sr_confirmed r) peer)"

definition confirmed_peers :: "'a SignedPeerRoutes \<Rightarrow> PeerId list" where
  "confirmed_peers r = sort (map (\<lambda>(_, c). cf_signer c) (kv_iter (sr_confirmed r)))"

definition routes_decommission :: "PeerId \<Rightarrow> 'a SignedPeerRoutes \<Rightarrow> 'a SignedPeerRoutes" where
  "routes_decommission peer r =
    r\<lparr>sr_confirmed := AList.delete peer (sr_confirmed r), sr_pending := AList.delete peer (sr_pending r)\<rparr>"

definition seal_to ::
  "SignedEnv \<Rightarrow> 'a SignedPeerRoutes \<Rightarrow> PeerId \<Rightarrow> bytes \<Rightarrow> SignedDatagramBoundary \<Rightarrow> (SignedRouteError + 'a RoutedDatagram) \<times> SignedDatagramBoundary" where
  "seal_to env r peer frame b =
    (case route peer r of
       None \<Rightarrow> (Inl NoConfirmedRoute, b)
     | Some destination \<Rightarrow>
        (case boundary_seal env frame b of
           (Inl e, b') \<Rightarrow> (Inl (Signed e), b')
         | (Inr bs, b') \<Rightarrow> (Inr \<lparr>dg_destination = destination, dg_bytes = bs\<rparr>, b')))"

text \<open>\<open>nonce\<close> is what the system's random source returns for this call.\<close>

definition start_probe ::
  "SignedEnv \<Rightarrow> PeerId \<Rightarrow> 'a \<Rightarrow> instant \<Rightarrow> 32 arr \<Rightarrow> SignedDatagramBoundary \<Rightarrow> 'a SignedPeerRoutes \<Rightarrow>
    (SignedRouteError + 'a RoutedDatagram option) \<times> SignedDatagramBoundary \<times> 'a SignedPeerRoutes" where
  "start_probe env peer source now nonce b r0 =
    (let r = r0\<lparr>sr_pending := filter (\<lambda>(_, c). now - pr_issued c < sr_challenge_ttl r0) (sr_pending r0)\<rparr>
     in if (case map_of (sr_pending r) peer of None \<Rightarrow> False | Some c \<Rightarrow> pr_address c = source) then (Inr None, b, r)
        else if map_of (sr_pending r) peer = None \<and> map_of (sr_confirmed r) peer = None \<and>
          sr_max_peers r \<le> length (sr_confirmed r) + length (sr_pending r) then (Inr None, b, r)
        else case boundary_seal env (encode_control CHALLENGE peer nonce) b of
          (Inl e, b') \<Rightarrow> (Inl (Signed e), b', r)
        | (Inr bs, b') \<Rightarrow>
           (Inr (Some \<lparr>dg_destination = source, dg_bytes = bs\<rparr>), b',
            r\<lparr>sr_pending := AList.update peer \<lparr>pr_address = source, pr_nonce = nonce, pr_issued = now\<rparr> (sr_pending r)\<rparr>))"

definition receive_challenge ::
  "SignedEnv \<Rightarrow> PeerId \<Rightarrow> bytes \<Rightarrow> 'a \<Rightarrow> SignedDatagramBoundary \<Rightarrow> (SignedRouteError + 'a SignedRouteReceive) \<times> SignedDatagramBoundary" where
  "receive_challenge env peer frame source b =
    (case parse_control frame of
       None \<Rightarrow> (Inr Ignored, b)
     | Some (recipient, nonce) \<Rightarrow>
        if recipient \<noteq> local_peer env b then (Inr Ignored, b)
        else case boundary_seal env (encode_control RESPONSE peer nonce) b of
          (Inl e, b') \<Rightarrow> (Inl (Signed e), b')
        | (Inr bs, b') \<Rightarrow> (Inr (Reply \<lparr>dg_destination = source, dg_bytes = bs\<rparr>), b'))"

definition receive_response ::
  "SignedEnv \<Rightarrow> PeerId \<Rightarrow> bytes \<Rightarrow> 'a \<Rightarrow> instant \<Rightarrow> SignedDatagramBoundary \<Rightarrow> 'a SignedPeerRoutes \<Rightarrow> 'a SignedRouteReceive \<times> 'a SignedPeerRoutes" where
  "receive_response env peer frame source now b r =
    (case parse_control frame of
       None \<Rightarrow> (Ignored, r)
     | Some (recipient, nonce) \<Rightarrow>
        if recipient \<noteq> local_peer env b then (Ignored, r)
        else case map_of (sr_pending r) peer of
          None \<Rightarrow> (Ignored, r)
        | Some c \<Rightarrow>
           if \<not> (pr_address c = source \<and> pr_nonce c = nonce \<and> now - pr_issued c < sr_challenge_ttl r) then (Ignored, r)
           else (RouteConfirmed peer,
                 r\<lparr>sr_pending := AList.delete peer (sr_pending r),
                   sr_confirmed := AList.update peer \<lparr>cf_route = source, cf_signer = peer\<rparr> (sr_confirmed r)\<rparr>))"

definition receive_control :: "SignedDatagramBoundary \<Rightarrow> PeerId \<Rightarrow> bytes \<Rightarrow> 'a SignedRouteReceive" where
  "receive_control b peer frame =
    (case parse_recovery_control frame (max_missing_ranges_for_budget (payload_budget b) 0 (2 ^ 16 - 1)) of
       Inr (Some control) \<Rightarrow> Recovery peer control
     | _ \<Rightarrow> Ignored)"

text \<open>What a node holds for its signed traffic.\<close>

record 'a SignedNet =
  net_boundary :: SignedDatagramBoundary
  net_routes :: "'a SignedPeerRoutes"
  net_reassembler :: "PeerId Reassembler"

definition dispatch_frame ::
  "SignedEnv \<Rightarrow> PeerId \<Rightarrow> Payload \<Rightarrow> 'a \<Rightarrow> instant \<Rightarrow> 32 arr \<Rightarrow> 'a SignedNet \<Rightarrow> (SignedRouteError + 'a SignedRouteReceive) \<times> 'a SignedNet" where
  "dispatch_frame env peer payload source now nonce n =
    (if route peer (net_routes n) = Some source
     then case pl_bytes payload of
            tag # _ \<Rightarrow>
              if tag = MISSING_REPORT_TAG \<or> tag = COMPLETION_ACK_TAG then (Inr (receive_control (net_boundary n) peer (pl_bytes payload)), n)
              else let (report, ra) = reasm_accept (sv_digest env) (net_reassembler n) peer payload now
                   in (Inr (Framed peer report), n\<lparr>net_reassembler := ra\<rparr>)
          | [] \<Rightarrow> let (report, ra) = reasm_accept (sv_digest env) (net_reassembler n) peer payload now
                 in (Inr (Framed peer report), n\<lparr>net_reassembler := ra\<rparr>)
     else let (res, b, r) = start_probe env peer source now nonce (net_boundary n) (net_routes n)
          in (case res of Inl e \<Rightarrow> Inl e | Inr challenge \<Rightarrow> Inr (Probing peer challenge), n\<lparr>net_boundary := b, net_routes := r\<rparr>))"

definition routes_receive ::
  "SignedEnv \<Rightarrow> bytes \<Rightarrow> 'a \<Rightarrow> (PeerId \<Rightarrow> bool \<times> nat) \<Rightarrow> instant \<Rightarrow> Stamp \<Rightarrow> 32 arr \<Rightarrow> 'a SignedNet \<Rightarrow>
    (SignedRouteError + 'a SignedRouteReceive) \<times> 'a SignedNet" where
  "routes_receive env datagram source peer_state now wall nonce n =
    (case boundary_open env datagram peer_state wall (net_boundary n) of
       (Inl e, b) \<Rightarrow> (Inl (Signed e), n\<lparr>net_boundary := b\<rparr>)
     | (Inr (peer, payload), b) \<Rightarrow>
        let n1 = n\<lparr>net_boundary := b\<rparr>; frame = pl_bytes payload
        in if take 1 frame = [CHALLENGE] then
             let (res, b') = receive_challenge env peer frame source b in (res, n1\<lparr>net_boundary := b'\<rparr>)
           else if take 1 frame = [RESPONSE] then
             let (res, r') = receive_response env peer frame source now b (net_routes n) in (Inr res, n1\<lparr>net_routes := r'\<rparr>)
           else dispatch_frame env peer payload source now nonce n1)"

section \<open>The envelope codec\<close>

definition envelope_bytes :: "PeerId \<Rightarrow> 64 arr \<Rightarrow> bytes \<Rightarrow> bytes" where
  "envelope_bytes peer sig inner =
    IDENTITY_MAGIC @ [IDENTITY_ENVELOPE_VERSION] @ arr_bytes peer @ arr_bytes sig @ le_bytes 4 (length inner) @ inner"

definition envelope_signed :: "Ed25519 \<Rightarrow> PeerId \<Rightarrow> 64 arr \<Rightarrow> bytes \<Rightarrow> bool" where
  "envelope_signed ed peer sig inner \<longleftrightarrow> ed_key_ok ed peer \<and>
    ed_verify_strict ed peer (signed_bytes (signed_contents IDENTITY_ENVELOPE_VERSION (le_bytes 4 (length inner)) inner)) sig"

lemma length_identity_magic [simp]: "length IDENTITY_MAGIC = 4"
  by (simp add: IDENTITY_MAGIC_def)

lemma length_envelope_bytes: "length (envelope_bytes peer sig inner) = IDENTITY_ENVELOPE_OVERHEAD + length inner"
  by (simp add: envelope_bytes_def IDENTITY_ENVELOPE_OVERHEAD_def)

lemma Abs_arr_inv: "length bs = LENGTH('n::len) \<Longrightarrow> arr_bytes (Abs_arr bs :: 'n arr) = bs"
  by (simp add: Abs_arr_inverse)

lemma envelope_fields:
  "take 4 (envelope_bytes peer sig inner) = IDENTITY_MAGIC" "envelope_bytes peer sig inner ! 4 = IDENTITY_ENVELOPE_VERSION"
  "take 32 (drop 5 (envelope_bytes peer sig inner)) = arr_bytes peer" "take 64 (drop 37 (envelope_bytes peer sig inner)) = arr_bytes sig"
  "take 4 (drop 101 (envelope_bytes peer sig inner)) = le_bytes 4 (length inner)" "drop 105 (envelope_bytes peer sig inner) = inner"
  by (simp_all add: envelope_bytes_def nth_append)

lemma envelope_split:
  assumes "105 \<le> length frame" "take 4 frame = IDENTITY_MAGIC" "frame ! 4 = IDENTITY_ENVELOPE_VERSION"
    "length (drop 105 frame) = le_val (take 4 (drop 101 frame))" "length (drop 105 frame) < 2 ^ 32"
  shows "frame = envelope_bytes (Abs_arr (take 32 (drop 5 frame))) (Abs_arr (take 64 (drop 37 frame))) (drop 105 frame)"
proof -
  have len: "le_bytes 4 (length (drop 105 frame)) = take 4 (drop 101 frame)"
    using assms(1,4) le_bytes_le_val [of "take 4 (drop 101 frame)"] by simp
  have step: "drop i frame = take n (drop i frame) @ drop (i + n) frame" for i n
    by (metis append_take_drop_id drop_drop add.commute)
  have "frame = take 4 frame @ drop 4 frame"
    by simp
  also have "drop 4 frame = [frame ! 4] @ drop 5 frame"
    using assms(1) by (simp add: Cons_nth_drop_Suc [symmetric] numeral_eq_Suc)
  also have "drop 5 frame = take 32 (drop 5 frame) @ drop 37 frame"
    using step [of 5 32] by simp
  also have "drop 37 frame = take 64 (drop 37 frame) @ drop 101 frame"
    using step [of 37 64] by simp
  also have "drop 101 frame = take 4 (drop 101 frame) @ drop 105 frame"
    using step [of 101 4] by simp
  finally show ?thesis
    unfolding envelope_bytes_def len using assms(1-3) by (simp add: Abs_arr_inv)
qed

lemma envelope_open_exact:
  "envelope_open ed allowed frame limit = Inr (peer, inner) \<longleftrightarrow>
    (\<exists>sig. frame = envelope_bytes peer sig inner \<and> length frame \<le> limit \<and> length inner < 2 ^ 32 \<and> peer \<in> set allowed \<and>
      envelope_signed ed peer sig inner)"
proof
  assume a: "envelope_open ed allowed frame limit = Inr (peer, inner)"
  then have shape: "length frame \<le> limit" "105 \<le> length frame" "take 4 frame = IDENTITY_MAGIC" "frame ! 4 = IDENTITY_ENVELOPE_VERSION"
    "length (drop 105 frame) = le_val (take 4 (drop 101 frame))" "length (drop 105 frame) < 2 ^ 32"
    by (auto simp: envelope_open_def Let_def IDENTITY_ENVELOPE_OVERHEAD_def split: if_splits)
  let ?sig = "Abs_arr (take 64 (drop 37 frame)) :: 64 arr"
  have "le_bytes 4 (length (drop 105 frame)) = take 4 (drop 101 frame)"
    using shape(2,5) le_bytes_le_val [of "take 4 (drop 101 frame)"] by simp
  moreover have "peer = Abs_arr (take 32 (drop 5 frame))" "inner = drop 105 frame" "peer \<in> set allowed" "ed_key_ok ed peer"
    "ed_verify_strict ed peer (signed_bytes (signed_contents IDENTITY_ENVELOPE_VERSION (take 4 (drop 101 frame)) (drop 105 frame))) ?sig"
    using a shape by (auto simp: envelope_open_def Let_def IDENTITY_ENVELOPE_OVERHEAD_def allowlist_verify_def split: if_splits option.splits)
  ultimately show "\<exists>sig. frame = envelope_bytes peer sig inner \<and> length frame \<le> limit \<and> length inner < 2 ^ 32 \<and> peer \<in> set allowed \<and>
      envelope_signed ed peer sig inner"
    using shape envelope_split [OF shape(2-6)] by (intro exI [of _ ?sig]) (auto simp: envelope_signed_def)
next
  assume "\<exists>sig. frame = envelope_bytes peer sig inner \<and> length frame \<le> limit \<and> length inner < 2 ^ 32 \<and> peer \<in> set allowed \<and>
      envelope_signed ed peer sig inner"
  then obtain sig where s: "frame = envelope_bytes peer sig inner" "length frame \<le> limit" "length inner < 2 ^ 32" "peer \<in> set allowed"
    "envelope_signed ed peer sig inner"
    by blast
  then show "envelope_open ed allowed frame limit = Inr (peer, inner)"
    by (simp add: envelope_open_def Let_def envelope_fields length_envelope_bytes allowlist_verify_def envelope_signed_def arr_bytes_inverse)
qed

lemma envelope_seal_bytes:
  "envelope_seal ed seed inner limit = Inr bs \<longleftrightarrow>
    length inner < 2 ^ 32 \<and> IDENTITY_ENVELOPE_OVERHEAD + length inner \<le> limit \<and>
    bs = envelope_bytes (signer_peer_id ed seed)
      (ed_sign ed seed (signed_bytes (signed_contents IDENTITY_ENVELOPE_VERSION (le_bytes 4 (length inner)) inner))) inner"
  by (auto simp: envelope_seal_def checked_add_def envelope_bytes_def sign_datagram_def Let_def usize_max_def IDENTITY_ENVELOPE_OVERHEAD_def)

section \<open>Steps of the route directory\<close>

lemma parse_control_exact: "parse_control bs = Some (recipient, nonce) \<longleftrightarrow> (\<exists>kind. bs = encode_control kind recipient nonce)"
proof
  assume a: "parse_control bs = Some (recipient, nonce)"
  then have "length bs = 65" "recipient = Abs_arr (take 32 (drop 1 bs))" "nonce = Abs_arr (drop 33 bs)"
    by (auto simp: parse_control_def CONTROL_LEN_def split: if_splits)
  moreover have "take 32 (drop 1 bs) @ drop 33 bs = drop 1 bs"
    using append_take_drop_id [of 32 "drop 1 bs"] by simp
  ultimately show "\<exists>kind. bs = encode_control kind recipient nonce"
    by (cases bs) (simp_all add: encode_control_def Abs_arr_inv)
qed (auto simp: parse_control_def encode_control_def CONTROL_LEN_def arr_bytes_inverse)

definition routed_ids :: "'a SignedPeerRoutes \<Rightarrow> PeerId set" where
  "routed_ids r = dom (map_of (sr_confirmed r)) \<union> dom (map_of (sr_pending r))"

definition routes_wf :: "'a SignedPeerRoutes \<Rightarrow> bool" where
  "routes_wf r \<longleftrightarrow> keys_distinct (sr_confirmed r) \<and> keys_distinct (sr_pending r) \<and>
    card (routed_ids r) \<le> sr_max_peers r"

text \<open>What one datagram can do to the directory.\<close>

definition challenged :: "SignedEnv \<Rightarrow> PeerId \<Rightarrow> 'a \<Rightarrow> 32 arr \<Rightarrow> (SignedRouteError + 'a SignedRouteReceive) \<Rightarrow> bool" where
  "challenged env p source nonce res \<longleftrightarrow>
    (\<exists>bs b b'. res = Inr (Probing p (Some \<lparr>dg_destination = source, dg_bytes = bs\<rparr>)) \<and>
      boundary_seal env (encode_control CHALLENGE p nonce) b = (Inr bs, b'))"

definition answered :: "SignedEnv \<Rightarrow> PeerId \<Rightarrow> PeerId \<Rightarrow> bytes \<Rightarrow> 32 arr \<Rightarrow> (SignedRouteError + 'a SignedRouteReceive) \<Rightarrow> bool" where
  "answered env me p datagram nonce res \<longleftrightarrow>
    (\<exists>st wall b payload b'. res = Inr (RouteConfirmed p) \<and> boundary_open env datagram st wall b = (Inr (p, payload), b') \<and>
      pl_bytes payload = encode_control RESPONSE me nonce)"

lemma boundary_frame:
  "bd_signer (snd (boundary_seal env m b)) = bd_signer b" "bd_signer (snd (boundary_open env d st wall b)) = bd_signer b"
  by (simp_all add: boundary_seal_def boundary_open_def split_beta Let_def split: sum.split prod.split)

definition unexpired :: "instant \<Rightarrow> 'a SignedPeerRoutes \<Rightarrow> 'a SignedPeerRoutes" where
  "unexpired now r = r\<lparr>sr_pending := filter (\<lambda>(_, c). now - pr_issued c < sr_challenge_ttl r) (sr_pending r)\<rparr>"

lemma start_probe_cases:
  assumes "start_probe env peer source now nonce b r = (res, b', r')"
  obtains (kept) "r' = unexpired now r" "bd_signer b' = bd_signer b"
  | (sent) bs where "r' = (unexpired now r)\<lparr>sr_pending := AList.update peer \<lparr>pr_address = source, pr_nonce = nonce, pr_issued = now\<rparr> (sr_pending (unexpired now r))\<rparr>"
      "res = Inr (Some \<lparr>dg_destination = source, dg_bytes = bs\<rparr>)" "boundary_seal env (encode_control CHALLENGE peer nonce) b = (Inr bs, b')"
      "\<not> (map_of (sr_pending (unexpired now r)) peer = None \<and> map_of (sr_confirmed r) peer = None \<and>
          sr_max_peers r \<le> length (sr_confirmed r) + length (sr_pending (unexpired now r)))"
proof -
  obtain sealed b1 where seal: "boundary_seal env (encode_control CHALLENGE peer nonce) b = (sealed, b1)"
    by fastforce
  then have "bd_signer b1 = bd_signer b"
    using boundary_frame(1) [of env "encode_control CHALLENGE peer nonce" b] by simp
  then show thesis
    using assms kept sent unfolding start_probe_def seal unexpired_def [symmetric] Let_def
    by (cases sealed) (auto simp: unexpired_def split: if_splits)
qed

lemma unexpired_simps [simp]:
  "sr_confirmed (unexpired now r) = sr_confirmed r" "sr_max_peers (unexpired now r) = sr_max_peers r" "sr_challenge_ttl (unexpired now r) = sr_challenge_ttl r"
  by (simp_all add: unexpired_def)

lemma unexpired_pending:
  assumes "keys_distinct (sr_pending r)"
  shows "map_of (sr_pending (unexpired now r)) p = Some c \<Longrightarrow> map_of (sr_pending r) p = Some c"
  using assms by (auto simp: unexpired_def map_of_filter_distinct split: option.splits if_splits)

lemma start_probe_pending:
  assumes "start_probe env peer source now nonce b r = (res, b', r')" "keys_distinct (sr_pending r)" "map_of (sr_pending r') p = Some c"
  shows "map_of (sr_pending r) p = Some c \<or>
    p = peer \<and> c = \<lparr>pr_address = source, pr_nonce = nonce, pr_issued = now\<rparr> \<and>
      (\<exists>bs. res = Inr (Some \<lparr>dg_destination = source, dg_bytes = bs\<rparr>) \<and> boundary_seal env (encode_control CHALLENGE p nonce) b = (Inr bs, b'))"
  using assms(1)
proof (cases rule: start_probe_cases)
  case kept
  then show ?thesis
    using assms(3) unexpired_pending [OF assms(2)] by simp
next
  case (sent bs)
  then show ?thesis
    using assms(3) unexpired_pending [OF assms(2)] by (cases "p = peer") simp_all
qed

lemma start_probe_frame:
  assumes "start_probe env peer source now nonce b r = (res, b', r')"
  shows "sr_confirmed r' = sr_confirmed r \<and> sr_max_peers r' = sr_max_peers r \<and> sr_challenge_ttl r' = sr_challenge_ttl r \<and> bd_signer b' = bd_signer b"
  using assms
proof (cases rule: start_probe_cases)
  case (sent bs)
  then show ?thesis
    using boundary_frame(1) [of env "encode_control CHALLENGE peer nonce" b] by simp
qed simp

definition dispatched :: "PeerId \<Rightarrow> (SignedRouteError + 'a SignedRouteReceive) \<Rightarrow> bool" where
  "dispatched p res \<longleftrightarrow> (\<exists>report. res = Inr (Framed p report)) \<or> (\<exists>control. res = Inr (Recovery p control))"

lemma receive_challenge_frame:
  "receive_challenge env peer frame source b = (res, b') \<Longrightarrow> \<not> dispatched p res \<and> bd_signer b' = bd_signer b"
  using boundary_frame(1) [of env _ b]
  by (auto simp: receive_challenge_def dispatched_def split: option.splits prod.splits if_splits sum.splits) (metis snd_conv)+

lemma receive_response_cases:
  assumes "receive_response env peer frame source now b r = (res, r')" "take 1 frame = [RESPONSE]"
  obtains (ignored) "res = Ignored" "r' = r"
  | (confirmed) c where "res = RouteConfirmed peer" "map_of (sr_pending r) peer = Some c" "pr_address c = source" "now - pr_issued c < sr_challenge_ttl r"
      "frame = encode_control RESPONSE (local_peer env b) (pr_nonce c)"
      "r' = r\<lparr>sr_pending := AList.delete peer (sr_pending r), sr_confirmed := AList.update peer \<lparr>cf_route = source, cf_signer = peer\<rparr> (sr_confirmed r)\<rparr>"
proof (cases "parse_control frame")
  case None
  then show ?thesis
    using assms(1) ignored by (simp add: receive_response_def)
next
  case (Some x)
  obtain recipient nonce where x: "x = (recipient, nonce)"
    by fastforce
  obtain kind where "frame = encode_control kind recipient nonce"
    using Some parse_control_exact unfolding x by blast
  then have frame: "frame = encode_control RESPONSE recipient nonce"
    using assms(2) by (simp add: encode_control_def)
  show ?thesis
  proof (cases "map_of (sr_pending r) peer")
    case None
    then show ?thesis
      using assms(1) Some x ignored by (simp add: receive_response_def split: if_splits)
  next
    case pend: (Some c)
    show ?thesis
    proof (cases "recipient = local_peer env b \<and> pr_address c = source \<and> pr_nonce c = nonce \<and> now - pr_issued c < sr_challenge_ttl r")
      case True
      then show ?thesis
        using assms(1) Some x pend frame confirmed [of c] by (simp add: receive_response_def)
    next
      case False
      then show ?thesis
        using assms(1) Some x pend ignored by (auto simp: receive_response_def split: if_splits)
    qed
  qed
qed

lemma dispatch_frame_cases:
  assumes "dispatch_frame env peer payload source now nonce n = (res, n')"
  obtains (routed) ra where "route peer (net_routes n) = Some source" "n' = n\<lparr>net_reassembler := ra\<rparr>" "\<And>p. dispatched p res \<Longrightarrow> p = peer"
  | (probing) out b r where "route peer (net_routes n) \<noteq> Some source" "start_probe env peer source now nonce (net_boundary n) (net_routes n) = (out, b, r)"
      "res = (case out of Inl e \<Rightarrow> Inl e | Inr challenge \<Rightarrow> Inr (Probing peer challenge))" "n' = n\<lparr>net_boundary := b, net_routes := r\<rparr>"
proof (cases "route peer (net_routes n) = Some source")
  case True
  obtain report ra where acc: "reasm_accept (sv_digest env) (net_reassembler n) peer payload now = (report, ra)"
    by fastforce
  have id: "n\<lparr>net_reassembler := net_reassembler n\<rparr> = n"
    by simp
  from True acc assms show ?thesis
    using routed [of ra] routed [of "net_reassembler n"] id
    by (cases "pl_bytes payload")
      (auto simp: dispatch_frame_def dispatched_def receive_control_def split: if_splits sum.splits option.splits)
next
  case False
  then show ?thesis
    using assms probing unfolding dispatch_frame_def
    by (cases "start_probe env peer source now nonce (net_boundary n) (net_routes n)") auto
qed

lemma routes_receive_cases:
  assumes "routes_receive env d source st now wall nonce n = (res, n')"
  obtains (quiet) b where "n' = n\<lparr>net_boundary := b\<rparr>" "bd_signer b = bd_signer (net_boundary n)" "\<And>p. \<not> dispatched p res"
  | (confirmed) peer payload b c where "boundary_open env d st wall (net_boundary n) = (Inr (peer, payload), b)" "res = Inr (RouteConfirmed peer)"
      "map_of (sr_pending (net_routes n)) peer = Some c" "pr_address c = source" "now - pr_issued c < sr_challenge_ttl (net_routes n)"
      "pl_bytes payload = encode_control RESPONSE (local_peer env (net_boundary n)) (pr_nonce c)"
      "n' = n\<lparr>net_boundary := b, net_routes := (net_routes n)\<lparr>sr_pending := AList.delete peer (sr_pending (net_routes n)),
         sr_confirmed := AList.update peer \<lparr>cf_route = source, cf_signer = peer\<rparr> (sr_confirmed (net_routes n))\<rparr>\<rparr>"
      "bd_signer b = bd_signer (net_boundary n)"
  | (routed) peer b ra where "route peer (net_routes n) = Some source" "n' = n\<lparr>net_boundary := b, net_reassembler := ra\<rparr>"
      "\<And>p. dispatched p res \<Longrightarrow> p = peer" "bd_signer b = bd_signer (net_boundary n)"
  | (probing) peer b0 out b r where "start_probe env peer source now nonce b0 (net_routes n) = (out, b, r)"
      "res = (case out of Inl e \<Rightarrow> Inl e | Inr challenge \<Rightarrow> Inr (Probing peer challenge))" "n' = n\<lparr>net_boundary := b, net_routes := r\<rparr>"
      "bd_signer b0 = bd_signer (net_boundary n)"
proof -
  obtain o' b where op: "boundary_open env d st wall (net_boundary n) = (o', b)"
    by fastforce
  have sig: "bd_signer b = bd_signer (net_boundary n)"
    using boundary_frame(2) [of env d st wall "net_boundary n"] op by simp
  have me: "local_peer env b = local_peer env (net_boundary n)"
    using sig by (simp add: local_peer_def)
  show thesis
  proof (cases o')
    case (Inl e)
    then show ?thesis
      using assms op sig quiet [of b] by (auto simp: routes_receive_def dispatched_def)
  next
    case (Inr x)
    obtain peer payload where x: "x = (peer, payload)"
      by fastforce
    note run = assms [unfolded routes_receive_def op Inr x Let_def, simplified]
    consider (challenge) "take 1 (pl_bytes payload) = [CHALLENGE]" | (response) "take 1 (pl_bytes payload) = [RESPONSE]"
      | (other) "take 1 (pl_bytes payload) \<noteq> [CHALLENGE]" "take 1 (pl_bytes payload) \<noteq> [RESPONSE]"
      by blast
    then show ?thesis
    proof cases
      case challenge
      obtain out b1 where rc: "receive_challenge env peer (pl_bytes payload) source b = (out, b1)"
        by fastforce
      then show ?thesis
        using run challenge receive_challenge_frame [OF rc] sig quiet [of b1] by auto
    next
      case response
      obtain out r1 where rr: "receive_response env peer (pl_bytes payload) source now b (net_routes n) = (out, r1)"
        by fastforce
      then have eqs: "res = Inr out" "n' = n\<lparr>net_boundary := b, net_routes := r1\<rparr>"
        using run response by (auto simp: control_consts)
      from rr response show ?thesis
      proof (cases rule: receive_response_cases)
        case ignored
        then show ?thesis
          using eqs sig quiet [of b] by (auto simp: dispatched_def)
      next
        case (confirmed c)
        then show ?thesis
          using eqs sig me op Inr x that(2) [where peer = peer and payload = payload and b = b and c = c] by simp
      qed
    next
      case other
      then have "dispatch_frame env peer payload source now nonce (n\<lparr>net_boundary := b\<rparr>) = (res, n')"
        using run by simp
      then show ?thesis
      proof (cases rule: dispatch_frame_cases)
        case (routed ra)
        then show ?thesis
          using sig that(3) [where peer = peer and b = b and ra = ra] by auto
      next
        case (probing out b' r)
        then show ?thesis
          using sig that(4) [where peer = peer and ?b0.0 = b and out = out and b = b' and r = r] by simp
      qed
    qed
  qed
qed

section \<open>Runs of the route directory\<close>

datatype 'a route_event =
    Arrive bytes 'a "PeerId \<Rightarrow> bool \<times> nat" instant Stamp "32 arr"
  | Forget PeerId
  | SealTo PeerId bytes

fun route_step :: "SignedEnv \<Rightarrow> 'a route_event \<Rightarrow> 'a SignedNet \<Rightarrow> (SignedRouteError + 'a SignedRouteReceive) \<times> 'a SignedNet" where
  "route_step env (Arrive d source st now wall nonce) n = routes_receive env d source st now wall nonce n"
| "route_step env (Forget p) n = (Inr Ignored, n\<lparr>net_routes := routes_decommission p (net_routes n)\<rparr>)"
| "route_step env (SealTo p frame) n = (Inr Ignored, n\<lparr>net_boundary := snd (seal_to env (net_routes n) p frame (net_boundary n))\<rparr>)"

type_synonym 'a route_history = "('a route_event \<times> (SignedRouteError + 'a SignedRouteReceive)) list"

definition route_run :: "SignedEnv \<Rightarrow> 'a route_event list \<Rightarrow> 'a SignedNet \<Rightarrow> 'a route_history \<times> 'a SignedNet" where
  "route_run env evs n = foldl (\<lambda>(h, n) ev. let (res, n') = route_step env ev n in (h @ [(ev, res)], n')) ([], n) evs"

definition net_new :: "SignedDatagramBoundary \<Rightarrow> nat \<Rightarrow> duration \<Rightarrow> ReassemblyLimits \<Rightarrow> 'a SignedNet" where
  "net_new b max_peers ttl lim = \<lparr>net_boundary = b, net_routes = routes_new max_peers ttl, net_reassembler = for_identity lim\<rparr>"

text \<open>The evidence for an outstanding challenge and for a confirmed route, in a history.\<close>

definition challenge_sent :: "SignedEnv \<Rightarrow> 'a route_history \<Rightarrow> PeerId \<Rightarrow> 'a \<Rightarrow> 32 arr \<Rightarrow> instant \<Rightarrow> nat \<Rightarrow> bool" where
  "challenge_sent env h p a nonce issued i \<longleftrightarrow>
    i < length h \<and> (\<exists>d st wall res. h ! i = (Arrive d a st issued wall nonce, res) \<and> challenged env p a nonce res)"

definition route_proved :: "SignedEnv \<Rightarrow> PeerId \<Rightarrow> duration \<Rightarrow> 'a route_history \<Rightarrow> PeerId \<Rightarrow> 'a \<Rightarrow> bool" where
  "route_proved env me ttl h p a \<longleftrightarrow>
    (\<exists>i j nonce issued d st now wall nonce' res. challenge_sent env h p a nonce issued i \<and> i < j \<and> j < length h \<and>
      h ! j = (Arrive d a st now wall nonce', res) \<and> answered env me p d nonce res \<and> now - issued < ttl)"

definition routes_inv :: "SignedEnv \<Rightarrow> PeerId \<Rightarrow> duration \<Rightarrow> nat \<Rightarrow> 'a route_history \<Rightarrow> 'a SignedNet \<Rightarrow> bool" where
  "routes_inv env me ttl max_peers h n \<longleftrightarrow>
    local_peer env (net_boundary n) = me \<and> sr_challenge_ttl (net_routes n) = ttl \<and> sr_max_peers (net_routes n) = max_peers \<and> routes_wf (net_routes n) \<and>
    (\<forall>p c. map_of (sr_pending (net_routes n)) p = Some c \<longrightarrow> (\<exists>i. challenge_sent env h p (pr_address c) (pr_nonce c) (pr_issued c) i)) \<and>
    (\<forall>p c. map_of (sr_confirmed (net_routes n)) p = Some c \<longrightarrow> cf_signer c = p \<and> route_proved env me ttl h p (cf_route c))"

lemma challenge_sent_append: "challenge_sent env h p a nonce t i \<Longrightarrow> challenge_sent env (h @ x) p a nonce t i"
  by (auto simp: challenge_sent_def nth_append)

lemma route_proved_append:
  assumes "route_proved env me ttl h p a"
  shows "route_proved env me ttl (h @ x) p a"
proof -
  obtain i j nonce issued d st now wall nonce' res where "challenge_sent env h p a nonce issued i" "i < j" "j < length h"
    "h ! j = (Arrive d a st now wall nonce', res)" "answered env me p d nonce res" "now - issued < ttl"
    using assms unfolding route_proved_def by blast
  moreover have "(h @ x) ! j = h ! j" "j < length (h @ x)"
    using calculation(3) by (simp_all add: nth_append)
  ultimately show ?thesis
    using challenge_sent_append [of env h p a nonce issued i x] unfolding route_proved_def by metis
qed

lemma finite_routed_ids [simp]: "finite (routed_ids r)"
  by (simp add: routed_ids_def finite_dom_map_of)

lemma routes_wf_subset:
  assumes "routes_wf r" "routed_ids r' \<subseteq> routed_ids r" "keys_distinct (sr_confirmed r')" "keys_distinct (sr_pending r')" "sr_max_peers r' = sr_max_peers r"
  shows "routes_wf r'"
  using assms card_mono [OF finite_routed_ids assms(2)] by (simp add: routes_wf_def)

lemma routes_wf_unexpired:
  assumes "routes_wf r"
  shows "routes_wf (unexpired now r)"
proof (rule routes_wf_subset [OF assms])
  have "keys_distinct (sr_pending r)"
    using assms by (simp add: routes_wf_def)
  then show "routed_ids (unexpired now r) \<subseteq> routed_ids r"
    using unexpired_pending [of r now] by (auto simp: routed_ids_def)
qed (use assms in \<open>simp_all add: routes_wf_def unexpired_def\<close>)

lemma routes_wf_confirm:
  assumes "routes_wf r" "map_of (sr_pending r) p = Some c"
  shows "routes_wf (r\<lparr>sr_pending := AList.delete p (sr_pending r), sr_confirmed := AList.update p x (sr_confirmed r)\<rparr>)"
  by (rule routes_wf_subset [OF assms(1)]) (use assms in \<open>auto simp: routes_wf_def routed_ids_def update_conv' delete_conv' split: if_splits\<close>)

lemma routes_wf_forget:
  assumes "routes_wf r"
  shows "routes_wf (routes_decommission p r)"
  by (rule routes_wf_subset [OF assms])
    (use assms in \<open>auto simp: routes_wf_def routed_ids_def routes_decommission_def delete_conv' split: if_splits\<close>)

lemma card_dom_distinct: "keys_distinct m \<Longrightarrow> card (dom (map_of m)) = length m"
  by (metis distinct_card dom_map_of_conv_image_fst length_map set_map)

lemma routes_wf_probe:
  assumes "routes_wf r" "start_probe env peer source now nonce b r = (res, b', r')"
  shows "routes_wf r'"
  using assms(2)
proof (cases rule: start_probe_cases)
  case kept
  then show ?thesis
    using routes_wf_unexpired [OF assms(1)] by simp
next
  case (sent bs)
  let ?u = "unexpired now r"
  have u: "routes_wf ?u"
    using routes_wf_unexpired [OF assms(1)] .
  have ids: "routed_ids r' = insert peer (routed_ids ?u)"
    using sent(1) by (auto simp: routed_ids_def update_conv' split: if_splits)
  have "card (insert peer (routed_ids ?u)) \<le> sr_max_peers r"
  proof (cases "peer \<in> routed_ids ?u")
    case True
    then show ?thesis
      using u by (simp add: insert_absorb routes_wf_def)
  next
    case False
    then have "length (sr_confirmed r) + length (sr_pending ?u) < sr_max_peers r"
      using sent(4) by (auto simp: routed_ids_def dom_def)
    moreover have "card (routed_ids ?u) \<le> length (sr_confirmed r) + length (sr_pending ?u)"
      using u card_Un_le [of "dom (map_of (sr_confirmed r))" "dom (map_of (sr_pending ?u))"]
      by (simp add: routed_ids_def routes_wf_def card_dom_distinct)
    ultimately show ?thesis
      using False by simp
  qed
  then show ?thesis
    using u sent(1) ids by (simp add: routes_wf_def)
qed

lemma routes_inv_evidence:
  assumes "routes_inv env me ttl m h n"
  shows "map_of (sr_pending (net_routes n)) p = Some c \<Longrightarrow> \<exists>i. challenge_sent env h p (pr_address c) (pr_nonce c) (pr_issued c) i"
    "map_of (sr_confirmed (net_routes n)) p = Some c' \<Longrightarrow> cf_signer c' = p \<and> route_proved env me ttl h p (cf_route c')"
  using assms by (simp_all add: routes_inv_def)

lemma routes_invI:
  assumes "routes_inv env me ttl m h n" "local_peer env (net_boundary n') = me" "sr_challenge_ttl (net_routes n') = ttl"
    "sr_max_peers (net_routes n') = m" "routes_wf (net_routes n')"
    "\<And>p c. map_of (sr_pending (net_routes n')) p = Some c \<Longrightarrow>
      map_of (sr_pending (net_routes n)) p = Some c \<or> (\<exists>i. challenge_sent env (h @ [x]) p (pr_address c) (pr_nonce c) (pr_issued c) i)"
    "\<And>p c. map_of (sr_confirmed (net_routes n')) p = Some c \<Longrightarrow>
      map_of (sr_confirmed (net_routes n)) p = Some c \<or> cf_signer c = p \<and> route_proved env me ttl (h @ [x]) p (cf_route c)"
  shows "routes_inv env me ttl m (h @ [x]) n'"
proof -
  have pend: "\<exists>i. challenge_sent env (h @ [x]) p (pr_address c) (pr_nonce c) (pr_issued c) i" if "map_of (sr_pending (net_routes n)) p = Some c" for p c
    using routes_inv_evidence(1) [OF assms(1) that] by (auto intro: challenge_sent_append)
  have conf: "cf_signer c = p \<and> route_proved env me ttl (h @ [x]) p (cf_route c)" if "map_of (sr_confirmed (net_routes n)) p = Some c" for p c
    using routes_inv_evidence(2) [OF assms(1) that] by (auto intro: route_proved_append)
  show ?thesis
    unfolding routes_inv_def
  proof (intro conjI allI impI)
    fix p c
    assume "map_of (sr_pending (net_routes n')) p = Some c"
    from assms(6) [OF this] show "\<exists>i. challenge_sent env (h @ [x]) p (pr_address c) (pr_nonce c) (pr_issued c) i"
      using pend by blast
  next
    fix p c
    assume "map_of (sr_confirmed (net_routes n')) p = Some c"
    from assms(7) [OF this] conf [of p c] show "cf_signer c = p" "route_proved env me ttl (h @ [x]) p (cf_route c)"
      by blast+
  qed (use assms(2-5) in simp_all)
qed

lemma routes_inv_same:
  assumes "routes_inv env me ttl m h n" "bd_signer (net_boundary n') = bd_signer (net_boundary n)" "net_routes n' = net_routes n"
  shows "routes_inv env me ttl m (h @ [x]) n'"
  using assms by (intro routes_invI [OF assms(1)]) (simp_all add: routes_inv_def local_peer_def)

lemma routes_inv_confirm:
  assumes inv: "routes_inv env me ttl m h n" and op: "boundary_open env d st wall (net_boundary n) = (Inr (peer, payload), b)"
    and pend: "map_of (sr_pending (net_routes n)) peer = Some c" "pr_address c = source" "now - pr_issued c < sr_challenge_ttl (net_routes n)"
    and pl: "pl_bytes payload = encode_control RESPONSE (local_peer env (net_boundary n)) (pr_nonce c)" and sig: "bd_signer b = bd_signer (net_boundary n)"
    and n': "n' = n\<lparr>net_boundary := b, net_routes := (net_routes n)\<lparr>sr_pending := AList.delete peer (sr_pending (net_routes n)),
         sr_confirmed := AList.update peer \<lparr>cf_route = source, cf_signer = peer\<rparr> (sr_confirmed (net_routes n))\<rparr>\<rparr>"
  shows "routes_inv env me ttl m (h @ [(Arrive d source st now wall nonce, Inr (RouteConfirmed peer))]) n'" (is "routes_inv _ _ _ _ (h @ [?x]) _")
proof (rule routes_invI [OF inv])
  have me: "local_peer env (net_boundary n) = me" "sr_challenge_ttl (net_routes n) = ttl" "sr_max_peers (net_routes n) = m" "routes_wf (net_routes n)"
    using inv by (simp_all add: routes_inv_def)
  then show "local_peer env (net_boundary n') = me" "sr_challenge_ttl (net_routes n') = ttl" "sr_max_peers (net_routes n') = m" "routes_wf (net_routes n')"
    using sig n' routes_wf_confirm [OF me(4) pend(1)] by (simp_all add: local_peer_def)
  fix p c'
  show "map_of (sr_pending (net_routes n')) p = Some c' \<Longrightarrow>
      map_of (sr_pending (net_routes n)) p = Some c' \<or> (\<exists>i. challenge_sent env (h @ [?x]) p (pr_address c') (pr_nonce c') (pr_issued c') i)"
    using n' by (cases "p = peer") simp_all
next
  have ans: "answered env me peer d (pr_nonce c) (Inr (RouteConfirmed peer) :: SignedRouteError + 'a SignedRouteReceive)"
  proof -
    have "local_peer env (net_boundary n) = me"
      using inv by (simp add: routes_inv_def)
    then show ?thesis
      using op pl unfolding answered_def by blast
  qed
  obtain i where i: "challenge_sent env h peer source (pr_nonce c) (pr_issued c) i"
    using routes_inv_evidence(1) [OF inv pend(1)] pend(2) by auto
  then have "i < length h" "challenge_sent env (h @ [?x]) peer source (pr_nonce c) (pr_issued c) i"
    by (simp add: challenge_sent_def, rule challenge_sent_append)
  then have proved: "route_proved env me ttl (h @ [?x]) peer source"
    using ans pend inv unfolding route_proved_def routes_inv_def
    by (intro exI [of _ i] exI [of _ "length h"] exI [of _ "pr_nonce c"] exI [of _ "pr_issued c"] exI [of _ d] exI [of _ st] exI [of _ now]
        exI [of _ wall] exI [of _ nonce] exI [of _ "Inr (RouteConfirmed peer)"]) simp
  fix p c'
  show "map_of (sr_confirmed (net_routes n')) p = Some c' \<Longrightarrow>
      map_of (sr_confirmed (net_routes n)) p = Some c' \<or> cf_signer c' = p \<and> route_proved env me ttl (h @ [?x]) p (cf_route c')"
    using n' proved by (cases "p = peer") auto
qed

lemma routes_inv_probe:
  assumes inv: "routes_inv env me ttl m h n" and probe: "start_probe env peer source now nonce b0 (net_routes n) = (out, b, r)"
    and res: "res = (case out of Inl e \<Rightarrow> Inl e | Inr challenge \<Rightarrow> Inr (Probing peer challenge))"
    and n': "n' = n\<lparr>net_boundary := b, net_routes := r\<rparr>" and sig: "bd_signer b0 = bd_signer (net_boundary n)"
  shows "routes_inv env me ttl m (h @ [(Arrive d source st now wall nonce, res)]) n'" (is "routes_inv _ _ _ _ (h @ [?x]) _")
proof (rule routes_invI [OF inv])
  have me: "local_peer env (net_boundary n) = me" "sr_challenge_ttl (net_routes n) = ttl" "sr_max_peers (net_routes n) = m" "routes_wf (net_routes n)"
    using inv by (simp_all add: routes_inv_def)
  then show "local_peer env (net_boundary n') = me" "sr_challenge_ttl (net_routes n') = ttl" "sr_max_peers (net_routes n') = m" "routes_wf (net_routes n')"
    using start_probe_frame [OF probe] routes_wf_probe [OF me(4) probe] n' sig by (simp_all add: local_peer_def)
  fix p c
  assume c: "map_of (sr_pending (net_routes n')) p = Some c"
  have "keys_distinct (sr_pending (net_routes n))"
    using me(4) by (simp add: routes_wf_def)
  from start_probe_pending [OF probe this] c n'
  consider "map_of (sr_pending (net_routes n)) p = Some c"
    | bs where "p = peer" "c = \<lparr>pr_address = source, pr_nonce = nonce, pr_issued = now\<rparr>" "out = Inr (Some \<lparr>dg_destination = source, dg_bytes = bs\<rparr>)"
      "boundary_seal env (encode_control CHALLENGE p nonce) b0 = (Inr bs, b)"
    by auto
  then show "map_of (sr_pending (net_routes n)) p = Some c \<or> (\<exists>i. challenge_sent env (h @ [?x]) p (pr_address c) (pr_nonce c) (pr_issued c) i)"
  proof cases
    case (2 bs)
    then have "challenged env p source nonce res"
      unfolding challenged_def res by auto
    then have "challenge_sent env (h @ [?x]) p source nonce now (length h)"
      by (auto simp: challenge_sent_def)
    then show ?thesis
      using 2 by auto
  qed simp
next
  fix p c
  show "map_of (sr_confirmed (net_routes n')) p = Some c \<Longrightarrow>
      map_of (sr_confirmed (net_routes n)) p = Some c \<or> cf_signer c = p \<and> route_proved env me ttl (h @ [?x]) p (cf_route c)"
    using start_probe_frame [OF probe] n' by simp
qed

text \<open>Every frame or recovery control that was handed on came over a route proved before.\<close>

definition dispatches_proved :: "SignedEnv \<Rightarrow> PeerId \<Rightarrow> duration \<Rightarrow> 'a route_history \<Rightarrow> bool" where
  "dispatches_proved env me ttl h \<longleftrightarrow>
    (\<forall>k d a st now wall nonce res p. k < length h \<longrightarrow> h ! k = (Arrive d a st now wall nonce, res) \<longrightarrow> dispatched p res \<longrightarrow>
      route_proved env me ttl (take k h) p a)"

lemma route_run_snoc:
  "route_run env (evs @ [ev]) n =
    (let (h, n1) = route_run env evs n; (res, n') = route_step env ev n1 in (h @ [(ev, res)], n'))"
  by (simp add: route_run_def split_beta)

lemma route_Some: "route p r = Some a \<Longrightarrow> \<exists>c. map_of (sr_confirmed r) p = Some c \<and> cf_route c = a"
  by (auto simp: route_def)

lemma dispatches_proved_snoc:
  assumes "dispatches_proved env me ttl h"
    "\<And>d a st now wall nonce p. ev = Arrive d a st now wall nonce \<Longrightarrow> dispatched p res \<Longrightarrow> route_proved env me ttl h p a"
  shows "dispatches_proved env me ttl (h @ [(ev, res)])"
  unfolding dispatches_proved_def
proof (intro allI impI)
  fix k d a st now wall nonce res' p
  assume k: "k < length (h @ [(ev, res)])" "(h @ [(ev, res)]) ! k = (Arrive d a st now wall nonce, res')" "dispatched p res'"
  show "route_proved env me ttl (take k (h @ [(ev, res)])) p a"
  proof (cases "k < length h")
    case True
    then have "h ! k = (Arrive d a st now wall nonce, res')"
      using k(2) by (simp add: nth_append)
    then have "route_proved env me ttl (take k h) p a"
      using assms(1) True k(3) unfolding dispatches_proved_def by blast
    then show ?thesis
      using True by simp
  next
    case False
    then have "k = length h" "ev = Arrive d a st now wall nonce" "res' = res"
      using k by (simp_all add: nth_append)
    then show ?thesis
      using assms(2) k(3) by simp
  qed
qed

lemma dispatches_proved_other:
  assumes "dispatches_proved env me ttl h" "\<And>p. \<not> dispatched p res"
  shows "dispatches_proved env me ttl (h @ [(ev, res)])"
  by (rule dispatches_proved_snoc [OF assms(1)]) (simp add: assms(2))

lemma dispatches_proved_ignored: "dispatches_proved env me ttl h \<Longrightarrow> dispatches_proved env me ttl (h @ [(ev, Inr Ignored)])"
  by (rule dispatches_proved_other) (simp_all add: dispatched_def)

lemma routes_step_inv:
  assumes inv: "routes_inv env me ttl m h n" and disp: "dispatches_proved env me ttl h" and step: "route_step env ev n = (res, n')"
  shows "routes_inv env me ttl m (h @ [(ev, res)]) n' \<and> dispatches_proved env me ttl (h @ [(ev, res)])"
proof (cases ev)
  case (Arrive d source st now wall nonce)
  then have "routes_receive env d source st now wall nonce n = (res, n')"
    using step by simp
  then show ?thesis
  proof (cases rule: routes_receive_cases)
    case (quiet b)
    then show ?thesis
      using routes_inv_same [OF inv, of n' "(ev, res)"] dispatches_proved_other [OF disp, of res ev] by simp
  next
    case (confirmed peer payload b c)
    have "\<not> dispatched p res" for p
      using confirmed(2) by (simp add: dispatched_def)
    then show ?thesis
      using routes_inv_confirm [OF inv confirmed(1,3,4,5,6,8,7)] dispatches_proved_other [OF disp, of res ev] confirmed(2) Arrive by simp
  next
    case (routed peer b ra)
    obtain c where "map_of (sr_confirmed (net_routes n)) peer = Some c" "cf_route c = source"
      using route_Some [OF routed(1)] by blast
    then have proved: "route_proved env me ttl h peer source"
      using routes_inv_evidence(2) [OF inv] by blast
    have "dispatches_proved env me ttl (h @ [(ev, res)])"
      by (rule dispatches_proved_snoc [OF disp]) (use routed(3) proved Arrive in auto)
    then show ?thesis
      using routes_inv_same [OF inv, of n' "(ev, res)"] routed by simp
  next
    case (probing peer b0 out b r)
    have "\<not> dispatched p res" for p
      using probing(2) by (auto simp: dispatched_def split: sum.splits)
    then show ?thesis
      using routes_inv_probe [OF inv probing(1,2,3,4)] dispatches_proved_other [OF disp, of res ev] Arrive by simp
  qed
next
  case (Forget p)
  then have n': "n' = n\<lparr>net_routes := routes_decommission p (net_routes n)\<rparr>" "res = Inr Ignored"
    using step by simp_all
  have "routes_inv env me ttl m (h @ [(ev, res)]) n'"
  proof (rule routes_invI [OF inv])
    show "local_peer env (net_boundary n') = me" "sr_challenge_ttl (net_routes n') = ttl" "sr_max_peers (net_routes n') = m" "routes_wf (net_routes n')"
      using inv n' routes_wf_forget [of "net_routes n" p] by (simp_all add: routes_inv_def routes_decommission_def)
  qed (simp_all add: n' routes_decommission_def delete_conv' split: if_splits)
  then show ?thesis
    using dispatches_proved_ignored [OF disp, of ev] n'(2) by simp
next
  case (SealTo p frame)
  have "bd_signer (snd (seal_to env (net_routes n) p frame (net_boundary n))) = bd_signer (net_boundary n)"
    using boundary_frame(1) [of env frame "net_boundary n"] by (auto simp: seal_to_def split: option.splits prod.splits sum.splits)
  then show ?thesis
    using routes_inv_same [OF inv, of n' "(ev, res)"] dispatches_proved_ignored [OF disp, of ev] SealTo step by auto
qed

lemma routes_run_inv:
  "routes_inv env (local_peer env b) ttl m (fst (route_run env evs (net_new b m ttl lim))) (snd (route_run env evs (net_new b m ttl lim))) \<and>
    dispatches_proved env (local_peer env b) ttl (fst (route_run env evs (net_new b m ttl lim)))"
proof (induction evs rule: rev_induct)
  case Nil
  show ?case
    by (simp add: route_run_def net_new_def routes_new_def routes_inv_def routes_wf_def routed_ids_def dispatches_proved_def)
next
  case (snoc ev evs)
  obtain h n1 where run: "route_run env evs (net_new b m ttl lim) = (h, n1)"
    by fastforce
  obtain res n2 where step: "route_step env ev n1 = (res, n2)"
    by fastforce
  have "routes_inv env (local_peer env b) ttl m h n1" "dispatches_proved env (local_peer env b) ttl h"
    using snoc.IH run by simp_all
  from routes_step_inv [OF this step] show ?case
    by (simp add: route_run_snoc run step)
qed

text \<open>C18: a signed node hands on protocol traffic only over proved routes. Whatever datagrams arrive from whatever
  addresses, with peers forgotten and frames sealed in between: when a frame or a recovery control of a signer is handed
  on, a challenge with a nonce drawn for it had been sent to the very address it came from, and a datagram of that
  signer from that address had returned the nonce to this node in time. The directory of routes and the
  outstanding challenges together never name more identities than its bound.\<close>

theorem dispatch_needs_proved_route:
  "dispatches_proved env (local_peer env b) ttl (fst (route_run env evs (net_new b max_peers ttl lim))) \<and>
    card (routed_ids (net_routes (snd (route_run env evs (net_new b max_peers ttl lim))))) \<le> max_peers"
  using routes_run_inv [of env b ttl max_peers evs lim] by (simp add: routes_inv_def routes_wf_def)

section \<open>The signed boundary: lemmas\<close>

lemma envelope_verify_replay_cases:
  "envelope_verify_replay a payload peer now f =
    (if a \<noteq> Disabled \<and> fst (verified_check_and_record f peer (pl_seq payload) (pl_stamp payload) now) then Some payload else None,
     if a = Disabled then f else snd (verified_check_and_record f peer (pl_seq payload) (pl_stamp payload) now))"
  by (simp add: envelope_verify_replay_def verify_replay_from_signed_envelope_def split_beta Let_def)

lemma envelope_authenticate_exact:
  "envelope_authenticate c a inner = Inr payload \<longleftrightarrow> (\<exists>opened. open_datagram c a inner = Some opened \<and> check_version opened = Inr payload)"
  by (auto simp: envelope_authenticate_def split: option.splits sum.splits)

text \<open>C39: the signed boundary admits exactly what it should. A datagram is admitted for a signer exactly when it is the
  canonical envelope of that signer around an inner datagram, within the limits, the signer is on the allowlist
  and its key strictly verifies the signature over domain, length, version and all inner bytes, the inner datagram
  opens under the cluster key with the wire version, the signer is known or there is room, and its replay window takes the
  sequence number.\<close>

theorem signed_open_exact:
  "fst (boundary_open env d peer_state now b) = Inr (p, payload) \<longleftrightarrow>
     bd_authenticator b \<noteq> Disabled \<and>
     (\<exists>sig inner opened. d = envelope_bytes p sig inner \<and> length d \<le> bd_mtu b \<and> length inner < 2 ^ 32 \<and> p \<in> set (bd_allowlist b) \<and>
        envelope_signed (sv_ed env) p sig inner \<and>
        open_datagram (sv_crypto env) (bd_authenticator b) inner = Some opened \<and> check_version opened = Inr payload) \<and>
     (fst (peer_state p) \<or> snd (peer_state p) < bd_max_peers b) \<and>
     fst (verified_check_and_record (bd_replay b) p (pl_seq payload) (pl_stamp payload) now)"
  (is "?open \<longleftrightarrow> ?exact")
proof
  assume o: ?open
  then obtain q inner where e: "envelope_open (sv_ed env) (bd_allowlist b) d (bd_mtu b) = Inr (q, inner)"
    by (auto simp: boundary_open_def split: sum.splits)
  moreover obtain pl where a: "envelope_authenticate (sv_crypto env) (bd_authenticator b) inner = Inr pl"
    using o e by (auto simp: boundary_open_def split: sum.splits)
  ultimately have "q = p" "pl = payload" "fst (peer_state p) \<or> snd (peer_state p) < bd_max_peers b" "bd_authenticator b \<noteq> Disabled"
    "fst (verified_check_and_record (bd_replay b) p (pl_seq payload) (pl_stamp payload) now)"
    using o by (auto simp: boundary_open_def envelope_verify_replay_cases split_beta Let_def split: if_splits)
  then show ?exact
    using e [unfolded envelope_open_exact] a [unfolded envelope_authenticate_exact] by blast
next
  assume x: ?exact
  then obtain sig inner opened where s: "d = envelope_bytes p sig inner \<and> length d \<le> bd_mtu b \<and> length inner < 2 ^ 32 \<and> p \<in> set (bd_allowlist b) \<and>
        envelope_signed (sv_ed env) p sig inner" and
      o: "open_datagram (sv_crypto env) (bd_authenticator b) inner = Some opened" "check_version opened = Inr payload"
    by blast
  have "envelope_open (sv_ed env) (bd_allowlist b) d (bd_mtu b) = Inr (p, inner)"
    using s unfolding envelope_open_exact by blast
  moreover have "envelope_authenticate (sv_crypto env) (bd_authenticator b) inner = Inr payload"
    using o unfolding envelope_authenticate_exact by blast
  ultimately show ?open
    using x by (auto simp: boundary_open_def envelope_verify_replay_cases split_beta Let_def)
qed

end
