(* ===== verification/SignedReplica.thy ===== *)
theory SignedReplica
  imports Persistence Peer
begin

text \<open>
  The signed replica (\<open>src/signed_replica.rs\<close>, \<open>signed_replica/causal.rs\<close>, \<open>signed_replica/network/\<close>): a single-writer
  last-writer-wins map whose peers are signing identities. The lemmas show that its causal state names only
  provisioned authorities and exact versions, that only an authority on a proved route can change an
  entry, and that a tick stays within its datagram budget.
\<close>

section \<open>Messages, configuration and state\<close>

datatype ('k, 'e) SignedMessage = Hello | Update 'k 'e | Ack 'k "64 word"

datatype signed_error = PermissionDenied | InvalidInput | InvalidRecord | BackendError io_error

record SignedConfig =
  sc_authorities :: "PeerId list"
  sc_readers :: "PeerId list"
  sc_read_only :: bool
  sc_max_peers :: nat
  sc_max_replay_senders :: nat
  sc_freshness_window :: duration
  sc_challenge_ttl :: duration
  sc_framing :: FramingConfig
  sc_max_frames_per_tick :: nat

definition signed_config_new :: "PeerId list \<Rightarrow> SignedConfig" where
  "signed_config_new authorities =
    \<lparr>sc_authorities = remdups authorities, sc_readers = [], sc_read_only = False, sc_max_peers = 256, sc_max_replay_senders = 512,
     sc_freshness_window = FRESHNESS_WINDOW_DEFAULT, sc_challenge_ttl = from_secs 5, sc_framing = framing_default, sc_max_frames_per_tick = 8192\<rparr>"

text \<open>
  The ports: the environment of the signed boundary, entries, the clock, the digest of an entry, the serializer, which can
  refuse a message, and the strict deserializer, which takes one whole message.
\<close>

record ('k, 'e, 't, 'v, 's, 'c, 'd, 'b) SignedOps =
  so_env :: SignedEnv
  so_entry :: "('e, 't, 'v, 's) EntryOps"
  so_clock :: "('c, 't) ClockOps"
  so_digest :: "'e \<Rightarrow> 'd"
  so_serialize :: "('k, 'e) SignedMessage \<Rightarrow> bytes option"
  so_deserialize :: "bytes \<Rightarrow> ('k, 'e) SignedMessage option"
  so_backend :: "('k, 'e, PeerId, 'b) Backend"

record ('k, 'e, 'a, 'c, 'b) SignedReplica =
  si_net :: "'a SignedNet"
  si_recovery :: "PeerId RecoveryBook"
  si_entries :: "('k, 'e) kv"
  si_members :: "PeerId list"
  si_acks :: "('k, PeerId) acks"
  si_generations :: "('k, 'e, PeerId) GenerationState"
  si_persistence :: 'b
  si_clock :: 'c
  si_authorities :: "PeerId list"
  si_readers :: "PeerId list"
  si_read_only :: bool
  si_framing :: FramingConfig
  outbound_cursors :: "(PeerId, 'k option) kv"
  next_peer_index :: nat
  max_peer_cap :: nat
  max_frames_per_tick :: nat

section \<open>Construction\<close>

fun load_entries ::
  "('e, 't, 'v, 's) EntryOps \<Rightarrow> ('c, 't) ClockOps \<Rightarrow> ('k::linorder \<times> 'e) list \<Rightarrow> ('k, 'e) kv \<Rightarrow> 'c \<Rightarrow> signed_error + ('k, 'e) kv \<times> 'c" where
  "load_entries en ck [] m c = Inr (m, c)"
| "load_entries en ck ((k, e) # es) m c =
    (let c' = ck_observe_trusted ck (en_stamp en e) c
     in if map_of m k \<noteq> None then Inl (BackendError InvalidData) else load_entries en ck es (bt_insert k e m) c')"

definition signed_limits_ok :: "PeerId \<Rightarrow> SignedConfig \<Rightarrow> bool" where
  "signed_limits_ok me cfg \<longleftrightarrow>
    \<not> (me \<in> set (sc_authorities cfg) \<or> me \<in> set (sc_readers cfg) \<or> set (sc_authorities cfg) \<inter> set (sc_readers cfg) \<noteq> {}) \<and>
    \<not> (sc_max_peers cfg < length (sc_authorities cfg) \<or> sc_max_replay_senders cfg < length (sc_authorities cfg) + length (sc_readers cfg))"

definition signed_framing_ok :: "SignedConfig \<Rightarrow> SignedDatagramBoundary \<Rightarrow> bool" where
  "signed_framing_ok cfg b \<longleftrightarrow>
    \<not> (payload_budget b \<le> FRAGMENT_HEADER_LEN \<or> payload_budget b < 65) \<and>
    \<not> (2 ^ 32 - 1 < max_logical_message_size (sc_framing cfg) \<or> max_fragments_per_message (sc_framing cfg) = 0 \<or>
       \<not> (1 \<le> sc_max_frames_per_tick cfg \<and> sc_max_frames_per_tick cfg \<le> 8192))"

definition signed_snapshot_ok :: "SignedConfig \<Rightarrow> ('k, 'e, PeerId) PersistedState option \<Rightarrow> bool" where
  "signed_snapshot_ok cfg loaded \<longleftrightarrow>
    (let saved = (case loaded of None \<Rightarrow> persisted_default | Some s \<Rightarrow> s)
     in \<not> (loaded \<noteq> None \<and>
           (if sc_read_only cfg then ps_members saved \<noteq> [] \<or> ps_tombstone_acks saved \<noteq> []
            else set (ps_members saved) \<noteq> set (sc_authorities cfg))) \<and>
        set (ps_members saved) \<subseteq> set (sc_authorities cfg) \<and>
        \<not> list_ex (\<lambda>(_, acks). list_ex (\<lambda>(peer, _). peer \<notin> set (sc_authorities cfg)) acks) (ps_tombstone_acks saved))"

text \<open>The replay filter holds the freshness window as \<open>as_millis() as u64\<close>.\<close>

definition signed_new ::
  "('k::linorder, 'e, 't, 'v, 's, 'c, 'd, 'b) SignedOps \<Rightarrow> SignedConfig \<Rightarrow> ClusterKey \<Rightarrow> PeerSigner \<Rightarrow> 'c \<Rightarrow> 'b \<Rightarrow>
    signed_error + ('k, 'e, 'a, 'c, 'b) SignedReplica" where
  "signed_new ops cfg key signer clock backend =
    (if \<not> signed_limits_ok (signer_peer_id (sv_ed (so_env ops)) signer) cfg then Inl InvalidInput
     else case authenticator_new False (Some key) False of
       None \<Rightarrow> Inl InvalidInput
     | Some a \<Rightarrow>
        (case boundary_new a signer (sc_authorities cfg @ sc_readers cfg) (of_nat (sc_freshness_window cfg div 1000000)) (sc_max_replay_senders cfg) (sc_max_peers cfg)
                (datagram_payload_budget (sc_framing cfg)) of
           Inl _ \<Rightarrow> Inl InvalidInput
         | Inr b \<Rightarrow>
            if \<not> signed_framing_ok cfg b then Inl InvalidInput
            else case bk_load (so_backend ops) backend of
              (Inl e, _) \<Rightarrow> Inl (BackendError e)
            | (Inr loaded, backend') \<Rightarrow>
               if \<not> signed_snapshot_ok cfg loaded then Inl (BackendError InvalidData)
               else let saved = (case loaded of None \<Rightarrow> persisted_default | Some s \<Rightarrow> s);
                        members = (if sc_read_only cfg then [] else sc_authorities cfg)
                    in case load_entries (so_entry ops) (so_clock ops) (ps_entries saved) [] clock of
                         Inl e \<Rightarrow> Inl e
                       | Inr (m, clock') \<Rightarrow>
                          Inr \<lparr>si_net = net_new b (sat_add (sc_max_peers cfg) (length (sc_readers cfg))) (sc_challenge_ttl cfg) (reassembly_limits (sc_framing cfg)),
                               si_recovery = book_for_identity, si_entries = m, si_members = members, si_acks = ps_tombstone_acks saved,
                               si_generations = (if loaded = None then foldl (\<lambda>g p. record_member p True g) generations_default members else generations_default),
                               si_persistence = backend', si_clock = clock', si_authorities = sc_authorities cfg, si_readers = sc_readers cfg,
                               si_read_only = sc_read_only cfg, si_framing = sc_framing cfg, outbound_cursors = [], next_peer_index = 0,
                               max_peer_cap = sc_max_peers cfg, max_frames_per_tick = sc_max_frames_per_tick cfg\<rparr>))"

section \<open>Sending\<close>

definition signed_budget :: "('k, 'e, 'a, 'c, 'b) SignedReplica \<Rightarrow> nat" where
  "signed_budget s = payload_budget (net_boundary (si_net s))"

definition required_fragments :: "nat \<Rightarrow> ('k, 'e, 'a, 'c, 'b) SignedReplica \<Rightarrow> signed_error + nat" where
  "required_fragments n s =
    (if max_logical_message_size (si_framing s) < n then Inl InvalidRecord
     else if sat_add n COMPLETE_HEADER_LEN \<le> signed_budget s then Inr 1
     else let chunk_len = signed_budget s - FRAGMENT_HEADER_LEN; count = (n + chunk_len - 1) div chunk_len
          in if max_fragments_per_message (si_framing s) < count \<or> max_frames_per_tick s < count then Inl InvalidRecord else Inr count)"

definition routed_frame ::
  "SignedEnv \<Rightarrow> PeerId \<Rightarrow> bytes \<Rightarrow> ('k, 'e, 'a, 'c, 'b) SignedReplica \<Rightarrow> (signed_error + 'a RoutedDatagram) \<times> ('k, 'e, 'a, 'c, 'b) SignedReplica" where
  "routed_frame env peer frame s =
    (let (r, b) = seal_to env (net_routes (si_net s)) peer frame (net_boundary (si_net s))
     in (case r of Inl _ \<Rightarrow> Inl InvalidRecord | Inr d \<Rightarrow> Inr d, s\<lparr>si_net := (si_net s)\<lparr>net_boundary := b\<rparr>\<rparr>))"

text \<open>Frames sent one after the other, until one cannot be written or sealed, or the limit is reached.\<close>

fun routed_frames ::
  "SignedEnv \<Rightarrow> PeerId \<Rightarrow> nat \<Rightarrow> (unit + bytes) list \<Rightarrow> 'a RoutedDatagram list \<Rightarrow> ('k, 'e, 'a, 'c, 'b) SignedReplica \<Rightarrow>
    (signed_error + 'a RoutedDatagram list) \<times> ('k, 'e, 'a, 'c, 'b) SignedReplica" where
  "routed_frames env peer limit [] acc s = (Inr acc, s)"
| "routed_frames env peer limit (Inl _ # fs) acc s = (Inl InvalidRecord, s)"
| "routed_frames env peer limit (Inr frame # fs) acc s =
    (case routed_frame env peer frame s of
       (Inl e, s') \<Rightarrow> (Inl e, s')
     | (Inr d, s') \<Rightarrow> if limit \<le> length (acc @ [d]) then (Inr (acc @ [d]), s') else routed_frames env peer limit fs (acc @ [d]) s')"

definition written :: "'x + bytes \<Rightarrow> unit + bytes" where
  "written r = (case r of Inl _ \<Rightarrow> Inl () | Inr bs \<Rightarrow> Inr bs)"

text \<open>The fragments of \<open>bytes[lo..hi]\<close>.\<close>

definition slice_fragments :: "transfer_id \<Rightarrow> bytes \<Rightarrow> nat \<Rightarrow> nat \<Rightarrow> nat \<Rightarrow> (unit + bytes) list" where
  "slice_fragments tid bs chunk_len lo hi =
    (let part = take (hi - lo) (drop lo bs)
     in map (\<lambda>i. written (write_fragment tid (length bs) (lo + i * chunk_len) (chunk chunk_len part i))) [0..<chunk_count chunk_len part])"

definition send_encoded ::
  "SignedEnv \<Rightarrow> PeerId \<Rightarrow> bytes \<Rightarrow> instant \<Rightarrow> ('k, 'e, 'a, 'c, 'b) SignedReplica \<Rightarrow>
    (signed_error + 'a RoutedDatagram list) \<times> ('k, 'e, 'a, 'c, 'b) SignedReplica" where
  "send_encoded env peer bs now s =
    (case required_fragments (length bs) s of
       Inl e \<Rightarrow> (Inl e, s)
     | Inr count \<Rightarrow>
        if count = 1 then
          (case routed_frame env peer (write_complete bs) s of (Inl e, s') \<Rightarrow> (Inl e, s') | (Inr d, s') \<Rightarrow> (Inr [d], s'))
        else let chunk_len = signed_budget s - FRAGMENT_HEADER_LEN; tid = transfer_id (sv_digest env) bs;
                 s1 = (if selective_recovery (si_framing s) then s\<lparr>si_recovery := snd (retain peer tid bs now (si_framing s) (si_recovery s))\<rparr> else s);
                 frames = slice_fragments tid bs chunk_len 0 (length bs)
             in routed_frames env peer (Suc (length frames)) frames [] s1)"

definition send_message ::
  "('k, 'e, 't, 'v, 's, 'c, 'd, 'b) SignedOps \<Rightarrow> PeerId \<Rightarrow> ('k, 'e) SignedMessage \<Rightarrow> instant \<Rightarrow> ('k, 'e, 'a, 'c, 'b) SignedReplica \<Rightarrow>
    (signed_error + 'a RoutedDatagram list) \<times> ('k, 'e, 'a, 'c, 'b) SignedReplica" where
  "send_message ops peer msg now s =
    (case so_serialize ops msg of None \<Rightarrow> (Inl InvalidRecord, s) | Some bs \<Rightarrow> send_encoded (so_env ops) peer bs now s)"

definition ensure_entry_fits ::
  "('k, 'e, 't, 'v, 's, 'c, 'd, 'b) SignedOps \<Rightarrow> 'k \<Rightarrow> 'e \<Rightarrow> ('k, 'e, 'a, 'c, 'b) SignedReplica \<Rightarrow> signed_error + unit" where
  "ensure_entry_fits ops k e s =
    (case so_serialize ops (Update k e) of
       None \<Rightarrow> Inl InvalidRecord
     | Some bs \<Rightarrow> (case required_fragments (length bs) s of Inl err \<Rightarrow> Inl err | Inr _ \<Rightarrow> Inr ()))"

definition signed_probe ::
  "('k, 'e, 't, 'v, 's, 'c, 'd, 'b) SignedOps \<Rightarrow> 'a \<Rightarrow> ('k, 'e, 'a, 'c, 'b) SignedReplica \<Rightarrow>
    (signed_error + 'a RoutedDatagram) \<times> ('k, 'e, 'a, 'c, 'b) SignedReplica" where
  "signed_probe ops endpoint s =
    (case so_serialize ops Hello of
       None \<Rightarrow> (Inl InvalidRecord, s)
     | Some bs \<Rightarrow>
        let (r, b) = boundary_seal (so_env ops) (write_complete bs) (net_boundary (si_net s))
        in (case r of Inl _ \<Rightarrow> Inl InvalidRecord | Inr sealed \<Rightarrow> Inr \<lparr>dg_destination = endpoint, dg_bytes = sealed\<rparr>,
            s\<lparr>si_net := (si_net s)\<lparr>net_boundary := b\<rparr>\<rparr>))"

section \<open>Causal state\<close>

definition signed_record_entry :: "'k::linorder \<Rightarrow> 'e \<Rightarrow> ('k, 'e, 'a, 'c, 'b) SignedReplica \<Rightarrow> ('k, 'e, 'a, 'c, 'b) SignedReplica" where
  "signed_record_entry k e s =
    (let g = (if map_of (si_acks s) k \<noteq> None then record_ack_key_clear k (si_generations s) else si_generations s)
     in s\<lparr>si_acks := AList.delete k (si_acks s), si_generations := record_entry k e g, si_entries := bt_insert k e (si_entries s)\<rparr>)"

definition signed_write ::
  "('k::linorder, 'e, 't, 'v, 's, 'c, 'd, 'b) SignedOps \<Rightarrow> 'k \<Rightarrow> ('t \<Rightarrow> 'e) \<Rightarrow> ('k, 'e, 'a, 'c, 'b) SignedReplica \<Rightarrow>
    (signed_error + unit) \<times> ('k, 'e, 'a, 'c, 'b) SignedReplica" where
  "signed_write ops k mk s =
    (if si_read_only s then (Inl PermissionDenied, s)
     else let (t, c) = ck_now (so_clock ops) (si_clock s); s1 = s\<lparr>si_clock := c\<rparr>
          in case ensure_entry_fits ops k (mk t) s1 of Inl e \<Rightarrow> (Inl e, s1) | Inr _ \<Rightarrow> (Inr (), signed_record_entry k (mk t) s1))"

definition signed_insert where
  "signed_insert ops k v = signed_write ops k (\<lambda>t. en_present (so_entry ops) t v)"

definition signed_remove where
  "signed_remove ops k = signed_write ops k (en_tombstone (so_entry ops))"

definition apply_remote_entry ::
  "('k::linorder, 'e, 't, 'v, 's, 'c, 'd, 'b) SignedOps \<Rightarrow> PeerId \<Rightarrow> 'k \<Rightarrow> 'e \<Rightarrow> ('k, 'e, 'a, 'c, 'b) SignedReplica \<Rightarrow>
    64 word option \<times> ('k, 'e, 'a, 'c, 'b) SignedReplica" where
  "apply_remote_entry ops peer k remote s =
    (if peer \<notin> set (si_authorities s) then (None, s)
     else let en = so_entry ops; s1 = s\<lparr>si_clock := ck_observe (so_clock ops) (en_stamp en remote) (si_clock s)\<rparr>;
              merged = (case map_of (si_entries s1) k of None \<Rightarrow> remote | Some l \<Rightarrow> en_merge en l remote);
              changed = (case map_of (si_entries s1) k of None \<Rightarrow> True | Some l \<Rightarrow> so_digest ops l \<noteq> so_digest ops merged);
              s2 = (if changed then signed_record_entry k merged s1 else s1)
          in (case map_of (si_entries s2) k of None \<Rightarrow> None | Some e \<Rightarrow> if en_is_tombstone en e then Some (en_version en e) else None, s2))"

definition accept_ack ::
  "('e, 't, 'v, 's) EntryOps \<Rightarrow> PeerId \<Rightarrow> 'k \<Rightarrow> 64 word \<Rightarrow> ('k, 'e, 'a, 'c, 'b) SignedReplica \<Rightarrow> ('k, 'e, 'a, 'c, 'b) SignedReplica" where
  "accept_ack en peer k version s =
    (if peer \<notin> set (si_members s) then s
     else case map_of (si_entries s) k of
       None \<Rightarrow> s
     | Some e \<Rightarrow>
        if \<not> en_is_tombstone en e \<or> en_version en e \<noteq> version then s
        else let acks = key_acks_of (si_acks s) k
             in s\<lparr>si_acks := AList.update k (AList.update peer version acks) (si_acks s),
                  si_generations := (if map_of acks peer \<noteq> Some version then record_ack k peer (Some version) (si_generations s) else si_generations s)\<rparr>)"

definition signed_tombstone_stable :: "('e, 't, 'v, 's) EntryOps \<Rightarrow> 'k \<Rightarrow> ('k, 'e, 'a, 'c, 'b) SignedReplica \<Rightarrow> bool" where
  "signed_tombstone_stable en k s =
    (case map_of (si_entries s) k of
       None \<Rightarrow> False
     | Some e \<Rightarrow> en_is_tombstone en e \<and>
        list_all (\<lambda>p. (case map_of (si_acks s) k of None \<Rightarrow> None | Some acks \<Rightarrow> map_of acks p) = Some (en_version en e)) (si_members s))"

definition signed_collect_candidate ::
  "('e, 't, 'v, 's) EntryOps \<Rightarrow> 'k \<Rightarrow> ('k, 'e, 'a, 'c, 'b) SignedReplica \<Rightarrow> bool \<times> ('k, 'e, 'a, 'c, 'b) SignedReplica" where
  "signed_collect_candidate en k s =
    (if si_read_only s \<or> \<not> signed_tombstone_stable en k s then (False, s)
     else let g = record_physical_delete k (si_generations s)
          in (True, s\<lparr>si_entries := AList.delete k (si_entries s), si_acks := AList.delete k (si_acks s),
               si_generations := (if map_of (si_acks s) k \<noteq> None then record_ack_key_clear k g else g)\<rparr>))"

definition collect_if_stable ::
  "('e, 't, 'v, 's) EntryOps \<Rightarrow> 'k \<Rightarrow> ('k, 'e, 'a, 'c, 'b) SignedReplica \<Rightarrow> bool \<times> ('k, 'e, 'a, 'c, 'b) SignedReplica" where
  "collect_if_stable en k s = (if \<not> has_collection_proof then (False, s) else signed_collect_candidate en k s)"

definition signed_forget_ack :: "PeerId \<Rightarrow> ('k, 'e, 'a, 'c, 'b) SignedReplica \<Rightarrow> 'k \<Rightarrow> ('k, 'e, 'a, 'c, 'b) SignedReplica" where
  "signed_forget_ack peer s k =
    (let acks = key_acks_of (si_acks s) k
     in if map_of acks peer = None then s
        else s\<lparr>si_acks := AList.update k (AList.delete peer acks) (si_acks s), si_generations := record_ack k peer None (si_generations s)\<rparr>)"

definition signed_decommission :: "PeerId \<Rightarrow> ('k, 'e, 'a, 'c, 'b) SignedReplica \<Rightarrow> bool \<times> ('k, 'e, 'a, 'c, 'b) SignedReplica" where
  "signed_decommission peer s =
    (let removed = peer \<in> set (si_members s);
         s1 = s\<lparr>si_net := (si_net s)\<lparr>net_routes := routes_decommission peer (net_routes (si_net s))\<rparr>,
                outbound_cursors := AList.delete peer (outbound_cursors s), si_readers := removeAll peer (si_readers s),
                si_authorities := removeAll peer (si_authorities s), si_members := removeAll peer (si_members s),
                si_generations := (if removed then record_member peer False (si_generations s) else si_generations s)\<rparr>
     in (removed, foldl (signed_forget_ack peer) s1 (map fst (kv_iter (si_acks s1)))))"

text \<open>A failed call of the backend leaves the frozen generation for the next attempt.\<close>

definition signed_snapshot_now ::
  "('k, 'e, PeerId, 'b) Backend \<Rightarrow> ('k, 'e, 'a, 'c, 'b) SignedReplica \<Rightarrow> (signed_error + unit) \<times> ('k, 'e, 'a, 'c, 'b) SignedReplica" where
  "signed_snapshot_now bk s =
    (let (g, j) = freeze (si_generations s); (r, b) = bk_try_save_delta bk (map_option persistence_delta g) (si_persistence s);
         (result, b') = (case r of
            Inl e \<Rightarrow> (Inl e, b)
          | Inr True \<Rightarrow> (Inr (), b)
          | Inr False \<Rightarrow> bk_save bk (persisted_new (si_entries s) (si_members s) (si_acks s)) b);
         s1 = s\<lparr>si_generations := j, si_persistence := b'\<rparr>
     in case result of
          Inl e \<Rightarrow> (Inl (BackendError e), s1)
        | Inr _ \<Rightarrow> (Inr (), case g of None \<Rightarrow> s1 | Some gen \<Rightarrow> s1\<lparr>si_generations := snd (commit (sg_id gen) j)\<rparr>))"

section \<open>Ticks\<close>

fun retry_loop ::
  "SignedEnv \<Rightarrow> PeerId MissingRequest list \<Rightarrow> 'a RoutedDatagram list \<Rightarrow> ('k, 'e, 'a, 'c, 'b) SignedReplica \<Rightarrow>
    (signed_error + 'a RoutedDatagram list) \<times> ('k, 'e, 'a, 'c, 'b) SignedReplica" where
  "retry_loop env [] out s = (Inr out, s)"
| "retry_loop env (req # reqs) out s =
    (if route (mr_peer req) (net_routes (si_net s)) = None then retry_loop env reqs out s
     else case write_missing_report (mr_transfer_id req) (mr_ranges req) of
       Inl _ \<Rightarrow> (Inl InvalidRecord, s)
     | Inr frame \<Rightarrow>
        (case routed_frame env (mr_peer req) frame s of
           (Inl e, s') \<Rightarrow> (Inl e, s')
         | (Inr d, s') \<Rightarrow> if max_frames_per_tick s \<le> length (out @ [d]) then (Inr (out @ [d]), s') else retry_loop env reqs (out @ [d]) s'))"

definition retry_missing ::
  "SignedEnv \<Rightarrow> instant \<Rightarrow> ('k, 'e, 'a, 'c, 'b) SignedReplica \<Rightarrow> (signed_error + 'a RoutedDatagram list) \<times> ('k, 'e, 'a, 'c, 'b) SignedReplica" where
  "retry_missing env now s =
    (if \<not> selective_recovery (si_framing s) then (Inr [], s)
     else let max_ranges = max_missing_ranges_for_budget (signed_budget s) 0 (max_missing_ranges_per_report (si_framing s));
              (reqs, ra) = poll_idle_missing (net_reassembler (si_net s)) now (from_secs 2) (from_secs 3) max_ranges 16
          in retry_loop env reqs [] (s\<lparr>si_net := (si_net s)\<lparr>net_reassembler := ra\<rparr>\<rparr>))"

text \<open>The entry after the cursor, or the first one.\<close>

definition next_entry :: "'k::linorder option \<Rightarrow> ('k, 'e) kv \<Rightarrow> ('k \<times> 'e) option" where
  "next_entry cursor m =
    (case List.find (\<lambda>(k, _). case cursor of None \<Rightarrow> True | Some l \<Rightarrow> l < k) m of
       Some x \<Rightarrow> Some x
     | None \<Rightarrow> (case m of [] \<Rightarrow> None | x # _ \<Rightarrow> Some x))"

fun reconcile_loop ::
  "('k::linorder, 'e, 't, 'v, 's, 'c, 'd, 'b) SignedOps \<Rightarrow> instant \<Rightarrow> PeerId list \<Rightarrow> 'a RoutedDatagram list \<Rightarrow> ('k, 'e, 'a, 'c, 'b) SignedReplica \<Rightarrow>
    (signed_error + 'a RoutedDatagram list) \<times> ('k, 'e, 'a, 'c, 'b) SignedReplica" where
  "reconcile_loop ops now [] out s = (Inr out, s)"
| "reconcile_loop ops now (peer # targets) out s =
    (let cursor = (case map_of (outbound_cursors s) peer of None \<Rightarrow> None | Some c \<Rightarrow> c)
     in case next_entry cursor (si_entries s) of
          None \<Rightarrow> (Inr out, s)
        | Some (k, e) \<Rightarrow>
           (case so_serialize ops (Update k e) of
              None \<Rightarrow> (Inl InvalidRecord, s)
            | Some bs \<Rightarrow>
               (case required_fragments (length bs) s of
                  Inl err \<Rightarrow> (Inl err, s)
                | Inr frames \<Rightarrow>
                   if max_frames_per_tick s < sat_add (length out) frames then (Inr out, s)
                   else (case send_encoded (so_env ops) peer bs now s of
                           (Inl err, s') \<Rightarrow> (Inl err, s')
                         | (Inr ds, s') \<Rightarrow>
                            reconcile_loop ops now targets (out @ ds) (s'\<lparr>outbound_cursors := AList.update peer (Some k) (outbound_cursors s')\<rparr>)))))"

definition signed_reconcile ::
  "('k::linorder, 'e, 't, 'v, 's, 'c, 'd, 'b) SignedOps \<Rightarrow> instant \<Rightarrow> ('k, 'e, 'a, 'c, 'b) SignedReplica \<Rightarrow>
    (signed_error + 'a RoutedDatagram list) \<times> ('k, 'e, 'a, 'c, 'b) SignedReplica" where
  "signed_reconcile ops now s0 =
    (let s = s0\<lparr>si_net := (si_net s0)\<lparr>net_reassembler := snd (expire (net_reassembler (si_net s0)) now)\<rparr>,
                si_recovery := snd (book_expire now (si_framing s0) (si_recovery s0))\<rparr>
     in case retry_missing (so_env ops) now s of
          (Inl e, s1) \<Rightarrow> (Inl e, s1)
        | (Inr out, s1) \<Rightarrow>
           if si_read_only s1 \<or> max_frames_per_tick s1 \<le> length out then (Inr out, s1)
           else let targets = confirmed_peers (net_routes (si_net s1))
                in if targets = [] \<or> si_entries s1 = [] then (Inr out, s1)
                   else reconcile_loop ops now (rotate (next_peer_index s1 mod length targets) targets) out
                     (s1\<lparr>next_peer_index := (next_peer_index s1 + 1) mod 2 ^ 64\<rparr>))"

section \<open>Receiving\<close>

definition resend_missing ::
  "SignedEnv \<Rightarrow> PeerId \<Rightarrow> transfer_id \<Rightarrow> byte_range list \<Rightarrow> instant \<Rightarrow> ('k, 'e, 'a, 'c, 'b) SignedReplica \<Rightarrow>
    (signed_error + 'a RoutedDatagram list) \<times> ('k, 'e, 'a, 'c, 'b) SignedReplica" where
  "resend_missing env peer tid ranges now s =
    (let (r, book) = payload_for_report peer tid now (si_framing s) (si_recovery s); s1 = s\<lparr>si_recovery := book\<rparr>
     in case r of
          None \<Rightarrow> (Inr [], s1)
        | Some transfer \<Rightarrow>
           let bs = rp_payload transfer; chunk_len = signed_budget s - FRAGMENT_HEADER_LEN;
               frames = concat (map (\<lambda>(offset, len).
                 let hi = min (sat_add offset len) (length bs) in if hi \<le> offset then [] else slice_fragments tid bs chunk_len offset hi) ranges)
           in routed_frames env peer (max_frames_per_tick s) frames [] s1)"

definition handle_verified_message ::
  "('k::linorder, 'e, 't, 'v, 's, 'c, 'd, 'b) SignedOps \<Rightarrow> PeerId \<Rightarrow> ('k, 'e) SignedMessage \<Rightarrow> instant \<Rightarrow> ('k, 'e, 'a, 'c, 'b) SignedReplica \<Rightarrow>
    (signed_error + 'a RoutedDatagram list option) \<times> ('k, 'e, 'a, 'c, 'b) SignedReplica" where
  "handle_verified_message ops peer msg now s =
    (case msg of
       Hello \<Rightarrow> (Inr None, s)
     | Update k e \<Rightarrow>
        if peer \<notin> set (si_authorities s) then (Inr None, s)
        else let (ack_version, s1) = apply_remote_entry ops peer k e s
             in if si_read_only s1 then (Inr None, s1)
                else case ack_version of
                  None \<Rightarrow> (Inr None, s1)
                | Some version \<Rightarrow>
                   (case send_message ops peer (Ack k version) now s1 of (Inl err, s2) \<Rightarrow> (Inl err, s2) | (Inr ds, s2) \<Rightarrow> (Inr (Some ds), s2))
     | Ack k version \<Rightarrow> (Inr None, accept_ack (so_entry ops) peer k version s))"

definition handle_complete ::
  "('k::linorder, 'e, 't, 'v, 's, 'c, 'd, 'b) SignedOps \<Rightarrow> PeerId \<Rightarrow> bool \<Rightarrow> bytes \<Rightarrow> instant \<Rightarrow> ('k, 'e, 'a, 'c, 'b) SignedReplica \<Rightarrow>
    (signed_error + 'a RoutedDatagram list) \<times> ('k, 'e, 'a, 'c, 'b) SignedReplica" where
  "handle_complete ops peer was_fragment bs now s =
    (case so_deserialize ops bs of
       None \<Rightarrow> (Inr [], s)
     | Some msg \<Rightarrow>
        (case (if was_fragment then (let (r, s') = routed_frame (so_env ops) peer (write_completion_ack (transfer_id (sv_digest (so_env ops)) bs)) s
                                     in (map_sum id (\<lambda>d. [d]) r, s'))
               else (Inr [], s)) of
           (Inl e, s1) \<Rightarrow> (Inl e, s1)
         | (Inr responses, s1) \<Rightarrow>
            (case handle_verified_message ops peer msg now s1 of
               (Inl e, s2) \<Rightarrow> (Inl e, s2)
             | (Inr reply, s2) \<Rightarrow> (Inr (responses @ (case reply of None \<Rightarrow> [] | Some ds \<Rightarrow> ds)), s2))))"

definition signed_peer_state :: "('k, 'e, 'a, 'c, 'b) SignedReplica \<Rightarrow> PeerId \<Rightarrow> bool \<times> nat" where
  "signed_peer_state s p =
    (if p \<in> set (si_authorities s) \<or> p \<in> set (si_readers s) then (True, length (si_members s)) else (False, max_peer_cap s))"

definition signed_receive ::
  "('k::linorder, 'e, 't, 'v, 's, 'c, 'd, 'b) SignedOps \<Rightarrow> 'a \<Rightarrow> bytes \<Rightarrow> instant \<Rightarrow> Stamp \<Rightarrow> 32 arr \<Rightarrow> ('k, 'e, 'a, 'c, 'b) SignedReplica \<Rightarrow>
    (signed_error + 'a RoutedDatagram list) \<times> ('k, 'e, 'a, 'c, 'b) SignedReplica" where
  "signed_receive ops source datagram now wall nonce s =
    (let (res, net) = routes_receive (so_env ops) datagram source (signed_peer_state s) now wall nonce (si_net s); s1 = s\<lparr>si_net := net\<rparr>
     in case res of
          Inl _ \<Rightarrow> (Inr [], s1)
        | Inr Ignored \<Rightarrow> (Inr [], s1)
        | Inr (Probing _ challenge) \<Rightarrow> (Inr (case challenge of None \<Rightarrow> [] | Some d \<Rightarrow> [d]), s1)
        | Inr (Reply d) \<Rightarrow> (Inr [d], s1)
        | Inr (RouteConfirmed peer) \<Rightarrow>
           (Inr [], s1\<lparr>si_recovery := record_capability peer now (si_framing s1) (max_peer_cap s1) (si_recovery s1)\<rparr>)
        | Inr (Recovery peer (Missing tid ranges)) \<Rightarrow> resend_missing (so_env ops) peer tid ranges now s1
        | Inr (Recovery peer (CompleteAck tid)) \<Rightarrow> (Inr [], s1\<lparr>si_recovery := snd (book_complete peer tid (si_recovery s1))\<rparr>)
        | Inr (Framed peer report) \<Rightarrow>
           (case outcome report of
              Inr (Complete bs) \<Rightarrow> handle_complete ops peer (fragment_received report) bs now s1
            | _ \<Rightarrow> (Inr [], s1)))"

section \<open>Network operations leave the causal state alone\<close>

definition same_causal :: "('k, 'e, 'a, 'c, 'b) SignedReplica \<Rightarrow> ('k, 'e, 'a, 'c, 'b) SignedReplica \<Rightarrow> bool" where
  "same_causal s s' \<longleftrightarrow>
    si_entries s' = si_entries s \<and> si_members s' = si_members s \<and> si_acks s' = si_acks s \<and> si_authorities s' = si_authorities s \<and>
    si_readers s' = si_readers s \<and> si_read_only s' = si_read_only s \<and> max_frames_per_tick s' = max_frames_per_tick s \<and>
    si_framing s' = si_framing s \<and> net_routes (si_net s') = net_routes (si_net s) \<and> signed_budget s' = signed_budget s"

lemma same_causal_refl [simp]: "same_causal s s"
  by (simp add: same_causal_def)

lemma same_causal_trans: "same_causal s s1 \<Longrightarrow> same_causal s1 s2 \<Longrightarrow> same_causal s s2"
  by (simp add: same_causal_def)

lemma same_causal_fields [simp]:
  "same_causal s (s'\<lparr>si_recovery := r\<rparr>) \<longleftrightarrow> same_causal s s'" "same_causal s (s'\<lparr>outbound_cursors := c\<rparr>) \<longleftrightarrow> same_causal s s'"
  "same_causal s (s'\<lparr>next_peer_index := i\<rparr>) \<longleftrightarrow> same_causal s s'"
  by (simp_all add: same_causal_def signed_budget_def)

lemma same_causal_reassembler [simp]:
  "same_causal s (s'\<lparr>si_net := (si_net s')\<lparr>net_reassembler := ra\<rparr>\<rparr>) \<longleftrightarrow> same_causal s s'"
  by (simp add: same_causal_def signed_budget_def)

lemma boundary_seal_budget: "payload_budget (snd (boundary_seal env m b)) = payload_budget b"
  by (simp add: boundary_seal_def payload_budget_def split_beta Let_def)

lemma seal_to_budget: "payload_budget (snd (seal_to env r p f b)) = payload_budget b"
  using boundary_seal_budget [of env f b] by (auto simp: seal_to_def split: option.splits prod.splits sum.splits)

lemma routed_frame_causal: "routed_frame env p f s = (r, s') \<Longrightarrow> same_causal s s'"
  using seal_to_budget [of env "net_routes (si_net s)" p f "net_boundary (si_net s)"]
  by (auto simp: routed_frame_def same_causal_def signed_budget_def split_beta Let_def)

lemma routed_frames_causal:
  "routed_frames env p limit fs acc s = (r, s') \<Longrightarrow>
    same_causal s s' \<and> (\<forall>out. r = Inr out \<longrightarrow> length out \<le> length acc + length fs \<and> (length acc < limit \<longrightarrow> length out \<le> limit))"
proof (induction env p limit fs acc s rule: routed_frames.induct)
  case (3 env p limit f fs acc s)
  obtain x s1 where x: "routed_frame env p f s = (x, s1)"
    by fastforce
  show ?case
  proof (cases x)
    case (Inl e)
    then show ?thesis
      using 3 x routed_frame_causal [OF x] by auto
  next
    case (Inr d)
    then show ?thesis
      using 3 x routed_frame_causal [OF x] same_causal_trans by (fastforce split: if_splits)
  qed
qed auto

lemma slice_fragments_length: "length (slice_fragments tid bs c lo hi) = chunk_count c (take (hi - lo) (drop lo bs))"
  by (simp add: slice_fragments_def Let_def)

lemma send_encoded_causal:
  assumes "send_encoded env p bs now s = (r, s')"
  shows "same_causal s s' \<and> (\<forall>out n. r = Inr out \<longrightarrow> required_fragments (length bs) s = Inr n \<longrightarrow> length out \<le> n)"
proof (cases "required_fragments (length bs) s")
  case (Inl e)
  then show ?thesis
    using assms by (auto simp: send_encoded_def)
next
  case (Inr n)
  show ?thesis
  proof (cases "n = 1")
    case True
    obtain x s1 where x: "routed_frame env p (write_complete bs) s = (x, s1)"
      by fastforce
    show ?thesis
      using assms Inr True x routed_frame_causal [OF x] by (cases x) (auto simp: send_encoded_def)
  next
    case False
    let ?c = "signed_budget s - FRAGMENT_HEADER_LEN" and ?tid = "transfer_id (sv_digest env) bs"
    let ?fs = "slice_fragments ?tid bs ?c 0 (length bs)"
    let ?s1 = "if selective_recovery (si_framing s) then s\<lparr>si_recovery := snd (retain p ?tid bs now (si_framing s) (si_recovery s))\<rparr> else s"
    have s1: "same_causal s ?s1" "routed_frames env p (Suc (length ?fs)) ?fs [] ?s1 = (r, s')"
      using assms Inr False by (simp_all add: send_encoded_def Let_def)
    have "n = chunk_count ?c bs"
      using Inr False by (auto simp: required_fragments_def chunk_count_def Let_def split: if_splits)
    then have "length ?fs = n"
      by (simp add: slice_fragments_length)
    then show ?thesis
      using routed_frames_causal [OF s1(2)] same_causal_trans [OF s1(1)] Inr by auto
  qed
qed

lemma retry_loop_causal:
  "retry_loop env reqs acc s = (r, s') \<Longrightarrow>
    same_causal s s' \<and> (\<forall>out. r = Inr out \<longrightarrow> length acc < max_frames_per_tick s \<longrightarrow> length out \<le> max_frames_per_tick s)"
proof (induction env reqs acc s rule: retry_loop.induct)
  case (2 env req reqs acc s)
  show ?case
  proof (cases "route (mr_peer req) (net_routes (si_net s)) = None")
    case True
    then show ?thesis
      using 2 by simp
  next
    case routed: False
    show ?thesis
    proof (cases "write_missing_report (mr_transfer_id req) (mr_ranges req)")
      case (Inl e)
      then show ?thesis
        using 2 routed by auto
    next
      case (Inr frame)
      obtain x s1 where x: "routed_frame env (mr_peer req) frame s = (x, s1)"
        by fastforce
      have c: "same_causal s s1" "max_frames_per_tick s1 = max_frames_per_tick s"
        using routed_frame_causal [OF x] by (simp_all add: same_causal_def)
      show ?thesis
      proof (cases x)
        case Inl
        then show ?thesis
          using 2 routed Inr x c by auto
      next
        case d: (Inr d)
        show ?thesis
        proof (cases "max_frames_per_tick s \<le> length (acc @ [d])")
          case True
          then show ?thesis
            using 2(3) routed Inr x c d by auto
        next
          case False
          then have "retry_loop env reqs (acc @ [d]) s1 = (r, s')"
            using 2(3) routed Inr x d by simp
          from 2(2) [OF routed Inr x [symmetric] d False this] show ?thesis
            using False c same_causal_trans [OF c(1)] by auto
        qed
      qed
    qed
  qed
qed auto

lemma retry_missing_causal:
  assumes "retry_missing env now s = (r, s')"
  shows "same_causal s s' \<and> (\<forall>out. r = Inr out \<longrightarrow> 0 < max_frames_per_tick s \<longrightarrow> length out \<le> max_frames_per_tick s)"
proof (cases "selective_recovery (si_framing s)")
  case True
  let ?ranges = "max_missing_ranges_for_budget (signed_budget s) 0 (max_missing_ranges_per_report (si_framing s))"
  obtain reqs ra where poll: "poll_idle_missing (net_reassembler (si_net s)) now (from_secs 2) (from_secs 3) ?ranges 16 = (reqs, ra)"
    by fastforce
  let ?s1 = "s\<lparr>si_net := (si_net s)\<lparr>net_reassembler := ra\<rparr>\<rparr>"
  have "retry_loop env reqs [] ?s1 = (r, s')"
    using assms True poll by (simp add: retry_missing_def Let_def)
  from retry_loop_causal [OF this] show ?thesis
    using same_causal_trans [of s ?s1 s'] by simp
qed (use assms in \<open>auto simp: retry_missing_def\<close>)

lemma sat_add_within: "sat_add a b \<le> m \<Longrightarrow> m < usize_max \<Longrightarrow> a + b \<le> m"
  unfolding sat_add_def by linarith

lemma reconcile_loop_causal:
  "reconcile_loop ops now targets acc s = (r, s') \<Longrightarrow>
    same_causal s s' \<and> (\<forall>out. r = Inr out \<longrightarrow> length acc \<le> max_frames_per_tick s \<longrightarrow> max_frames_per_tick s < usize_max \<longrightarrow> length out \<le> max_frames_per_tick s)"
proof (induction targets arbitrary: acc s)
  case (Cons p targets)
  let ?next = "next_entry (case map_of (outbound_cursors s) p of None \<Rightarrow> None | Some c \<Rightarrow> c) (si_entries s)"
  consider (stop) "r = Inr acc \<or> (\<exists>e. r = Inl e)" "s' = s"
    | (sent) k e bs n x s1 where "?next = Some (k, e)" "so_serialize ops (Update k e) = Some bs" "required_fragments (length bs) s = Inr n"
      "sat_add (length acc) n \<le> max_frames_per_tick s" "send_encoded (so_env ops) p bs now s = (x, s1)"
  proof (cases ?next)
    case None
    then show ?thesis
      using Cons.prems that(1) by simp
  next
    case (Some ke)
    obtain k e where ke: "ke = (k, e)"
      by fastforce
    show ?thesis
    proof (cases "so_serialize ops (Update k e)")
      case None
      then show ?thesis
        using Cons.prems Some ke that(1) by auto
    next
      case bs: (Some bs)
      obtain x s1 where x: "send_encoded (so_env ops) p bs now s = (x, s1)"
        by fastforce
      show ?thesis
      proof (cases "required_fragments (length bs) s")
        case (Inl err)
        then show ?thesis
          using Cons.prems Some ke bs that(1) by auto
      next
        case (Inr n)
        show ?thesis
        proof (cases "max_frames_per_tick s < sat_add (length acc) n")
          case True
          then have "r = Inr acc" "s' = s"
            using Cons.prems Some ke bs Inr by simp_all
          then show ?thesis
            using that(1) by blast
        next
          case False
          then show ?thesis
            using that(2) [OF _ bs Inr _ x] Some ke by simp
        qed
      qed
    qed
  qed
  then show ?case
  proof cases
    case stop
    then show ?thesis
      by auto
  next
    case (sent k e bs n x s1)
    have c: "same_causal s s1" "\<forall>out. x = Inr out \<longrightarrow> length out \<le> n"
      using send_encoded_causal [OF sent(5)] sent(3) by simp_all
    show ?thesis
    proof (cases x)
      case (Inl err)
      then show ?thesis
        using Cons.prems sent c by auto
    next
      case (Inr ds)
      let ?s2 = "s1\<lparr>outbound_cursors := AList.update p (Some k) (outbound_cursors s1)\<rparr>"
      have run: "reconcile_loop ops now targets (acc @ ds) ?s2 = (r, s')"
        using Cons.prems sent Inr by (simp add: Let_def)
      have s2: "same_causal s ?s2"
        using c by simp
      have "length (acc @ ds) \<le> max_frames_per_tick s" if "max_frames_per_tick s < usize_max"
      proof -
        have "length ds \<le> n"
          using c(2) Inr by blast
        then show ?thesis
          using sat_add_within [OF sent(4) that] by simp
      qed
      moreover have "max_frames_per_tick ?s2 = max_frames_per_tick s"
        using s2 unfolding same_causal_def by blast
      ultimately show ?thesis
        using Cons.IH [OF run] same_causal_trans [OF s2] by metis
    qed
  qed
qed auto

lemma signed_reconcile_causal:
  assumes "signed_reconcile ops now s = (r, s')"
  shows "same_causal s s' \<and>
    (\<forall>out. r = Inr out \<longrightarrow> 0 < max_frames_per_tick s \<longrightarrow> max_frames_per_tick s < usize_max \<longrightarrow> length out \<le> max_frames_per_tick s)"
proof -
  let ?s = "s\<lparr>si_net := (si_net s)\<lparr>net_reassembler := snd (expire (net_reassembler (si_net s)) now)\<rparr>,
    si_recovery := snd (book_expire now (si_framing s) (si_recovery s))\<rparr>"
  have s0: "same_causal s ?s"
    by simp
  obtain x s1 where x: "retry_missing (so_env ops) now ?s = (x, s1)"
    by fastforce
  have max: "max_frames_per_tick ?s = max_frames_per_tick s"
    by simp
  have c: "same_causal ?s s1" and bound: "\<forall>out. x = Inr out \<longrightarrow> 0 < max_frames_per_tick s \<longrightarrow> length out \<le> max_frames_per_tick s"
    using retry_missing_causal [OF x] max by auto
  have s1: "same_causal s s1" "max_frames_per_tick s1 = max_frames_per_tick s"
    using same_causal_trans [OF s0 c] by (simp_all add: same_causal_def)
  show ?thesis
  proof (cases x)
    case (Inl e)
    then show ?thesis
      using assms x s1 by (auto simp: signed_reconcile_def Let_def)
  next
    case (Inr out)
    let ?targets = "confirmed_peers (net_routes (si_net s1))" and ?s2 = "s1\<lparr>next_peer_index := (next_peer_index s1 + 1) mod 2 ^ 64\<rparr>"
    show ?thesis
    proof (cases "si_read_only s1 \<or> max_frames_per_tick s1 \<le> length out \<or> ?targets = [] \<or> si_entries s1 = []")
      case True
      then have "r = Inr out" "s' = s1"
        using assms x Inr by (auto simp: signed_reconcile_def Let_def split: if_splits)
      then show ?thesis
        using s1 bound Inr by auto
    next
      case False
      then have run: "reconcile_loop ops now (rotate (next_peer_index s1 mod length ?targets) ?targets) out ?s2 = (r, s')"
        using assms x Inr by (simp add: signed_reconcile_def Let_def)
      have s2: "same_causal s ?s2" "max_frames_per_tick ?s2 = max_frames_per_tick s"
        using s1 by simp_all
      have "length out \<le> max_frames_per_tick s"
        using False s1(2) by simp
      then show ?thesis
        using reconcile_loop_causal [OF run] same_causal_trans [OF s2(1)] unfolding s2(2) by blast
    qed
  qed
qed

section \<open>What a datagram can change\<close>

definition causal_effect ::
  "('e, 't, 'v, 's) EntryOps \<Rightarrow> PeerId \<Rightarrow> ('k::linorder, 'e, 'a, 'c, 'b) SignedReplica \<Rightarrow> ('k, 'e, 'a, 'c, 'b) SignedReplica \<Rightarrow> bool" where
  "causal_effect en p s s' \<longleftrightarrow>
    (\<exists>k remote. p \<in> set (si_authorities s) \<and> si_acks s' = AList.delete k (si_acks s) \<and>
      si_entries s' = bt_insert k (case map_of (si_entries s) k of None \<Rightarrow> remote | Some l \<Rightarrow> en_merge en l remote) (si_entries s)) \<or>
    (\<exists>k e. p \<in> set (si_members s) \<and> map_of (si_entries s) k = Some e \<and> en_is_tombstone en e \<and> si_entries s' = si_entries s \<and>
      si_acks s' = AList.update k (AList.update p (en_version en e) (key_acks_of (si_acks s) k)) (si_acks s))"

definition same_roster :: "('k, 'e, 'a, 'c, 'b) SignedReplica \<Rightarrow> ('k, 'e, 'a, 'c, 'b) SignedReplica \<Rightarrow> bool" where
  "same_roster s s' \<longleftrightarrow>
    si_members s' = si_members s \<and> si_authorities s' = si_authorities s \<and> si_readers s' = si_readers s \<and> si_read_only s' = si_read_only s \<and>
    max_frames_per_tick s' = max_frames_per_tick s"

lemma same_causal_roster: "same_causal s s' \<Longrightarrow> same_roster s s'"
  by (simp add: same_causal_def same_roster_def)

lemma causal_effect_frame:
  assumes "same_causal s s1" "causal_effect en p s1 s2" "same_causal s2 s3"
  shows "causal_effect en p s s3"
  using assms unfolding causal_effect_def same_causal_def by auto

lemma apply_remote_entry_effect:
  assumes "apply_remote_entry ops p k remote s = (v, s')"
  shows "same_roster s s' \<and> (si_entries s' = si_entries s \<and> si_acks s' = si_acks s \<or> causal_effect (so_entry ops) p s s')"
proof (cases "p \<in> set (si_authorities s)")
  case True
  have "causal_effect (so_entry ops) p s
      (signed_record_entry k (case map_of (si_entries s) k of None \<Rightarrow> remote | Some l \<Rightarrow> en_merge (so_entry ops) l remote) (s\<lparr>si_clock := c\<rparr>))" for c
    using True unfolding causal_effect_def signed_record_entry_def Let_def by auto
  then show ?thesis
    using assms True by (auto simp: apply_remote_entry_def same_roster_def signed_record_entry_def Let_def split: if_splits)
qed (use assms in \<open>simp add: apply_remote_entry_def same_roster_def\<close>)

lemma accept_ack_effect:
  "same_roster s (accept_ack en p k v s) \<and>
    (si_entries (accept_ack en p k v s) = si_entries s \<and> si_acks (accept_ack en p k v s) = si_acks s \<or> causal_effect en p s (accept_ack en p k v s))"
proof (cases "map_of (si_entries s) k")
  case (Some e)
  show ?thesis
  proof (cases "p \<in> set (si_members s) \<and> en_is_tombstone en e \<and> en_version en e = v")
    case True
    then have "causal_effect en p s (accept_ack en p k v s)"
      using Some unfolding causal_effect_def by (intro disjI2 exI [of _ k] exI [of _ e]) (simp add: accept_ack_def Let_def)
    then show ?thesis
      using True Some by (simp add: accept_ack_def same_roster_def Let_def)
  qed (use Some in \<open>auto simp: accept_ack_def same_roster_def\<close>)
qed (simp add: accept_ack_def same_roster_def)

text \<open>A step that keeps the roster and either leaves entries and acknowledgements or has the effect of a message of \<open>p\<close>.\<close>

definition acts_for ::
  "('e, 't, 'v, 's) EntryOps \<Rightarrow> PeerId \<Rightarrow> ('k::linorder, 'e, 'a, 'c, 'b) SignedReplica \<Rightarrow> ('k, 'e, 'a, 'c, 'b) SignedReplica \<Rightarrow> bool" where
  "acts_for en p s s' \<longleftrightarrow> same_roster s s' \<and> (si_entries s' = si_entries s \<and> si_acks s' = si_acks s \<or> causal_effect en p s s')"

lemma acts_for_causal: "same_causal s s' \<Longrightarrow> acts_for en p s s'"
  by (simp add: acts_for_def same_causal_roster) (simp add: same_causal_def)

lemma acts_for_frame:
  assumes "same_causal s s1" "acts_for en p s1 s2" "same_causal s2 s3"
  shows "acts_for en p s s3"
proof -
  have "same_roster s s3"
    using assms by (simp add: acts_for_def same_roster_def same_causal_def)
  moreover have "si_entries s3 = si_entries s \<and> si_acks s3 = si_acks s \<or> causal_effect en p s s3"
    using assms(2) causal_effect_frame [OF assms(1) _ assms(3), of en p] assms(1,3) unfolding acts_for_def by (auto simp: same_causal_def)
  ultimately show ?thesis
    by (simp add: acts_for_def)
qed

lemma send_message_causal: "send_message ops p msg now s = (r, s') \<Longrightarrow> same_causal s s'"
  using send_encoded_causal by (fastforce simp: send_message_def split: option.splits)

lemma handle_verified_message_acts:
  assumes "handle_verified_message ops p msg now s = (r, s')"
  shows "acts_for (so_entry ops) p s s'"
proof (cases msg)
  case Hello
  then show ?thesis
    using assms by (simp add: handle_verified_message_def acts_for_causal)
next
  case (Ack k v)
  then show ?thesis
    using assms accept_ack_effect [of s "so_entry ops" p k v] by (auto simp: handle_verified_message_def acts_for_def)
next
  case (Update k e)
  obtain v s1 where v: "apply_remote_entry ops p k e s = (v, s1)"
    by fastforce
  have s1: "acts_for (so_entry ops) p s s1"
    using apply_remote_entry_effect [OF v] by (simp add: acts_for_def)
  consider "s' = s" | "s' = s1" | w x where "send_message ops p (Ack k w) now s1 = (x, s')"
    using assms v Update by (auto simp: handle_verified_message_def split: if_splits option.splits prod.splits sum.splits)
  then show ?thesis
  proof cases
    case 1
    then show ?thesis
      by (simp add: acts_for_causal)
  next
    case 3
    then show ?thesis
      using acts_for_frame [OF same_causal_refl s1] send_message_causal by blast
  qed (simp add: s1)
qed

lemma handle_complete_acts:
  assumes "handle_complete ops p frag bs now s = (r, s')"
  shows "acts_for (so_entry ops) p s s'"
proof (cases "so_deserialize ops bs")
  case None
  then show ?thesis
    using assms by (simp add: handle_complete_def acts_for_causal)
next
  case (Some msg)
  let ?ack = "write_completion_ack (transfer_id (sv_digest (so_env ops)) bs)"
  obtain x s1 where x: "routed_frame (so_env ops) p ?ack s = (x, s1)"
    by fastforce
  obtain s2 where s2: "same_causal s s2" "s' = s2 \<or> (\<exists>y. handle_verified_message ops p msg now s2 = (y, s'))"
  proof (cases frag)
    case True
    then show ?thesis
      using assms Some x routed_frame_causal [OF x] that [of s1]
      by (auto simp: handle_complete_def split: prod.splits sum.splits)
  next
    case False
    then show ?thesis
      using assms Some that [of s] by (auto simp: handle_complete_def split: prod.splits sum.splits)
  qed
  then show ?thesis
    using handle_verified_message_acts acts_for_frame [OF s2(1) _ same_causal_refl] acts_for_causal [OF s2(1)] by blast
qed

lemma resend_missing_causal:
  assumes "resend_missing env p tid ranges now s = (r, s')"
  shows "same_causal s s' \<and> (\<forall>out. r = Inr out \<longrightarrow> 0 < max_frames_per_tick s \<longrightarrow> length out \<le> max_frames_per_tick s)"
proof -
  obtain x book where book: "payload_for_report p tid now (si_framing s) (si_recovery s) = (x, book)"
    by fastforce
  have c: "same_causal s (s\<lparr>si_recovery := book\<rparr>)"
    by simp
  show ?thesis
  proof (cases x)
    case None
    then show ?thesis
      using assms book c by (auto simp: resend_missing_def)
  next
    case (Some t)
    then obtain fs where "routed_frames env p (max_frames_per_tick s) fs [] (s\<lparr>si_recovery := book\<rparr>) = (r, s')"
      using assms book by (auto simp: resend_missing_def Let_def)
    then show ?thesis
      using routed_frames_causal same_causal_trans [OF c] by fastforce
  qed
qed

lemma acts_for_net: "acts_for en p (s\<lparr>si_net := net\<rparr>) s' \<longleftrightarrow> acts_for en p s s'"
  by (simp add: acts_for_def same_roster_def causal_effect_def)

lemma dispatch_frame_framed:
  "dispatch_frame env q payload source now nonce n = (Inr (Framed p report), n') \<Longrightarrow> p = q \<and> route p (net_routes n) = Some source"
  by (cases "pl_bytes payload")
    (auto simp: dispatch_frame_def receive_control_def split_beta Let_def split: if_splits sum.splits option.splits)

lemma routes_receive_framed:
  assumes "routes_receive env d source st now wall nonce n = (Inr (Framed p report), n')"
  shows "route p (net_routes n) = Some source \<and> (\<exists>payload. fst (boundary_open env d st wall (net_boundary n)) = Inr (p, payload))"
proof -
  obtain x b where op: "boundary_open env d st wall (net_boundary n) = (x, b)"
    by fastforce
  then obtain q payload where x: "x = Inr (q, payload)"
    using assms by (cases x) (auto simp: routes_receive_def)
  note run = assms [unfolded routes_receive_def op x Let_def, simplified]
  have "fst (receive_challenge env q (pl_bytes payload) source b) \<noteq> Inr (Framed p report)"
    by (auto simp: receive_challenge_def split: option.splits prod.splits sum.splits)
  moreover have "fst (receive_response env q (pl_bytes payload) source now b (net_routes n)) \<noteq> Framed p report"
    by (auto simp: receive_response_def split: option.splits prod.splits)
  ultimately have "dispatch_frame env q payload source now nonce (n\<lparr>net_boundary := b\<rparr>) = (Inr (Framed p report), n')"
    using run by (auto split: if_splits prod.splits)
  then have "p = q" "route p (net_routes n) = Some source"
    using dispatch_frame_framed by fastforce+
  then show ?thesis
    using op x by simp
qed

lemma signed_receive_acts:
  assumes "signed_receive ops source d now wall nonce s = (r, s')"
  shows "same_roster s s' \<and> (si_entries s' = si_entries s \<and> si_acks s' = si_acks s \<or>
    (\<exists>p payload. fst (boundary_open (so_env ops) d (signed_peer_state s) wall (net_boundary (si_net s))) = Inr (p, payload) \<and>
      route p (net_routes (si_net s)) = Some source \<and> causal_effect (so_entry ops) p s s'))"
proof -
  obtain res net where rec: "routes_receive (so_env ops) d source (signed_peer_state s) now wall nonce (si_net s) = (res, net)"
    by fastforce
  let ?s1 = "s\<lparr>si_net := net\<rparr>"
  have quiet: "same_roster s s' \<and> si_entries s' = si_entries s \<and> si_acks s' = si_acks s" if "same_causal ?s1 s'"
    using that by (simp add: same_causal_def same_roster_def)
  show ?thesis
  proof (cases "\<exists>p report bs. res = Inr (Framed p report) \<and> outcome report = Inr (Complete bs)")
    case True
    then obtain p report bs where f: "res = Inr (Framed p report)" "outcome report = Inr (Complete bs)"
      by blast
    then have "handle_complete ops p (fragment_received report) bs now ?s1 = (r, s')"
      using assms rec by (simp add: signed_receive_def)
    from handle_complete_acts [OF this] have "acts_for (so_entry ops) p s s'"
      by (simp add: acts_for_net)
    then show ?thesis
      using routes_receive_framed [OF rec [unfolded f(1)]] unfolding acts_for_def by blast
  next
    case False
    note run = assms [unfolded signed_receive_def rec Let_def, simplified]
    have "same_causal ?s1 s'"
    proof (cases res)
      case (Inr x)
      show ?thesis
      proof (cases x)
        case (Framed p report)
        then have "s' = ?s1"
          using run Inr False by (cases "outcome report"; cases "projr (outcome report)") auto
        then show ?thesis
          by simp
      next
        case (Recovery p control)
        then show ?thesis
          using run Inr resend_missing_causal [of "so_env ops" p _ _ now ?s1 r s'] by (cases control) auto
      qed (use run Inr in auto)
    qed (use run in auto)
    then show ?thesis
      using quiet by blast
  qed
qed

section \<open>Reachable states\<close>

definition acks_exact :: "('e, 't, 'v, 's) EntryOps \<Rightarrow> ('k \<Rightarrow> 'e option) \<Rightarrow> ('k, PeerId) acks \<Rightarrow> PeerId set \<Rightarrow> bool" where
  "acks_exact en m acks ms \<longleftrightarrow>
    (\<forall>k p v. ack_of acks k p = Some v \<longrightarrow> p \<in> ms \<and> (\<exists>e. m k = Some e \<and> en_is_tombstone en e \<and> en_version en e = v))"

definition signed_ok :: "('e, 't, 'v, 's) EntryOps \<Rightarrow> ('k::linorder, 'e, 'a, 'c, 'b) SignedReplica \<Rightarrow> bool" where
  "signed_ok en s \<longleftrightarrow>
    keys_sorted (si_entries s) \<and> set (si_members s) = (if si_read_only s then {} else set (si_authorities s)) \<and>
    1 \<le> max_frames_per_tick s \<and> max_frames_per_tick s \<le> 8192 \<and>
    acks_exact en (map_of (si_entries s)) (si_acks s) (set (si_members s))"

text \<open>
  Any schedule of operations. A replica starts empty or from a snapshot whose acknowledgements are of the tombstones it
  holds, as those saved by a replica are.
\<close>

inductive signed_reach :: "('k::linorder, 'e, 't, 'v, 's, 'c, 'd, 'b) SignedOps \<Rightarrow> ('k, 'e, 'a, 'c, 'b) SignedReplica \<Rightarrow> bool" for ops where
  start: "signed_reach ops s"
    if "signed_new ops cfg key signer clock backend = Inr s"
      "\<And>saved b. bk_load (so_backend ops) backend = (Inr (Some saved), b) \<Longrightarrow>
        acks_exact (so_entry ops) (map_of (ps_entries saved)) (ps_tombstone_acks saved) UNIV"
| insert: "signed_reach ops s \<Longrightarrow> signed_reach ops (snd (signed_insert ops k v s))"
| remove: "signed_reach ops s \<Longrightarrow> signed_reach ops (snd (signed_remove ops k s))"
| probe: "signed_reach ops s \<Longrightarrow> signed_reach ops (snd (signed_probe ops endpoint s))"
| receive: "signed_reach ops s \<Longrightarrow> signed_reach ops (snd (signed_receive ops source d now wall nonce s))"
| reconcile: "signed_reach ops s \<Longrightarrow> signed_reach ops (snd (signed_reconcile ops now s))"
| decommission: "signed_reach ops s \<Longrightarrow> signed_reach ops (snd (signed_decommission peer s))"
| collect: "signed_reach ops s \<Longrightarrow> signed_reach ops (snd (collect_if_stable (so_entry ops) k s))"
| snapshot: "signed_reach ops s \<Longrightarrow> signed_reach ops (snd (signed_snapshot_now (so_backend ops) s))"

lemma load_entries_map:
  "load_entries en ck es m c = Inr (m', c') \<Longrightarrow> keys_sorted m \<Longrightarrow>
    keys_sorted m' \<and> (\<forall>k. map_of m' k = (case map_of m k of Some e \<Rightarrow> Some e | None \<Rightarrow> map_of es k))"
proof (induction es arbitrary: m c)
  case (Cons x es)
  obtain k e where x: "x = (k, e)"
    by fastforce
  have new: "map_of m k = None" and run: "load_entries en ck es (bt_insert k e m) (ck_observe_trusted ck (en_stamp en e) c) = Inr (m', c')"
    using Cons.prems(1) by (auto simp: x Let_def split: if_splits)
  from Cons.IH [OF run] Cons.prems(2) new show ?case
    by (auto simp: x split: option.splits)
qed (auto split: option.splits)

lemma ack_of_member: "ack_of acks k p = Some v \<Longrightarrow> \<exists>l. (k, l) \<in> set acks \<and> (p, v) \<in> set l"
  by (auto simp: ack_of_def key_acks_of_def dest!: map_of_SomeD split: option.splits)

lemma acks_exactI:
  "(\<And>k p v. ack_of acks k p = Some v \<Longrightarrow> p \<in> ms \<and> (\<exists>e. m k = Some e \<and> en_is_tombstone en e \<and> en_version en e = v)) \<Longrightarrow> acks_exact en m acks ms"
  by (simp add: acks_exact_def)

lemma acks_exact_empty [simp]: "acks_exact en m [] ms"
  by (simp add: acks_exact_def ack_of_def key_acks_of_def)

lemma signed_snapshot_acks:
  assumes "signed_snapshot_ok cfg loaded" "saved = (case loaded of None \<Rightarrow> persisted_default | Some s \<Rightarrow> s)"
  shows "sc_read_only cfg \<Longrightarrow> ps_tombstone_acks saved = []"
    "ack_of (ps_tombstone_acks saved) k p = Some v \<Longrightarrow> p \<in> set (sc_authorities cfg)"
proof -
  show "sc_read_only cfg \<Longrightarrow> ps_tombstone_acks saved = []"
    using assms by (cases loaded) (auto simp: signed_snapshot_ok_def persisted_default_def Let_def)
  assume "ack_of (ps_tombstone_acks saved) k p = Some v"
  then obtain l where "(k, l) \<in> set (ps_tombstone_acks saved)" "(p, v) \<in> set l"
    using ack_of_member by fast
  then show "p \<in> set (sc_authorities cfg)"
    using assms by (fastforce simp: signed_snapshot_ok_def list_ex_iff Let_def)
qed

lemma signed_new_ok:
  assumes new: "signed_new ops cfg key signer clock backend = Inr s"
    and exact: "\<And>saved b. bk_load (so_backend ops) backend = (Inr (Some saved), b) \<Longrightarrow>
      acks_exact (so_entry ops) (map_of (ps_entries saved)) (ps_tombstone_acks saved) UNIV"
  shows "signed_ok (so_entry ops) s"
proof -
  obtain loaded b' where load: "bk_load (so_backend ops) backend = (Inr loaded, b')"
    using new by (auto simp: signed_new_def split: if_splits option.splits sum.splits prod.splits)
  define saved where "saved = (case loaded of None \<Rightarrow> persisted_default | Some s \<Rightarrow> s)"
  obtain bd m c' where snap: "signed_snapshot_ok cfg loaded" and fr: "signed_framing_ok cfg bd" and
    ents: "load_entries (so_entry ops) (so_clock ops) (ps_entries saved) [] clock = Inr (m, c')" and
    s: "si_entries s = m" "si_members s = (if sc_read_only cfg then [] else sc_authorities cfg)" "si_acks s = ps_tombstone_acks saved"
      "si_authorities s = sc_authorities cfg" "si_read_only s = sc_read_only cfg" "max_frames_per_tick s = sc_max_frames_per_tick cfg"
    using new load unfolding saved_def by (auto simp: signed_new_def Let_def split: if_splits option.splits sum.splits)
  have map: "keys_sorted m" "map_of m = map_of (ps_entries saved)"
    using load_entries_map [OF ents] by (auto simp: fun_eq_iff)
  have "acks_exact (so_entry ops) (map_of (ps_entries saved)) (ps_tombstone_acks saved) UNIV"
    using exact load by (cases loaded) (simp_all add: saved_def persisted_default_def)
  then have "acks_exact (so_entry ops) (map_of m) (ps_tombstone_acks saved) (set (si_members s))"
    using signed_snapshot_acks [OF snap saved_def] unfolding acks_exact_def map(2) s(2) by (cases "sc_read_only cfg") (auto simp: ack_of_def key_acks_of_def)
  then show ?thesis
    using map fr s by (simp add: signed_ok_def signed_framing_ok_def)
qed

lemma acks_exact_write:
  assumes "acks_exact en m acks ms"
  shows "acks_exact en (m(k \<mapsto> e)) (AList.delete k acks) ms"
  using assms unfolding acks_exact_def by (simp add: ack_of_delete)

lemma acks_exact_ack:
  assumes "acks_exact en m acks ms" "p \<in> ms" "m k = Some e" "en_is_tombstone en e"
  shows "acks_exact en m (AList.update k (AList.update p (en_version en e) (key_acks_of acks k)) acks) ms"
proof (rule acks_exactI)
  fix k' q v
  assume v: "ack_of (AList.update k (AList.update p (en_version en e) (key_acks_of acks k)) acks) k' q = Some v"
  show "q \<in> ms \<and> (\<exists>e. m k' = Some e \<and> en_is_tombstone en e \<and> en_version en e = v)"
  proof (cases "k' = k \<and> q = p")
    case True
    then show ?thesis
      using v assms by (auto simp: ack_of_update)
  next
    case False
    then have "ack_of acks k' q = Some v"
      using v by (cases "k' = k") (simp_all add: ack_of_update update_conv' ack_of_def [of acks])
    then show ?thesis
      using assms(1) unfolding acks_exact_def by blast
  qed
qed

lemma signed_ok_effect:
  assumes "signed_ok en s" "same_roster s s'" "si_entries s' = si_entries s \<and> si_acks s' = si_acks s \<or> causal_effect en p s s'"
  shows "signed_ok en s'"
proof -
  have ok: "keys_sorted (si_entries s)" "acks_exact en (map_of (si_entries s)) (si_acks s) (set (si_members s))"
    using assms(1) unfolding signed_ok_def by blast+
  have "keys_sorted (si_entries s') \<and> acks_exact en (map_of (si_entries s')) (si_acks s') (set (si_members s))"
    using assms(3)
  proof
    assume "causal_effect en p s s'"
    then show ?thesis
      unfolding causal_effect_def
    proof (elim disjE exE conjE)
      fix k remote
      assume "si_acks s' = AList.delete k (si_acks s)"
        "si_entries s' = bt_insert k (case map_of (si_entries s) k of None \<Rightarrow> remote | Some l \<Rightarrow> en_merge en l remote) (si_entries s)"
      then show ?thesis
        using ok acks_exact_write [OF ok(2)] by simp
    next
      fix k e
      assume "p \<in> set (si_members s)" "map_of (si_entries s) k = Some e" "en_is_tombstone en e" "si_entries s' = si_entries s"
        "si_acks s' = AList.update k (AList.update p (en_version en e) (key_acks_of (si_acks s) k)) (si_acks s)"
      then show ?thesis
        using ok acks_exact_ack [OF ok(2)] by simp
    qed
  qed (use ok in simp)
  moreover have roster: "si_members s' = si_members s" "si_authorities s' = si_authorities s" "si_read_only s' = si_read_only s"
    "max_frames_per_tick s' = max_frames_per_tick s"
    using assms(2) by (simp_all add: same_roster_def)
  ultimately show ?thesis
    using assms(1) unfolding signed_ok_def roster by blast
qed

lemma signed_ok_same: "signed_ok en s \<Longrightarrow> same_causal s s' \<Longrightarrow> signed_ok en s'"
  using signed_ok_effect [OF _ same_causal_roster, of en s s'] by (simp add: same_causal_def)

lemma signed_ok_write: "signed_ok (so_entry ops) s \<Longrightarrow> signed_ok (so_entry ops) (snd (signed_write ops k mk s))"
  by (auto simp: signed_write_def signed_ok_def signed_record_entry_def acks_exact_write Let_def split: prod.splits sum.splits)

lemma signed_forget_ack_lookup:
  "ack_of (si_acks (signed_forget_ack p s k)) k' q = (if k' = k \<and> q = p then None else ack_of (si_acks s) k' q)"
  by (cases "k' = k") (auto simp: signed_forget_ack_def ack_of_update delete_conv' ack_of_def [of "si_acks s"] Let_def)

lemma signed_forget_acks:
  "ack_of (si_acks (foldl (signed_forget_ack p) s ks)) k q = (if k \<in> set ks \<and> q = p then None else ack_of (si_acks s) k q) \<and>
    si_entries (foldl (signed_forget_ack p) s ks) = si_entries s \<and> same_roster s (foldl (signed_forget_ack p) s ks)"
proof (induction ks arbitrary: s)
  case (Cons k' ks)
  have "si_entries (signed_forget_ack p s k') = si_entries s" "same_roster s (signed_forget_ack p s k')"
    by (simp_all add: signed_forget_ack_def same_roster_def Let_def)
  then show ?case
    using Cons [of "signed_forget_ack p s k'"] by (auto simp: signed_forget_ack_lookup same_roster_def)
qed (simp add: same_roster_def)

lemma signed_ok_decommission:
  assumes "signed_ok en s"
  shows "signed_ok en (snd (signed_decommission p s))"
proof -
  let ?s1 = "s\<lparr>si_net := (si_net s)\<lparr>net_routes := routes_decommission p (net_routes (si_net s))\<rparr>,
    outbound_cursors := AList.delete p (outbound_cursors s), si_readers := removeAll p (si_readers s),
    si_authorities := removeAll p (si_authorities s), si_members := removeAll p (si_members s),
    si_generations := (if p \<in> set (si_members s) then record_member p False (si_generations s) else si_generations s)\<rparr>"
  let ?s' = "snd (signed_decommission p s)"
  have s': "?s' = foldl (signed_forget_ack p) ?s1 (map fst (kv_iter (si_acks s)))"
    by (simp add: signed_decommission_def Let_def)
  have lookup: "ack_of (si_acks ?s') k q = (if k \<in> set (map fst (kv_iter (si_acks s))) \<and> q = p then None else ack_of (si_acks s) k q)"
    and rest: "si_entries ?s' = si_entries s" "same_roster ?s1 ?s'" for k q
    using signed_forget_acks [of p ?s1 "map fst (kv_iter (si_acks s))"] unfolding s' by simp_all
  have gone: "ack_of (si_acks ?s') k p = None" for k
  proof (cases "k \<in> set (map fst (kv_iter (si_acks s)))")
    case False
    then have "map_of (si_acks s) k = None"
      using kv_iter_map_of [of k _ "si_acks s"] by (cases "map_of (si_acks s) k") (force simp: image_iff)+
    then show ?thesis
      using lookup [of k p] by (simp add: ack_of_def key_acks_of_def)
  qed (simp add: lookup)
  have "acks_exact en (map_of (si_entries ?s')) (si_acks ?s') (set (si_members ?s'))"
  proof (rule acks_exactI)
    fix k q v
    assume v: "ack_of (si_acks ?s') k q = Some v"
    then have "q \<noteq> p" "ack_of (si_acks s) k q = Some v"
      using gone [of k] lookup [of k q] by (auto split: if_splits)
    then show "q \<in> set (si_members ?s') \<and> (\<exists>e. map_of (si_entries ?s') k = Some e \<and> en_is_tombstone en e \<and> en_version en e = v)"
      using assms rest unfolding signed_ok_def acks_exact_def same_roster_def by auto
  qed
  then show ?thesis
    using assms rest by (auto simp: signed_ok_def same_roster_def)
qed

lemma signed_probe_causal: "same_causal s (snd (signed_probe ops endpoint s))"
  using boundary_seal_budget by (simp add: signed_probe_def same_causal_def signed_budget_def split_beta Let_def split: option.split)

lemma signed_snapshot_fields: "same_causal s (snd (signed_snapshot_now bk s))"
  by (auto simp: signed_snapshot_now_def same_causal_def signed_budget_def Let_def split: prod.splits sum.splits option.splits bool.splits)

lemma signed_reach_ok: "signed_reach ops s \<Longrightarrow> signed_ok (so_entry ops) s"
proof (induction rule: signed_reach.induct)
  case (start s cfg key signer clock backend)
  then show ?case
    by (rule signed_new_ok)
next
  case (receive s source d now wall nonce)
  obtain r s' where "signed_receive ops source d now wall nonce s = (r, s')"
    by fastforce
  with signed_receive_acts [OF this] signed_ok_effect [OF receive.IH] show ?case
    by auto
next
  case (reconcile s now)
  obtain r s' where "signed_reconcile ops now s = (r, s')"
    by fastforce
  with signed_reconcile_causal [OF this] signed_ok_same [OF reconcile.IH] show ?case
    by simp
next
  case (collect s k)
  then show ?case
    by (simp add: collect_if_stable_def has_collection_proof_def)
qed (simp_all add: signed_insert_def signed_remove_def signed_ok_write signed_ok_decommission
    signed_ok_same [OF _ signed_probe_causal] signed_ok_same [OF _ signed_snapshot_fields])

section \<open>Properties\<close>

text \<open>
  A replica with one authority, reopened from a snapshot in which that authority has acknowledged the tombstone of key 5.
\<close>

definition demo_signed_ops ::
  "(nat, nat \<times> nat option, nat, nat, nat option, nat, nat, (nat, nat \<times> nat option, PeerId) PersistedState option) SignedOps" where
  "demo_signed_ops =
    \<lparr>so_env = \<lparr>sv_crypto = demo_crypto,
       sv_ed = \<lparr>ed_public = (\<lambda>k. k), ed_sign = (\<lambda>_ _. Abs_arr (replicate 64 0)), ed_key_ok = (\<lambda>_. True), ed_verify_strict = (\<lambda>_ _ _. True)\<rparr>,
       sv_digest = (\<lambda>_. demo_key 0), sv_nonce = (\<lambda>_. Abs_arr (replicate 24 0)), sv_clock_ms = (\<lambda>_. 0)\<rparr>,
     so_entry = demo_entry, so_clock = re_clock demo_replica, so_digest = fst, so_serialize = (\<lambda>_. Some [0]), so_deserialize = (\<lambda>_. Some Hello),
     so_backend = \<lparr>bk_load = (\<lambda>b. (Inr b, b)), bk_try_save_delta = (\<lambda>_ b. (Inr False, b)), bk_save = (\<lambda>st _. (Inr (), Some st))\<rparr>\<rparr>"

definition demo_signed_image :: "(nat, nat \<times> nat option, PeerId) PersistedState" where
  "demo_signed_image = \<lparr>ps_entries = [(5, (3, None))], ps_members = [demo_key 1], ps_tombstone_acks = [(5, [(demo_key 1, 3)])]\<rparr>"

definition demo_signed :: "signed_error + (nat, nat \<times> nat option, nat, nat, (nat, nat \<times> nat option, PeerId) PersistedState option) SignedReplica" where
  "demo_signed = signed_new demo_signed_ops (signed_config_new [demo_key 1]) (demo_key 2) (demo_key 3) 0 (Some demo_signed_image)"

lemma retry_loop_unrouted: "(\<And>p. route p (net_routes (si_net s)) = None) \<Longrightarrow> retry_loop env reqs out s = (Inr out, s)"
  by (induction reqs) simp_all

lemma signed_reconcile_unrouted:
  assumes "net_routes (si_net s) = routes_new n ttl" "0 < max_frames_per_tick s"
  shows "fst (signed_reconcile ops now s) = Inr []"
  using assms by (simp add: signed_reconcile_def retry_missing_def retry_loop_unrouted route_def routes_new_def confirmed_peers_def split_beta Let_def)

lemma demo_key_eq [simp]: "demo_key a = demo_key b \<longleftrightarrow> a = b"
  using arr_bytes_demo_key [of a] arr_bytes_demo_key [of b] by (metis replicate_eq_replicate zero_neq_numeral)

lemma demo_signed_new:
  "\<exists>s. demo_signed = Inr s \<and> si_entries s = [(5, (3, None))] \<and> si_acks s = [(5, [(demo_key 1, 3)])] \<and> si_authorities s = [demo_key 1] \<and>
    \<not> si_read_only s \<and> net_routes (si_net s) = routes_new 256 (from_secs 5)"
  by (simp add: demo_signed_def demo_signed_ops_def demo_signed_image_def signed_new_def signed_config_new_def signed_limits_ok_def signer_peer_id_def
      authenticator_new_def with_rotation_def boundary_new_def IDENTITY_ENVELOPE_OVERHEAD_def signed_framing_ok_def payload_budget_def
      signed_snapshot_ok_def framing_default_def net_new_def DEFAULT_DATAGRAM_PAYLOAD_BUDGET_def FRAGMENT_HEADER_LEN_def sat_add_def usize_max_def
      TAG_LEN_def VERSION_LEN_def REPLAY_HEADER_LEN_def demo_replica_def Let_def)

lemma demo_signed_reach: "demo_signed = Inr s \<Longrightarrow> signed_reach demo_signed_ops s"
  unfolding demo_signed_def
  by (erule signed_reach.start) (auto simp: demo_signed_ops_def demo_signed_image_def demo_entry_def acks_exact_def ack_of_def key_acks_of_def split: if_splits)



text \<open>C19: a received datagram can change the map or the acknowledgements only if it carries the signature, authentication and
  fresh sequence number of a peer whose proved route is the address it came from. Then it merges one key, if
  that peer is an authority, or records that peer's acknowledgement of the tombstone held at one key at the version
  held, if that peer is a member; every other key and acknowledgement, and the roster, stay as they were.\<close>

theorem signed_receive_authority:
  "same_roster s (snd (signed_receive ops source d now wall nonce s)) \<and>
    (si_entries (snd (signed_receive ops source d now wall nonce s)) = si_entries s \<and> si_acks (snd (signed_receive ops source d now wall nonce s)) = si_acks s \<or>
     (\<exists>p payload. fst (boundary_open (so_env ops) d (signed_peer_state s) wall (net_boundary (si_net s))) = Inr (p, payload) \<and>
       route p (net_routes (si_net s)) = Some source \<and> causal_effect (so_entry ops) p s (snd (signed_receive ops source d now wall nonce s))))"
  by (rule signed_receive_acts [where now = now and nonce = nonce]) (rule prod.collapse [symmetric])

text \<open>C40: a tick of a replica sends at most the configured number of datagrams, itself at most 8192, counting retried
  reports and the fragments of every entry.\<close>

theorem signed_tick_bounded:
  assumes "signed_reach ops s" "fst (signed_reconcile ops now s) = Inr out"
  shows "length out \<le> max_frames_per_tick s \<and> max_frames_per_tick s \<le> 8192"
proof -
  have "1 \<le> max_frames_per_tick s" "max_frames_per_tick s \<le> 8192"
    using signed_reach_ok [OF assms(1)] by (simp_all add: signed_ok_def)
  then show ?thesis
    using signed_reconcile_causal [of ops now s] assms(2) by (auto simp: prod_eq_iff usize_max_def)
qed

theorem signed_tick_bounded_witness:
  "\<exists>s. demo_signed = Inr s \<and> fst (signed_reconcile demo_signed_ops 0 s) = Inr [] \<and> max_frames_per_tick s \<le> 8192"
proof -
  obtain s where s: "demo_signed = Inr s" "net_routes (si_net s) = routes_new 256 (from_secs 5)"
    using demo_signed_new by blast
  have reach: "signed_reach demo_signed_ops s"
    using s(1) by (rule demo_signed_reach)
  have "fst (signed_reconcile demo_signed_ops 0 s) = Inr []"
    using signed_reach_ok [OF reach] by (intro signed_reconcile_unrouted [OF s(2)]) (simp add: signed_ok_def)
  then show ?thesis
    using signed_tick_bounded [OF reach, of 0 "[]"] s(1) by blast
qed

end
