(* ===== verification/Spec2Isabelle.thy ===== *)
theory Spec2Isabelle
  imports Convergence Dump Reconcile SignedReplica
begin

text \<open>
  A verification library for \<^bold>\<open>reconcile\<close>, a replicated key-value map in Rust: every node holds the whole map, writes are
  stamped with a hybrid logical clock and merged last-writer-wins, and nodes exchange datagrams over an unreliable
  network. The crate \<open>gossip\<close> (\<open>gossip/src/\<close>) authenticates, fragments and reassembles datagrams; the crate
  \<open>reconcile\<close> (\<open>src/\<close>) holds the replica, its engine and its persistence. Paths below are relative to the repository.

  \<^bold>\<open>How the parts interact.\<close> A public write mints a stamp, changes the map and the journal of unsaved changes, and queues a
  broadcast. An outgoing batch of messages is packed into payloads, a payload that does not fit is cut into fragments, and every
  frame is sealed with a sequence number and a wall-clock stamp. An inbound datagram passes the admission gate
  (authentication, wire version, peer cap, replay filter), then the frame gate (reassembly), then the message decoder, and
  the decoded updates are decided on a read snapshot and committed under the write lock. Periodic rounds compare summaries with other nodes,
  resend acknowledgements of tombstones and start bulk dumps under an admission limit. A snapshot task freezes the
  journal and offers it to a backend. The signed replica is a second, single-threaded engine whose peers are signing identities.

  \<^bold>\<open>Theories, sources and what their lemmas show.\<close>

    \<^item> \<open>Prelude\<close>: bytes, byte arrays of fixed length, hash maps as association lists, ordered maps as sorted ones, saturating
      arithmetic, and the least element of a map. A \<open>HashMap\<close> is iterated in a fixed order (\<^term>\<open>kv_iter\<close>) where its order cannot
      matter or where any order gives the stated result.
    \<^item> \<open>Replay\<close> (\<open>gossip/src/replay/\<close>): the sliding bitmap, the state of a sender, the two filters and the sender counter.
      The bitmap refines a set of numbers (locale \<open>acceptance_window\<close>); no datagram is accepted twice, over any history; the state
      of a live sender is never evicted.
    \<^item> \<open>Auth\<close> (\<open>gossip/src/auth/\<close>): keys with rotation, sealing and opening with a keyed hash or with encryption. Opening a sealed datagram
      gives its content back (locale \<open>datagram_channel\<close>), and what opens was sealed under a key held.
    \<^item> \<open>Framing\<close>, \<open>Reassembly\<close>, \<open>Delivery\<close>, \<open>FragRecovery\<close> (\<open>gossip/src/framing.rs\<close>, \<open>framing/reassembly.rs\<close>, \<open>framing/recovery.rs\<close>): frames,
      the reassembler with its eviction loops (locale \<open>eviction_loop\<close>), and the reports of missing ranges. The reassembler stays
      within its byte and transfer budgets after every frame; fragments in any order give the message back;
      a report names exactly the bytes missing, and is polled at a bounded rate.
    \<^item> \<open>Config\<close> (\<open>src/replicated_map/config/\<close>, the checks of \<open>src/replica/construct.rs\<close>): the options, their defaults and
      checks. A key rotation in the documented order never splits a cluster.
    \<^item> \<open>RecoveryBook\<close> (\<open>src/replica/recovery.rs\<close>): messages kept for retransmission. The book stays within its budgets, keeps a message
      exactly when it can, and retransmits it a bounded number of times.
    \<^item> \<open>Protocol\<close>, \<open>Sending\<close>, \<open>Ingress\<close> (\<open>src/replica/inbound.rs\<close>, \<open>src/framing.rs\<close>, \<open>gossip/src/bincode.rs\<close>, \<open>framed_send.rs\<close>, \<open>recovery_send.rs\<close>,
      \<open>run.rs\<close>, \<open>repair.rs\<close>): both directions of the datagram path. Packing keeps every message in order, datagrams fit
      the budget, the gate admits exactly the authentic and fresh, repairs are retried finitely often. Below, a batch that is sent
      is the batch that is handled.
    \<^item> \<open>Journal\<close>, \<open>SnapshotFile\<close>, \<open>Persistence\<close> (\<open>src/replica/generation.rs\<close>, \<open>src/persistence.rs\<close>, \<open>src/snapshot.rs\<close>, \<open>src/snapshot/\<close>,
      \<open>src/replicated_map/persistence.rs\<close>): the journal of generations, the file backend with its write failures and crashes as
      outcomes, and the snapshot task. The file backend and the memory backend satisfy one contract (locales
      \<open>snapshot_backend\<close> and \<open>ordered_backend\<close>); a crash at any write leaves a loadable snapshot; no write is lost by failed or repeated
      snapshots; a restart restores what was saved.
    \<^item> \<open>Wheel\<close>, \<open>Store\<close>, \<open>MapApi\<close>, \<open>Convergence\<close> (\<open>src/timeout_wheel.rs\<close>, \<open>src/replica/write.rs\<close>, \<open>coalesce.rs\<close>, \<open>dispatch.rs\<close>, \<open>collision.rs\<close>, \<open>gc.rs\<close>,
      \<open>membership.rs\<close>, \<open>src/replicated_map/write.rs\<close>, \<open>mutate.rs\<close>, \<open>backpressure.rs\<close>): the data of a replica and every operation that changes it. The state
      stays well formed, broadcasts stay within their budget, a fallible write is all or nothing, and every interleaving of local
      writes, decisions and commits refines a last-writer-wins register, so replicas that saw the same writes agree.
    \<^item> \<open>Admission\<close>, \<open>Dump\<close>, \<open>Reconcile\<close> (\<open>src/replica/admission.rs\<close>, \<open>pending_dump.rs\<close>, \<open>dump.rs\<close>, \<open>pacing.rs\<close>, \<open>reconciliation.rs\<close>,
      \<open>membership.rs\<close>, \<open>gossip/src/gen_ip.rs\<close>): bulk work is rate-limited per peer and in total (locale \<open>rate_meter\<close>), slots are those of the running
      tasks, merged ranges cover the same keys, a round contacts exactly its targets, and every held tombstone is acknowledged
      again within as many rounds as there are tombstones.
    \<^item> \<open>Peer\<close>, \<open>SignedReplica\<close> (\<open>gossip/src/peer/\<close>, \<open>src/signed_replica.rs\<close>, \<open>src/signed_replica/\<close>): signed envelopes, routes proved by
      a challenge, and the signed engine. An envelope opens exactly when it should, traffic is handed on over proved routes only, only
      an authority changes an entry, acknowledgements are of authorities for the exact version of a held tombstone, and a tick
      stays within its datagram budget.

  \<^bold>\<open>Correspondence.\<close> A struct is a record with the fields of the source, prefixed where two records share a name; an enum is a datatype. A
  method is a function of the state that returns the new state, and a panic or an \<open>Err\<close> is a value of an option or
  sum type. A \<open>u64\<close> that wraps is a \<open>64 word\<close>; a \<open>usize\<close> is a natural number with saturation or the modulus written out. Instants and durations
  count nanoseconds. A mutex or interior cell is part of the state of its owner; concurrent tasks are
  sequences of steps, one per critical section, in any order.

  \<^bold>\<open>Bounds.\<close> No function has fuel: loops are structural or end by a measure (the transfers retained, the bytes left, the
  generations left). Budgets are those of the configuration; where a theorem needs a budget below \<open>usize::MAX\<close>,
  so that a saturating sum is exact, it says so, and the defaults satisfy it.

  \<^bold>\<open>Parameters.\<close> Code outside the repository is an argument: the keyed hash and the cipher (\<^typ>\<open>Crypto\<close>), signatures (\<^typ>\<open>Ed25519\<close>), the message digest and serializer, entries and
  their merge (\<open>EntryOps\<close>, with the laws \<^const>\<open>entry_laws\<close>), the clock (\<open>ClockOps\<close>), networks (\<open>NetOps\<close>), the outcomes of system calls, and
  every clock reading and random draw. Theorems that rely on their behaviour name it as a hypothesis, and witnesses instantiate it.

  \<^bold>\<open>Not modelled.\<close> Sockets and the emulated network (\<open>gossip/src/transport.rs\<close>, \<open>substrate.rs\<close>, \<open>emulation/\<close>) and discovery (\<open>discovery.rs\<close> in both crates) are
  I/O; the internals of the hybrid clock and the diffing of range summaries belong to external packages; metrics and logs
  (\<open>src/observability/\<close>, \<open>metrics.rs\<close>, \<open>prometheus.rs\<close>) influence no decision; the value-only replicas (\<open>src/read_replica_map/\<close>), the set interface and the
  read guards are left out. Memory ordering and lock poisoning are below the level of the model.
\<close>

section \<open>From one node to another\<close>

text \<open>A link on which both ends hold a key of an authenticated cluster and the default policy.\<close>

definition demo_net :: "nat NetState" where
  "demo_net = \<lparr>net_filter = replay_filter_new 300000 True, net_reasm = for_identity (reassembly_limits framing_default),
     net_send = demo_send, net_members = [], net_peers = [], net_repairs = []\<rparr>"

definition demo_clock :: RxClock where
  "demo_clock = \<lparr>rx_wall = 1000, rx_accept = 5, rx_event = 5, rx_support = 5\<rparr>"

lemma demo_link: "link_ok demo_env demo_ports demo_send 2 demo_env demo_ports 4 demo_net 1 1000 1000"
  using default_budgets_finite
  by (simp add: link_ok_def demo_env_def demo_ports_def demo_send_def demo_net_def channel_ok_def same_mode_def keys_single_def
      keys_iter_def tag_sized_def framing_validate_def framing_default_def DEFAULT_DATAGRAM_PAYLOAD_BUDGET_def generous_def
      reassembly_limits_def transport_up_def uncapable_def book_for_identity_def ready_def replay_filter_new_def
      sender_counter_new_def usize_max_def sat_add_def auth_consts frame_consts MAX_UDP_PAYLOAD_def)



end
